(* ===== verification/Prelude.thy ===== *)
theory Prelude
  imports Main "HOL-Library.Word" "HOL-Library.Multiset"
begin

text \<open>
  Shared vocabulary of the development: names for the machine types of the Go sources, the
  slice and byte operations of the language that several components use, and the generic
  facts on lists, words and majorities that carry the component proofs.
\<close>

unbundle bit_operations_syntax

named_theorems dht_defs \<open>definitions of the routing layer\<close>
named_theorems raft_defs \<open>definitions of the consensus layer\<close>
named_theorems wire_defs \<open>definitions of the message layer\<close>

subsection \<open>Machine types\<close>

type_synonym byte = "8 word"
type_synonym u32 = "32 word"
type_synonym u64 = "64 word"

text \<open>
  Go's \<open>int\<close> is 64 bits wide and wraps. Where a computation can leave the range the model
  writes the wrap-around out with \<open>wrap64\<close>.
\<close>

definition wrap64 :: "int \<Rightarrow> int" where
  "wrap64 n = (n + 2 ^ 63) mod 2 ^ 64 - 2 ^ 63"

abbreviation int64 :: "int \<Rightarrow> bool" where
  "int64 n \<equiv> - (2 ^ 63) \<le> n \<and> n < 2 ^ 63"

lemma wrap64_id [simp]: "int64 n \<Longrightarrow> wrap64 n = n"
  by (simp add: wrap64_def)

lemma wrap64_range: "int64 (wrap64 n)"
proof -
  have "0 \<le> (n + 2 ^ 63) mod 2 ^ 64" "(n + 2 ^ 63) mod 2 ^ 64 < (2 ^ 64 :: int)"
    by simp_all
  then show ?thesis by (simp add: wrap64_def)
qed

subsection \<open>Slices\<close>

text \<open>
  \<open>copy(xs[i:], ys)\<close>: the elements of \<open>ys\<close> overwrite \<open>xs\<close> from index \<open>i\<close>, as many as
  fit; the length of \<open>xs\<close> does not change. The built-in reads its source before it writes,
  so overlapping slices are safe.
\<close>

definition copy_at :: "'a list \<Rightarrow> nat \<Rightarrow> 'a list \<Rightarrow> 'a list" where
  "copy_at xs i ys = take i xs @ take (length xs - i) ys @ drop (i + length ys) xs"

lemma length_copy_at [simp]: "i \<le> length xs \<Longrightarrow> length (copy_at xs i ys) = length xs"
  by (auto simp: copy_at_def)

text \<open>
  Shifting the tail of a slice down by one and dropping the last element removes element
  \<open>i\<close>; overwriting the last element instead moves element \<open>i\<close> to the end.
\<close>

lemma copy_at_shift:
  assumes "i < length xs"
  shows "copy_at xs i (drop (Suc i) xs) = take i xs @ drop (Suc i) xs @ [last xs]"
proof -
  have "drop (i + length (drop (Suc i) xs)) xs = [last xs]"
  proof -
    have "i + length (drop (Suc i) xs) = length xs - 1" using assms by simp
    moreover have "drop (length xs - 1) xs = [last xs]"
      using assms by (cases xs rule: rev_cases) auto
    ultimately show ?thesis by simp
  qed
  then show ?thesis using assms by (simp add: copy_at_def)
qed

lemma copy_at_remove:
  "i < length xs \<Longrightarrow>
     take (length xs - Suc 0) (copy_at xs i (drop (Suc i) xs)) = take i xs @ drop (Suc i) xs"
  by (simp add: copy_at_shift)

lemma copy_at_move_end:
  "i < length xs \<Longrightarrow>
     (copy_at xs i (drop (Suc i) xs))[length xs - 1 := y] = take i xs @ drop (Suc i) xs @ [y]"
  by (auto simp: copy_at_shift list_update_append)

subsection \<open>Big-endian numbers\<close>

definition be_nat :: "byte list \<Rightarrow> nat" where
  "be_nat bs = foldl (\<lambda>a b. a * 256 + unat b) 0 bs"

lemma foldl_be_nat:
  "foldl (\<lambda>a b. a * 256 + unat b) n (bs :: byte list) = n * 256 ^ length bs + be_nat bs"
proof (induction bs arbitrary: n)
  case Nil
  then show ?case by (simp add: be_nat_def)
next
  case (Cons b bs)
  have "be_nat (b # bs) = unat b * 256 ^ length bs + be_nat bs"
    unfolding be_nat_def using Cons.IH [of "unat b"] by (simp add: be_nat_def)
  then show ?case using Cons.IH [of "n * 256 + unat b"] by (simp add: algebra_simps)
qed

lemma be_nat_Nil [simp]: "be_nat [] = 0"
  by (simp add: be_nat_def)

lemma be_nat_Cons [simp]: "be_nat (b # bs) = unat b * 256 ^ length bs + be_nat bs"
proof -
  have "be_nat (b # bs) = foldl (\<lambda>a b. a * 256 + unat b) (unat b) bs"
    by (simp add: be_nat_def)
  then show ?thesis by (simp add: foldl_be_nat)
qed

lemma unat_byte_less [simp]: "unat (b :: byte) < 256"
  using unsigned_less [of b, where 'a = nat] by simp

lemma be_nat_less: "be_nat bs < 256 ^ length bs"
proof (induction bs)
  case Nil
  then show ?case by simp
next
  case (Cons b bs)
  have "Suc (unat b) \<le> 256" using unat_byte_less [of b] by linarith
  then have "Suc (unat b) * 256 ^ length bs \<le> 256 * 256 ^ length bs"
    by (rule mult_le_mono1)
  then have "unat b * 256 ^ length bs + 256 ^ length bs \<le> 256 * 256 ^ length bs"
    by (metis add.commute mult_Suc)
  then have "unat b * 256 ^ length bs + be_nat bs < 256 * 256 ^ length bs"
    using Cons by linarith
  then show ?case by simp
qed

lemma be_nat_inj:
  assumes "length xs = length ys" and "be_nat xs = be_nat ys"
  shows "xs = ys"
  using assms
proof (induction xs ys rule: list_induct2)
  case Nil
  then show ?case by simp
next
  case (Cons x xs y ys)
  let ?B = "256 ^ length ys :: nat"
  have lt: "be_nat xs < ?B" "be_nat ys < ?B"
    using be_nat_less [of xs] be_nat_less [of ys] Cons.hyps by simp_all
  have eq: "unat x * ?B + be_nat xs = unat y * ?B + be_nat ys"
    using Cons.prems Cons.hyps by simp
  have "(unat x * ?B + be_nat xs) div ?B = unat x" "(unat y * ?B + be_nat ys) div ?B = unat y"
    using lt by simp_all
  then have "unat x = unat y" using eq by simp
  then show ?case using eq Cons.IH by (simp add: word_unat_eq_iff)
qed

subsection \<open>Majorities\<close>

text \<open>Two sets that each hold more than half of a finite set meet.\<close>

lemma majorities_meet:
  assumes "finite E" and "S \<subseteq> E" and "T \<subseteq> E"
    and "card E < 2 * card S" and "card E < 2 * card T"
  shows "\<exists>x. x \<in> S \<and> x \<in> T"
proof (rule ccontr)
  assume "\<not> ?thesis"
  then have "S \<inter> T = {}" by blast
  moreover have "finite S" "finite T" using assms finite_subset by blast+
  ultimately have "card (S \<union> T) = card S + card T" by (rule card_Un_disjoint [rotated 2])
  moreover have "card (S \<union> T) \<le> card E" using assms by (intro card_mono) auto
  ultimately show False using assms by linarith
qed

subsection \<open>Sorting by a key\<close>

text \<open>
  The library sort of the sources is not stable. Where the keys of the elements are distinct
  the sorted permutation is unique, so it does not matter which one the sort returns.
\<close>

lemma sorted_key_unique:
  assumes "sorted (map f xs)" and "sorted (map f ys)" and "mset xs = mset ys"
    and "inj_on f (set xs)"
  shows "xs = ys"
proof -
  have "mset (map f xs) = mset (map f ys)" using assms(3) by simp
  then have "map f xs = map f ys"
    using assms(1,2) properties_for_sort by (metis sorted_sort_id)
  moreover have "set ys = set xs" using assms(3) by (metis set_mset_mset)
  ultimately show ?thesis using assms(4) by (metis inj_on_map_eq_map sup.idem)
qed

corollary sort_key_perm:
  assumes "mset xs = mset ys" and "inj_on f (set xs)"
  shows "sort_key f xs = sort_key f ys"
  by (rule sorted_key_unique [where f = f]) (use assms in simp_all)

lemma distinct_map_inj_on: "distinct (map f xs) \<Longrightarrow> inj_on f (set xs)"
  by (simp add: distinct_map)

subsection \<open>Words as counters\<close>

text \<open>A word below another one can be incremented without wrap-around.\<close>

lemma unat_plus1_less: "(a :: 'a :: len word) < b \<Longrightarrow> unat (a + 1) = Suc (unat a)"
proof -
  assume "a < b"
  then have "Suc (unat a) \<le> unat b" by (simp add: word_less_nat_alt)
  also have "\<dots> < 2 ^ LENGTH('a)" by (rule unsigned_less)
  finally show ?thesis by (simp add: unat_word_ariths)
qed

lemma unat_word_of_length: "length xs < 2 ^ 64 \<Longrightarrow> unat (word_of_nat (length xs) :: u64) = length xs"
  by (simp add: unat_of_nat)

subsection \<open>The lowest elements of a set\<close>

text \<open>The elements of \<open>A\<close> that fewer than \<open>k\<close> elements precede.\<close>

definition lowest :: "nat \<Rightarrow> nat set \<Rightarrow> nat set" where
  "lowest k A = {x \<in> A. card {y \<in> A. y < x} < k}"

lemma lowest_subset: "lowest k A \<subseteq> A"
  by (auto simp: lowest_def)

lemma in_set_take_nth: "x \<in> set (take k xs) \<longleftrightarrow> (\<exists>i < length xs. i < k \<and> x = xs ! i)"
proof
  assume "x \<in> set (take k xs)"
  then obtain i where "i < length (take k xs)" "x = take k xs ! i" by (metis in_set_conv_nth)
  then show "\<exists>i < length xs. i < k \<and> x = xs ! i" by (intro exI [of _ i]) simp
next
  assume "\<exists>i < length xs. i < k \<and> x = xs ! i"
  then obtain i where "i < length (take k xs)" "x = take k xs ! i" by auto
  then show "x \<in> set (take k xs)" by (metis nth_mem)
qed

lemma below_sorted:
  assumes "sorted_wrt (<) xs" and "i < length xs"
  shows "{y \<in> set xs. y < xs ! i} = set (take i (xs :: nat list))"
proof -
  have mono: "a < b \<Longrightarrow> b < length xs \<Longrightarrow> xs ! a < xs ! b" for a b
    using assms(1) by (simp add: sorted_wrt_iff_nth_less)
  have iff: "xs ! j < xs ! i \<longleftrightarrow> j < i" if "j < length xs" for j
    using mono [of j i] mono [of i j] that assms(2) by (cases j i rule: linorder_cases) auto
  have "y \<in> set xs \<and> y < xs ! i \<longleftrightarrow> (\<exists>j < length xs. j < i \<and> y = xs ! j)" for y
    using iff by (metis in_set_conv_nth)
  then show ?thesis unfolding in_set_take_nth [symmetric] by blast
qed

lemma lowest_sorted:
  assumes "sorted_wrt (<) xs"
  shows "lowest k (set xs) = set (take k xs)"
proof -
  have "xs ! i \<in> lowest k (set xs) \<longleftrightarrow> i < k" if "i < length xs" for i
    using that assms
    by (simp add: lowest_def below_sorted distinct_card strict_sorted_iff)
  then have "x \<in> lowest k (set xs) \<longleftrightarrow> (\<exists>i < length xs. i < k \<and> x = xs ! i)" for x
    using lowest_subset [of k "set xs"] by (metis in_set_conv_nth subsetD)
  then show ?thesis by (auto simp: in_set_take_nth)
qed

lemma finite_sorted_enum:
  assumes "finite (A :: nat set)"
  obtains xs where "sorted_wrt (<) xs" and "A = set xs"
  using that [of "sorted_list_of_set A"] assms by simp

lemma lowest_lowest:
  assumes "finite A" and "k \<le> n"
  shows "lowest k (lowest n A) = lowest k A"
proof -
  obtain xs where xs: "sorted_wrt (<) xs" "A = set xs" using assms(1) by (rule finite_sorted_enum)
  have "lowest k (set (take n xs)) = set (take k (take n xs))"
    by (rule lowest_sorted [OF sorted_wrt_take [OF xs(1)]])
  then show ?thesis using assms(2) xs by (simp add: lowest_sorted min_absorb1)
qed

lemma card_lowest_below:
  assumes "finite A"
  shows "card {y \<in> lowest k A. y < x} = min k (card {y \<in> A. y < x})"
proof -
  have "finite {y \<in> A. y < x}" using assms by simp
  then obtain xs where xs: "sorted_wrt (<) xs" "{y \<in> A. y < x} = set xs" by (rule finite_sorted_enum)
  have "{z \<in> A. z < y} = {z \<in> {y \<in> A. y < x}. z < y}" if "y < x" for y using that by auto
  then have "{y \<in> lowest k A. y < x} = lowest k {y \<in> A. y < x}"
    by (auto simp: lowest_def)
  also have "\<dots> = set (take k xs)" using xs by (simp add: lowest_sorted)
  finally show ?thesis using xs(1) by (simp add: xs(2) distinct_card strict_sorted_iff min.commute)
qed

text \<open>Only the lowest elements of a part matter for the lowest elements of a union.\<close>

lemma lowest_Un:
  assumes "finite A" and "finite C"
  shows "lowest k (lowest k A \<union> C) = lowest k (A \<union> C)"
proof (rule set_eqI)
  fix x
  have fin: "finite {y \<in> A \<union> C. y < x}" using assms by auto
  have "card {y \<in> lowest k A \<union> C. y < x} < k \<longleftrightarrow> card {y \<in> A \<union> C. y < x} < k"
  proof (cases "card {y \<in> A. y < x} < k")
    case True
    have "y \<in> lowest k A" if "y \<in> A" "y < x" for y
    proof -
      have "card {z \<in> A. z < y} \<le> card {y \<in> A. y < x}"
        using that assms(1) by (intro card_mono) auto
      then show ?thesis using True that(1) by (simp add: lowest_def)
    qed
    then have "{y \<in> lowest k A \<union> C. y < x} = {y \<in> A \<union> C. y < x}"
      using lowest_subset [of k A] by blast
    then show ?thesis by simp
  next
    case False
    then have "k \<le> card {y \<in> lowest k A. y < x}" using card_lowest_below [OF assms(1), of k x] by simp
    also have "\<dots> \<le> card {y \<in> lowest k A \<union> C. y < x}"
      using fin lowest_subset [of k A] by (intro card_mono) (auto elim: rev_finite_subset)
    finally have 1: "k \<le> card {y \<in> lowest k A \<union> C. y < x}" .
    also have "\<dots> \<le> card {y \<in> A \<union> C. y < x}"
      using fin lowest_subset [of k A] by (intro card_mono) auto
    finally show ?thesis using 1 by simp
  qed
  moreover have "x \<in> lowest k A" if "x \<in> A" "card {y \<in> A \<union> C. y < x} < k"
  proof -
    have "card {y \<in> A. y < x} \<le> card {y \<in> A \<union> C. y < x}" using fin by (intro card_mono) auto
    then show ?thesis using that by (simp add: lowest_def)
  qed
  ultimately show "x \<in> lowest k (lowest k A \<union> C) \<longleftrightarrow> x \<in> lowest k (A \<union> C)"
    using lowest_subset [of k A] unfolding lowest_def [of k "lowest k A \<union> C"] lowest_def [of k "A \<union> C"]
    by auto
qed

subsection \<open>Unspecified iteration order\<close>

text \<open>
  A Go map is iterated in an order the language leaves open. The model iterates in the order
  that a list of choices gives; every order is the result of some choices.
\<close>

fun shuffle :: "nat list \<Rightarrow> 'a list \<Rightarrow> 'a list" where
  "shuffle ks [] = []"
| "shuffle [] (x # xs) = x # xs"
| "shuffle (k # ks) (x # xs) =
     (let i = k mod length (x # xs)
      in (x # xs) ! i # shuffle ks (take i (x # xs) @ drop (Suc i) (x # xs)))"

lemma mset_drop_nth: "i < length xs \<Longrightarrow> add_mset (xs ! i) (mset (take i xs @ drop (Suc i) xs)) = mset xs"
  by (subst (4) id_take_nth_drop [of i xs]) simp_all

lemma mset_shuffle [simp]: "mset (shuffle ks xs) = mset xs"
proof (induction ks xs rule: shuffle.induct)
  case (3 k ks x xs)
  let ?i = "k mod length (x # xs)"
  have "?i < length (x # xs)" by (rule mod_less_divisor) simp
  from mset_drop_nth [OF this] 3 [OF refl] show ?case
    unfolding shuffle.simps Let_def by (simp del: length_Cons)
qed simp_all

lemma set_shuffle [simp]: "set (shuffle ks xs) = set xs"
  by (metis mset_shuffle set_mset_mset)

lemma shuffle_any:
  "mset ys = mset xs \<Longrightarrow> \<exists>ks. shuffle ks xs = ys"
proof (induction ys arbitrary: xs)
  case (Cons y ys)
  then have "y \<in> set xs" by (metis list.set_intros(1) set_mset_mset)
  then obtain i where i: "i < length xs" "xs ! i = y" by (auto simp: in_set_conv_nth)
  then have "mset ys = mset (take i xs @ drop (Suc i) xs)"
    using Cons.prems mset_drop_nth [OF i(1)] by (metis add_mset_add_mset_same_iff mset.simps(2))
  then obtain ks where "shuffle ks (take i xs @ drop (Suc i) xs) = ys" using Cons.IH by blast
  then have "shuffle (i # ks) xs = y # ys" using i by (cases xs) auto
  then show ?case ..
qed simp

end
