(* ===== verification/GoStrings.thy ===== *)
theory GoStrings
  imports Prelude "HOL-Library.Sublist"
begin

text \<open>
  The string and encoding routines of the Go standard library that the sources call, on
  strings as byte sequences: \<open>strings.TrimSpace\<close>, \<open>strings.TrimPrefix\<close> and the
  package \<open>encoding/hex\<close>.
\<close>

subsection \<open>White space\<close>

text \<open>
  The UTF-8 encodings of the code points with the Unicode property White\_Space, which
  \<open>unicode.IsSpace\<close> accepts. \<open>strings.TrimSpace\<close> drops them from both ends.
\<close>

definition space_runes :: "string list" where
  "space_runes =
     [[CHR 0x09], [CHR 0x0A], [CHR 0x0B], [CHR 0x0C], [CHR 0x0D], [CHR 0x20],
      [CHR 0xC2, CHR 0x85], [CHR 0xC2, CHR 0xA0], [CHR 0xE1, CHR 0x9A, CHR 0x80],
      [CHR 0xE2, CHR 0x80, CHR 0x80], [CHR 0xE2, CHR 0x80, CHR 0x81],
      [CHR 0xE2, CHR 0x80, CHR 0x82], [CHR 0xE2, CHR 0x80, CHR 0x83],
      [CHR 0xE2, CHR 0x80, CHR 0x84], [CHR 0xE2, CHR 0x80, CHR 0x85],
      [CHR 0xE2, CHR 0x80, CHR 0x86], [CHR 0xE2, CHR 0x80, CHR 0x87],
      [CHR 0xE2, CHR 0x80, CHR 0x88], [CHR 0xE2, CHR 0x80, CHR 0x89],
      [CHR 0xE2, CHR 0x80, CHR 0x8A], [CHR 0xE2, CHR 0x80, CHR 0xA8],
      [CHR 0xE2, CHR 0x80, CHR 0xA9], [CHR 0xE2, CHR 0x80, CHR 0xAF],
      [CHR 0xE2, CHR 0x81, CHR 0x9F], [CHR 0xE3, CHR 0x80, CHR 0x80]]"

definition lead_space :: "string list \<Rightarrow> string \<Rightarrow> string option" where
  "lead_space ws s = List.find (\<lambda>w. w \<noteq> [] \<and> prefix w s) ws"

lemma lead_space_Some: "lead_space ws s = Some w \<Longrightarrow> w \<in> set ws \<and> w \<noteq> [] \<and> prefix w s"
  by (auto simp: lead_space_def find_Some_iff)

lemma lead_space_None: "lead_space ws s = None \<longleftrightarrow> (\<forall>w \<in> set ws. w \<noteq> [] \<longrightarrow> \<not> prefix w s)"
  by (auto simp: lead_space_def find_None_iff)

function trim_left :: "string list \<Rightarrow> string \<Rightarrow> string" where
  "trim_left ws s =
     (case lead_space ws s of None \<Rightarrow> s | Some w \<Rightarrow> trim_left ws (drop (length w) s))"
  by pat_completeness auto
termination
proof (relation "measure (\<lambda>(ws, s). length s)")
  fix ws s w
  assume "lead_space ws s = Some w"
  then have "w \<noteq> []" "prefix w s" using lead_space_Some by blast+
  then have "0 < length w" "length w \<le> length s" by (auto dest: prefix_length_le)
  then have "length s - length w < length s" by linarith
  then show "((ws, drop (length w) s), ws, s) \<in> measure (\<lambda>(ws, s). length s)" by simp
qed simp

declare trim_left.simps [simp del]

definition trim_right :: "string list \<Rightarrow> string \<Rightarrow> string" where
  "trim_right ws s = rev (trim_left (map rev ws) (rev s))"

definition TrimSpace :: "string \<Rightarrow> string" where
  "TrimSpace s = trim_right space_runes (trim_left space_runes s)"

lemma trim_left_suffix: "suffix (trim_left ws s) s"
proof (induction ws s rule: trim_left.induct)
  case (1 ws s)
  show ?case
  proof (cases "lead_space ws s")
    case None
    then show ?thesis by (simp add: trim_left.simps [of ws s])
  next
    case (Some w)
    have "suffix (trim_left ws (drop (length w) s)) (drop (length w) s)"
      using "1.IH" Some by simp
    then have "suffix (trim_left ws (drop (length w) s)) s"
      using suffix_drop suffix_order.trans by blast
    then show ?thesis using Some by (simp add: trim_left.simps [of ws s])
  qed
qed

lemma trim_left_stops: "lead_space ws (trim_left ws s) = None"
proof (induction ws s rule: trim_left.induct)
  case (1 ws s)
  then show ?case
    by (cases "lead_space ws s") (simp_all add: trim_left.simps [of ws s])
qed

lemma trim_left_id: "lead_space ws s = None \<Longrightarrow> trim_left ws s = s"
  by (simp add: trim_left.simps [of ws s])

lemma trim_right_prefix: "prefix (trim_right ws s) s"
proof -
  have "suffix (trim_left (map rev ws) (rev s)) (rev s)" by (rule trim_left_suffix)
  then show ?thesis by (simp add: trim_right_def suffix_to_prefix)
qed

lemma trim_right_id: "lead_space (map rev ws) (rev s) = None \<Longrightarrow> trim_right ws s = s"
  by (simp add: trim_right_def trim_left_id)

lemma lead_space_prefix_mono: "lead_space ws s = None \<Longrightarrow> prefix t s \<Longrightarrow> lead_space ws t = None"
  by (auto simp: lead_space_None dest: prefix_order.trans)

text \<open>Trimming is idempotent: nothing is left to trim at either end.\<close>

lemma TrimSpace_ends:
  "lead_space space_runes (TrimSpace s) = None"
  "lead_space (map rev space_runes) (rev (TrimSpace s)) = None"
proof -
  show "lead_space space_runes (TrimSpace s) = None"
    unfolding TrimSpace_def
    by (rule lead_space_prefix_mono [OF trim_left_stops trim_right_prefix])
  show "lead_space (map rev space_runes) (rev (TrimSpace s)) = None"
    by (simp add: TrimSpace_def trim_right_def trim_left_stops)
qed

lemma TrimSpace_idem [simp]: "TrimSpace (TrimSpace s) = TrimSpace s"
  using TrimSpace_ends [of s] by (simp add: TrimSpace_def [of "TrimSpace s"] trim_left_id trim_right_id)

text \<open>
  A string whose first and last bytes are printable ASCII is left alone; in particular one
  made of hexadecimal digits.
\<close>

definition graphic :: "char \<Rightarrow> bool" where
  "graphic c \<longleftrightarrow> 0x21 \<le> (of_char c :: nat) \<and> (of_char c :: nat) \<le> 0x7E"

lemma not_graphic_space_ends:
  "list_all (\<lambda>w. w \<noteq> [] \<and> \<not> graphic (hd w) \<and> \<not> graphic (last w)) space_runes"
  by (simp add: space_runes_def graphic_def)

lemma lead_space_graphic:
  assumes "list_all (\<lambda>w. w \<noteq> [] \<and> \<not> graphic (hd w)) ws" and "s = [] \<or> graphic (hd s)"
  shows "lead_space ws s = None"
  using assms by (auto simp: lead_space_None list_all_iff prefix_def)

lemma TrimSpace_graphic:
  assumes "s = [] \<or> graphic (hd s) \<and> graphic (last s)"
  shows "TrimSpace s = s"
proof -
  have ws: "list_all (\<lambda>w. w \<noteq> [] \<and> \<not> graphic (hd w)) space_runes"
    "list_all (\<lambda>w. w \<noteq> [] \<and> \<not> graphic (hd w)) (map rev space_runes)"
    using not_graphic_space_ends by (auto simp: list_all_iff hd_rev)
  have "lead_space space_runes s = None"
    using assms by (intro lead_space_graphic [OF ws(1)]) auto
  moreover have "lead_space (map rev space_runes) (rev s) = None"
    using assms by (intro lead_space_graphic [OF ws(2)]) (auto simp: hd_rev)
  ultimately show ?thesis by (simp add: TrimSpace_def trim_left_id trim_right_id)
qed

definition TrimPrefix :: "string \<Rightarrow> string \<Rightarrow> string" where
  "TrimPrefix s p = (if prefix p s then drop (length p) s else s)"

subsection \<open>Package encoding/hex\<close>

definition hextable :: string where
  "hextable = ''0123456789abcdef''"

definition hexEncodeByte :: "byte \<Rightarrow> string" where
  "hexEncodeByte b = [hextable ! unat (drop_bit 4 b), hextable ! unat (b AND 15)]"

definition EncodeToString :: "byte list \<Rightarrow> string" where
  "EncodeToString bs = concat (map hexEncodeByte bs)"

definition fromHexChar :: "char \<Rightarrow> byte option" where
  "fromHexChar c =
     (let n = of_char c :: nat in
      if 48 \<le> n \<and> n \<le> 57 then Some (of_nat (n - 48))
      else if 97 \<le> n \<and> n \<le> 102 then Some (of_nat (n - 97 + 10))
      else if 65 \<le> n \<and> n \<le> 70 then Some (of_nat (n - 65 + 10))
      else None)"

datatype hex_error = InvalidByteError char | ErrLength

fun DecodeString :: "string \<Rightarrow> hex_error + byte list" where
  "DecodeString [] = Inr []"
| "DecodeString [c] = Inl (case fromHexChar c of None \<Rightarrow> InvalidByteError c | Some _ \<Rightarrow> ErrLength)"
| "DecodeString (c # d # cs) =
     (case fromHexChar c of
        None \<Rightarrow> Inl (InvalidByteError c)
      | Some a \<Rightarrow>
          (case fromHexChar d of
             None \<Rightarrow> Inl (InvalidByteError d)
           | Some b \<Rightarrow>
               (case DecodeString cs of
                  Inl e \<Rightarrow> Inl e
                | Inr bs \<Rightarrow> Inr ((push_bit 4 a OR b) # bs))))"

lemma fromHexChar_hextable: "n < 16 \<Longrightarrow> fromHexChar (hextable ! n) = Some (of_nat n)"
proof -
  have "\<forall>n \<in> set [0..<16]. fromHexChar (hextable ! n) = Some (of_nat n)" by code_simp
  then show "n < 16 \<Longrightarrow> fromHexChar (hextable ! n) = Some (of_nat n)" by simp
qed

lemma graphic_hextable: "n < 16 \<Longrightarrow> graphic (hextable ! n)"
proof -
  have "\<forall>n \<in> set [0..<16]. graphic (hextable ! n)" by code_simp
  then show "n < 16 \<Longrightarrow> graphic (hextable ! n)" by simp
qed

lemma unat_high_nibble: "unat (drop_bit 4 (b :: byte)) < 16"
proof -
  have "unat (drop_bit 4 b) = unat b div 16"
    by (simp only: unat_drop_bit_eq) (simp add: drop_bit_eq_div)
  then show ?thesis using unat_byte_less [of b] by linarith
qed

lemma unat_low_nibble: "unat ((b :: byte) AND 15) < 16"
proof -
  have "b AND 15 \<le> 15" by (rule word_and_le1)
  then have "unat (b AND 15) \<le> unat (15 :: byte)" by (simp add: word_le_nat_alt)
  then show ?thesis by simp
qed

lemma nibbles_join: "push_bit 4 (drop_bit 4 b) OR (b AND 15) = (b :: byte)"
proof -
  have low: "b AND 15 = take_bit 4 b"
    by (simp add: take_bit_eq_mask mask_eq_exp_minus_1)
  show ?thesis unfolding low by (rule bit_word_eqI) (auto simp: bit_simps)
qed

lemma DecodeString_encode: "DecodeString (EncodeToString bs @ s) =
   (case DecodeString s of Inl e \<Rightarrow> Inl e | Inr cs \<Rightarrow> Inr (bs @ cs))"
  by (induction bs)
    (auto simp: EncodeToString_def hexEncodeByte_def fromHexChar_hextable unat_high_nibble
      unat_low_nibble nibbles_join split: sum.splits)

lemma DecodeString_EncodeToString: "DecodeString (EncodeToString bs) = Inr bs"
  using DecodeString_encode [of bs "[]"] by simp

lemma length_EncodeToString [simp]: "length (EncodeToString bs) = 2 * length bs"
  by (induction bs) (simp_all add: EncodeToString_def hexEncodeByte_def)

lemma DecodeString_length: "DecodeString s = Inr bs \<Longrightarrow> length s = 2 * length bs"
  by (induction s arbitrary: bs rule: DecodeString.induct) (auto split: option.splits sum.splits)

lemma EncodeToString_graphic: "c \<in> set (EncodeToString bs) \<Longrightarrow> graphic c"
  by (induction bs)
    (auto simp: EncodeToString_def hexEncodeByte_def graphic_hextable unat_high_nibble unat_low_nibble)

lemma hextable_no_bar: "n < 16 \<Longrightarrow> hextable ! n \<noteq> CHR ''|''"
proof -
  have "\<forall>n \<in> set [0..<16]. hextable ! n \<noteq> CHR ''|''" by code_simp
  then show "n < 16 \<Longrightarrow> hextable ! n \<noteq> CHR ''|''" by simp
qed

lemma EncodeToString_no_bar: "CHR ''|'' \<notin> set (EncodeToString bs)"
  using hextable_no_bar [OF unat_high_nibble] hextable_no_bar [OF unat_low_nibble]
  by (induction bs) (force simp: EncodeToString_def hexEncodeByte_def)+

end
