(* ===== verification/Sha256.thy ===== *)
theory Sha256
  imports Prelude
begin

text \<open>
  The hash function \<open>sha256.Sum256\<close> of the Go standard library (FIPS 180-4), on byte
  lists. The sources use it to derive node identifiers, sensor locations and message
  identifiers; what the development needs of it is that the digest has 32 bytes.
\<close>

text \<open>
  The constants of the standard: the first 32 bits of the fractional parts of the cube roots and
  the square roots of the first primes. The root is found bit by bit, from bit \<open>b\<close> down.
\<close>

fun root_bits :: "nat \<Rightarrow> int \<Rightarrow> nat \<Rightarrow> int \<Rightarrow> int" where
  "root_bits d n 0 r = (if (r + 1) ^ d \<le> n then r + 1 else r)"
| "root_bits d n (Suc b) r =
     (let r' = r + 2 ^ Suc b in root_bits d n b (if r' ^ d \<le> n then r' else r))"

definition root_fraction :: "nat \<Rightarrow> int \<Rightarrow> u32" where
  "root_fraction d p = of_int (root_bits d (p * 2 ^ (32 * d)) 36 0)"

definition small_primes :: "int list" where
  "small_primes = filter (\<lambda>n. \<forall>d \<in> set [2..n - 1]. n mod d \<noteq> 0) [2..311]"

definition sha256_K :: "u32 list" where
  "sha256_K = map (root_fraction 3) small_primes"

definition sha256_H0 :: "u32 list" where
  "sha256_H0 = map (root_fraction 2) [2, 3, 5, 7, 11, 13, 17, 19]"

definition sha_ch :: "u32 \<Rightarrow> u32 \<Rightarrow> u32 \<Rightarrow> u32" where
  "sha_ch x y z = (x AND y) XOR (NOT x AND z)"

definition sha_maj :: "u32 \<Rightarrow> u32 \<Rightarrow> u32 \<Rightarrow> u32" where
  "sha_maj x y z = (x AND y) XOR (x AND z) XOR (y AND z)"

definition rotr32 :: "nat \<Rightarrow> u32 \<Rightarrow> u32" where
  "rotr32 n x = drop_bit n x OR push_bit (32 - n) x"

definition sha_S0 :: "u32 \<Rightarrow> u32" where
  "sha_S0 x = rotr32 2 x XOR rotr32 13 x XOR rotr32 22 x"

definition sha_S1 :: "u32 \<Rightarrow> u32" where
  "sha_S1 x = rotr32 6 x XOR rotr32 11 x XOR rotr32 25 x"

definition sha_s0 :: "u32 \<Rightarrow> u32" where
  "sha_s0 x = rotr32 7 x XOR rotr32 18 x XOR drop_bit 3 x"

definition sha_s1 :: "u32 \<Rightarrow> u32" where
  "sha_s1 x = rotr32 17 x XOR rotr32 19 x XOR drop_bit 10 x"

definition be_bytes32 :: "u32 \<Rightarrow> byte list" where
  "be_bytes32 w = [ucast (drop_bit 24 w), ucast (drop_bit 16 w), ucast (drop_bit 8 w), ucast w]"

fun be_words32 :: "byte list \<Rightarrow> u32 list" where
  "be_words32 (a # b # c # d # bs) =
     (push_bit 24 (ucast a) OR push_bit 16 (ucast b) OR push_bit 8 (ucast c) OR ucast d) #
     be_words32 bs"
| "be_words32 _ = []"

text \<open>The message schedule: each word from the 16th on is computed from earlier ones.\<close>

fun sha_extend :: "nat \<Rightarrow> u32 list \<Rightarrow> u32 list" where
  "sha_extend 0 w = w"
| "sha_extend (Suc n) w =
     (let t = length w in
      sha_extend n (w @ [sha_s1 (w ! (t - 2)) + w ! (t - 7) + sha_s0 (w ! (t - 15)) + w ! (t - 16)]))"

text \<open>One round on the eight working variables.\<close>

fun sha_round :: "u32 \<times> u32 \<Rightarrow> u32 list \<Rightarrow> u32 list" where
  "sha_round (k, w) s =
     (let t1 = s ! 7 + sha_S1 (s ! 4) + sha_ch (s ! 4) (s ! 5) (s ! 6) + k + w;
          t2 = sha_S0 (s ! 0) + sha_maj (s ! 0) (s ! 1) (s ! 2)
      in (t1 + t2) # take 3 s @ (s ! 3 + t1) # take 3 (drop 4 s))"

definition sha_block :: "u32 list \<Rightarrow> byte list \<Rightarrow> u32 list" where
  "sha_block H blk = map2 (+) H (fold sha_round (zip sha256_K (sha_extend 48 (be_words32 blk))) H)"

function sha_blocks :: "u32 list \<Rightarrow> byte list \<Rightarrow> u32 list" where
  "sha_blocks H bs = (if bs = [] then H else sha_blocks (sha_block H (take 64 bs)) (drop 64 bs))"
  by pat_completeness auto
termination
  by (relation "measure (\<lambda>(H, bs). length bs)") (simp_all add: diff_less)

declare sha_blocks.simps [simp del]

definition sha_pad :: "byte list \<Rightarrow> byte list" where
  "sha_pad m =
     (let n = length m; bits = (of_nat (8 * n) :: u64)
      in m @ [0x80] @ replicate ((119 - n mod 64) mod 64) 0 @
         be_bytes32 (ucast (drop_bit 32 bits)) @ be_bytes32 (ucast bits))"

definition Sum256 :: "byte list \<Rightarrow> byte list" where
  "Sum256 m = concat (map be_bytes32 (sha_blocks sha256_H0 (sha_pad m)))"

lemma length_sha_block: "length H = 8 \<Longrightarrow> length (sha_block H blk) = 8"
proof -
  have "length (fold sha_round kws s) = 8" if "length s = 8" for kws s
    using that by (induction kws arbitrary: s) (auto simp: Let_def)
  then show "length H = 8 \<Longrightarrow> length (sha_block H blk) = 8" by (simp add: sha_block_def)
qed

lemma length_sha_blocks: "length H = 8 \<Longrightarrow> length (sha_blocks H bs) = 8"
proof (induction H bs rule: sha_blocks.induct)
  case (1 H bs)
  then have "bs \<noteq> [] \<Longrightarrow> length (sha_blocks (sha_block H (take 64 bs)) (drop 64 bs)) = 8"
    by (simp add: length_sha_block)
  then show ?case using "1.prems" by (subst sha_blocks.simps) simp
qed

lemma length_Sum256 [simp]: "length (Sum256 m) = 32"
proof -
  have "length (concat (map be_bytes32 ws)) = 4 * length ws" for ws
    by (induction ws) (simp_all add: be_bytes32_def)
  moreover have "length (sha_blocks sha256_H0 (sha_pad m)) = 8"
    by (rule length_sha_blocks) (simp add: sha256_H0_def)
  ultimately show ?thesis by (simp add: Sum256_def)
qed

end
