(* ===== verification/NodeId.thy ===== *)
theory NodeId
  imports GoStrings Sha256
begin

text \<open>
  Node identifiers and peers (\<open>pkg/dht/dht.go\<close>, \<open>pkg/dht/key.go\<close>). A \<open>NodeID\<close> is the
  byte list of the Go array \<open>[20]byte\<close>; \<open>wf_id\<close> is the length the array type guarantees.
  Times are counted in nanoseconds since the epoch.
\<close>

definition NodeIDLength :: nat where
  "NodeIDLength = 20"

type_synonym NodeID = "byte list"

definition wf_id :: "NodeID \<Rightarrow> bool" where
  "wf_id i \<longleftrightarrow> length i = NodeIDLength"

definition zeroID :: NodeID where
  "zeroID = replicate NodeIDLength 0"

record Peer =
  ID :: NodeID
  Addr :: string
  LastSeen :: int

datatype node_id_error = BadNodeIDLength | BadHex hex_error

definition NodeIDFromHex :: "string \<Rightarrow> node_id_error + NodeID" where
  "NodeIDFromHex value =
     (let clean = TrimPrefix (TrimSpace value) ''0x'' in
      if length clean \<noteq> NodeIDLength * 2 then Inl BadNodeIDLength
      else (case DecodeString clean of
              Inl e \<Rightarrow> Inl (BadHex e)
            | Inr decoded \<Rightarrow> Inr (copy_at zeroID 0 decoded)))"

definition NodeID_String :: "NodeID \<Rightarrow> string" where
  "NodeID_String i = EncodeToString i"

definition KeyToID :: "string \<Rightarrow> NodeID" where
  "KeyToID key = copy_at zeroID 0 (take NodeIDLength (Sum256 (map of_char key)))"

lemma NodeIDLength_pos [simp]: "0 < NodeIDLength"
  by (simp add: NodeIDLength_def)

lemma wf_zeroID [simp]: "wf_id zeroID"
  by (simp add: wf_id_def zeroID_def)

lemma copy_at_zeroID: "length bs = NodeIDLength \<Longrightarrow> copy_at zeroID 0 bs = bs"
  by (simp add: copy_at_def zeroID_def)

lemma wf_KeyToID [simp]: "wf_id (KeyToID key)"
  by (simp add: KeyToID_def wf_id_def copy_at_zeroID NodeIDLength_def zeroID_def)

lemma NodeIDFromHex_wf: "NodeIDFromHex s = Inr i \<Longrightarrow> wf_id i"
  by (auto simp: NodeIDFromHex_def Let_def wf_id_def zeroID_def split: if_splits sum.splits)

text \<open>A printed identifier has no white space around it and no prefix \<open>0x\<close>.\<close>

lemma TrimSpace_encoded: "TrimSpace (EncodeToString bs) = EncodeToString bs"
proof (rule TrimSpace_graphic)
  show "EncodeToString bs = [] \<or>
      graphic (hd (EncodeToString bs)) \<and> graphic (last (EncodeToString bs))"
    using EncodeToString_graphic hd_in_set last_in_set by blast
qed

lemma hextable_not_x: "n < 16 \<Longrightarrow> hextable ! n \<noteq> CHR ''x''"
proof -
  have "\<forall>n \<in> set [0..<16]. hextable ! n \<noteq> CHR ''x''" by code_simp
  then show "n < 16 \<Longrightarrow> hextable ! n \<noteq> CHR ''x''" by simp
qed

lemma TrimPrefix_encoded: "TrimPrefix (EncodeToString bs) ''0x'' = EncodeToString bs"
proof (cases bs)
  case Nil
  then show ?thesis by (simp add: TrimPrefix_def EncodeToString_def)
next
  case (Cons b bs')
  have "hextable ! unat (b AND 15) \<noteq> CHR ''x''"
    by (rule hextable_not_x [OF unat_low_nibble])
  then show ?thesis using Cons
    by (auto simp: TrimPrefix_def EncodeToString_def hexEncodeByte_def)
qed

lemma NodeIDFromHex_prefixed:
  assumes "wf_id i"
  shows "NodeIDFromHex (''0x'' @ NodeID_String i) = Inr i"
proof -
  have "EncodeToString i \<noteq> []" using assms by (auto simp: wf_id_def simp flip: length_0_conv)
  then have "graphic (last (EncodeToString i))" using EncodeToString_graphic last_in_set by blast
  moreover have "graphic (CHR ''0'')" by (simp add: graphic_def)
  ultimately have "TrimSpace (''0x'' @ EncodeToString i) = ''0x'' @ EncodeToString i"
    using \<open>EncodeToString i \<noteq> []\<close> by (intro TrimSpace_graphic) simp
  then show ?thesis using assms
    by (simp add: NodeIDFromHex_def NodeID_String_def TrimPrefix_def wf_id_def
        DecodeString_EncodeToString copy_at_zeroID)
qed

text \<open>
  C37: parsing the printed form of an identifier gives the identifier back, with or without
  the prefix \<open>0x\<close>.
\<close>

theorem NodeID_roundtrip:
  assumes "wf_id i"
  shows "NodeIDFromHex (NodeID_String i) = Inr i \<and> NodeIDFromHex (''0x'' @ NodeID_String i) = Inr i"
proof -
  have "NodeIDFromHex (NodeID_String i) = Inr i" using assms
    by (simp add: NodeIDFromHex_def NodeID_String_def TrimSpace_encoded TrimPrefix_encoded wf_id_def
        DecodeString_EncodeToString copy_at_zeroID)
  then show ?thesis using NodeIDFromHex_prefixed [OF assms] by simp
qed

theorem NodeID_roundtrip_witness:
  "wf_id zeroID \<and> NodeIDFromHex (NodeID_String zeroID) = Inr zeroID"
  using NodeID_roundtrip [OF wf_zeroID] by simp

end
