(* ===== verification/Bucket.thy ===== *)
theory Bucket
  imports NodeId
begin

text \<open>
  The k-bucket (\<open>pkg/dht/bucket.go\<close>): a bounded list of peers, oldest first. Every method
  holds the bucket's mutex from entry to return, so each is one state transformer. A run-time
  panic of the source is the value \<open>None\<close>.
\<close>

record Bucket =
  peers :: "Peer list"
  maxSize :: int

definition NewBucket :: "int \<Rightarrow> Bucket" where
  "NewBucket n = \<lparr>peers = [], maxSize = (if n \<le> 0 then 20 else n)\<rparr>"

fun indexOf_from :: "Peer list \<Rightarrow> NodeID \<Rightarrow> int \<Rightarrow> int" where
  "indexOf_from [] peerID i = -1"
| "indexOf_from (p # ps) peerID i = (if ID p = peerID then i else indexOf_from ps peerID (i + 1))"

definition indexOf :: "Bucket \<Rightarrow> NodeID \<Rightarrow> int" where
  "indexOf b peerID = indexOf_from (peers b) peerID 0"

definition moveToEnd :: "Bucket \<Rightarrow> int \<Rightarrow> Bucket" where
  "moveToEnd b index =
     (if index < 0 \<or> index \<ge> int (length (peers b)) then b
      else let i = nat index; peer = peers b ! i;
               shifted = copy_at (peers b) i (drop (Suc i) (peers b))
           in b\<lparr>peers := shifted[length (peers b) - 1 := peer]\<rparr>)"

definition Bucket_Add :: "Bucket \<Rightarrow> Peer \<Rightarrow> (Bucket \<times> Peer option) option" where
  "Bucket_Add b peer =
     (let index = indexOf b (ID peer) in
      if index \<ge> 0 then
        Some (moveToEnd (b\<lparr>peers := (peers b)[nat index := peer]\<rparr>) index, None)
      else if int (length (peers b)) \<ge> maxSize b then
        (case peers b of
           [] \<Rightarrow> None
         | oldest # rest \<Rightarrow> Some (b\<lparr>peers := rest @ [peer]\<rparr>, Some oldest))
      else Some (b\<lparr>peers := peers b @ [peer]\<rparr>, None))"

definition Bucket_Remove :: "Bucket \<Rightarrow> NodeID \<Rightarrow> Bucket \<times> bool" where
  "Bucket_Remove b peerID =
     (let index = indexOf b peerID in
      if index < 0 then (b, False)
      else let i = nat index in
        (b\<lparr>peers := take (length (peers b) - 1) (copy_at (peers b) i (drop (Suc i) (peers b)))\<rparr>, True))"

definition Bucket_List :: "Bucket \<Rightarrow> Peer list" where
  "Bucket_List b = copy_at (replicate (length (peers b)) \<lparr>ID = zeroID, Addr = '''', LastSeen = 0\<rparr>) 0 (peers b)"

definition Bucket_Len :: "Bucket \<Rightarrow> int" where
  "Bucket_Len b = int (length (peers b))"

lemma Bucket_List_eq [simp]: "Bucket_List b = peers b"
  by (simp add: Bucket_List_def copy_at_def)

subsection \<open>Invariant\<close>

abbreviation ids :: "Peer list \<Rightarrow> NodeID list" where
  "ids ps \<equiv> map ID ps"

definition bucket_ok :: "Bucket \<Rightarrow> bool" where
  "bucket_ok b \<longleftrightarrow> 0 < maxSize b \<and> int (length (peers b)) \<le> maxSize b \<and> distinct (ids (peers b))"

abbreviation without :: "NodeID \<Rightarrow> Peer list \<Rightarrow> Peer list" where
  "without i ps \<equiv> filter (\<lambda>q. ID q \<noteq> i) ps"

lemma bucket_ok_New: "bucket_ok (NewBucket n)"
  by (simp add: bucket_ok_def NewBucket_def)

lemma indexOf_from_cases:
  "(indexOf_from ps i k = -1 \<and> i \<notin> set (ids ps)) \<or>
   (\<exists>j < length ps. indexOf_from ps i k = k + int j \<and> ID (ps ! j) = i)"
proof (induction ps arbitrary: k)
  case Nil
  then show ?case by simp
next
  case (Cons p ps)
  show ?case
  proof (cases "ID p = i")
    case True
    then show ?thesis by auto
  next
    case False
    from Cons.IH [of "k + 1"] show ?thesis
    proof (elim disjE exE conjE)
      fix j assume "j < length ps" "indexOf_from ps i (k + 1) = k + 1 + int j" "ID (ps ! j) = i"
      then show ?thesis using False by (intro disjI2 exI [of _ "Suc j"]) simp
    qed (use False in auto)
  qed
qed

lemma indexOf_absent: "i \<notin> set (ids (peers b)) \<Longrightarrow> indexOf b i = -1"
  using indexOf_from_cases [of "peers b" i 0] by (auto simp: indexOf_def)

lemma indexOf_present:
  assumes "i \<in> set (ids (peers b))"
  obtains j where "j < length (peers b)" and "indexOf b i = int j" and "ID (peers b ! j) = i"
proof -
  have "indexOf_from (peers b) i 0 \<noteq> -1"
  proof -
    have "indexOf_from ps i k \<noteq> -1" if "i \<in> set (ids ps)" "0 \<le> k" for ps k
      using that by (induction ps arbitrary: k) auto
    then show ?thesis using assms by simp
  qed
  then show ?thesis using indexOf_from_cases [of "peers b" i 0] that by (auto simp: indexOf_def)
qed

text \<open>Removing the element at the position of an identifier is filtering it out.\<close>

lemma without_absent: "i \<notin> set (ids ps) \<Longrightarrow> without i ps = ps"
  by (induction ps) auto

lemma without_nth:
  assumes "distinct (ids ps)" and "j < length ps"
  shows "take j ps @ drop (Suc j) ps = without (ID (ps ! j)) ps"
proof -
  obtain xs q ys where ps: "ps = xs @ q # ys" "length xs = j"
    using assms(2) id_take_nth_drop [OF assms(2)] by (metis length_take less_imp_le min.absorb2)
  then have "without (ID q) xs = xs" "without (ID q) ys = ys"
    using assms(1) by (auto intro!: without_absent)
  then show ?thesis using ps by (simp add: nth_append)
qed

lemma length_without:
  "distinct (ids ps) \<Longrightarrow> i \<in> set (ids ps) \<Longrightarrow> Suc (length (without i ps)) = length ps"
proof (induction ps)
  case (Cons p ps)
  show ?case
  proof (cases "ID p = i")
    case True
    then have "without i ps = ps" using Cons.prems by (intro without_absent) auto
    then show ?thesis using True by simp
  next
    case False
    then show ?thesis using Cons by simp
  qed
qed simp

lemma distinct_without: "distinct (ids ps) \<Longrightarrow> distinct (ids (without i ps))"
  by (rule distinct_map_filter)

subsection \<open>The bucket as a bounded least-recently-used list\<close>

text \<open>
  The contract of the bucket, on the bare list of peers: adding a known identifier replaces
  the entry and makes it the most recent one; adding a new one to a full bucket evicts the
  oldest.
\<close>

definition lru_add :: "nat \<Rightarrow> Peer \<Rightarrow> Peer list \<Rightarrow> Peer list \<times> Peer option" where
  "lru_add cap p ps =
     (if ID p \<in> set (ids ps) then (without (ID p) ps @ [p], None)
      else if length ps < cap then (ps @ [p], None)
      else (tl ps @ [p], Some (hd ps)))"

lemma Add_present:
  assumes "distinct (ids (peers b))" and "ID p \<in> set (ids (peers b))"
  shows "Bucket_Add b p = Some (b\<lparr>peers := without (ID p) (peers b) @ [p]\<rparr>, None)"
proof -
  obtain j where j: "j < length (peers b)" "indexOf b (ID p) = int j" "ID (peers b ! j) = ID p"
    using assms(2) by (rule indexOf_present)
  then have "Bucket_Add b p = Some (moveToEnd (b\<lparr>peers := (peers b)[j := p]\<rparr>) (int j), None)"
    by (simp add: Bucket_Add_def)
  also have "moveToEnd (b\<lparr>peers := (peers b)[j := p]\<rparr>) (int j) =
      b\<lparr>peers := take j (peers b) @ drop (Suc j) (peers b) @ [p]\<rparr>"
    using j(1) copy_at_move_end [of j "(peers b)[j := p]" p] by (simp add: moveToEnd_def Let_def)
  finally show ?thesis
    using without_nth [OF assms(1) j(1)] j(3) by simp
qed

lemma Add_absent:
  assumes "0 < maxSize b" and "ID p \<notin> set (ids (peers b))"
  shows "Bucket_Add b p =
    (if int (length (peers b)) < maxSize b then Some (b\<lparr>peers := peers b @ [p]\<rparr>, None)
     else Some (b\<lparr>peers := tl (peers b) @ [p]\<rparr>, Some (hd (peers b))))"
proof -
  have "indexOf b (ID p) = -1" using assms(2) by (rule indexOf_absent)
  then show ?thesis using assms(1) by (cases "peers b") (simp_all add: Bucket_Add_def)
qed

lemma Add_lru:
  assumes "bucket_ok b"
  shows "Bucket_Add b p =
    Some (b\<lparr>peers := fst (lru_add (nat (maxSize b)) p (peers b))\<rparr>,
      snd (lru_add (nat (maxSize b)) p (peers b)))"
proof (cases "ID p \<in> set (ids (peers b))")
  case True
  then show ?thesis using assms by (simp add: Add_present bucket_ok_def lru_add_def)
next
  case False
  then show ?thesis using assms by (auto simp: Add_absent bucket_ok_def lru_add_def)
qed

text \<open>
  C16: on every bucket that satisfies the invariant, \<open>Add\<close> does not panic and implements the
  least-recently-used contract: the entry list and the returned eviction are those of the
  specification, and the size limit is not changed.
\<close>

theorem Add_refines_lru:
  assumes "bucket_ok b"
  shows "Bucket_Add b p =
    Some (b\<lparr>peers := fst (lru_add (nat (maxSize b)) p (peers b))\<rparr>,
      snd (lru_add (nat (maxSize b)) p (peers b)))"
  using assms by (rule Add_lru)

theorem Add_refines_lru_witness:
  "bucket_ok (NewBucket 3) \<and>
   Bucket_Add (NewBucket 3) \<lparr>ID = zeroID, Addr = ''a'', LastSeen = 1\<rparr> =
     Some (\<lparr>peers = [\<lparr>ID = zeroID, Addr = ''a'', LastSeen = 1\<rparr>], maxSize = 3\<rparr>, None)"
  using bucket_ok_New [of 3]
    Add_refines_lru [OF bucket_ok_New [of 3], of "\<lparr>ID = zeroID, Addr = ''a'', LastSeen = 1\<rparr>"]
  by (simp add: NewBucket_def lru_add_def)

lemma lru_add_ok:
  assumes "distinct (ids ps)" and "length ps \<le> cap" and "0 < cap"
  shows "distinct (ids (fst (lru_add cap p ps))) \<and> length (fst (lru_add cap p ps)) \<le> cap"
proof (cases "ID p \<in> set (ids ps)")
  case True
  then have "Suc (length (without (ID p) ps)) = length ps"
    using assms(1) by (rule length_without [rotated])
  then show ?thesis using True assms distinct_without [OF assms(1)]
    by (auto simp: lru_add_def)
next
  case False
  have "ID p \<notin> set (ids (tl ps))" "distinct (ids (tl ps))"
    using False assms(1) by (cases ps; simp)+
  then show ?thesis using False assms by (auto simp: lru_add_def)
qed

lemma set_lru_add: "set (fst (lru_add cap p ps)) \<subseteq> insert p (set (without (ID p) ps))"
proof (cases "ID p \<in> set (ids ps)")
  case False
  then have "without (ID p) ps = ps" by (rule without_absent)
  then show ?thesis using False by (cases ps) (auto simp: lru_add_def)
qed (simp add: lru_add_def)

lemma Add_ok:
  assumes "bucket_ok b" and "Bucket_Add b p = Some (b', ev)"
  shows "bucket_ok b'"
proof -
  have "b' = b\<lparr>peers := fst (lru_add (nat (maxSize b)) p (peers b))\<rparr>"
    using assms Add_lru [of b p] by simp
  moreover have "length (peers b) \<le> nat (maxSize b)" "0 < nat (maxSize b)"
    using assms(1) by (auto simp: bucket_ok_def)
  ultimately show ?thesis
    using assms(1) lru_add_ok [of "peers b" "nat (maxSize b)" p] by (auto simp: bucket_ok_def)
qed

lemma Add_contents:
  assumes "bucket_ok b" and "Bucket_Add b p = Some (b', ev)"
  shows "p \<in> set (peers b')" and "set (peers b') \<subseteq> insert p (set (without (ID p) (peers b)))"
  using assms set_lru_add [of "nat (maxSize b)" p "peers b"]
  by (auto simp: Add_lru lru_add_def)

lemma Add_total: "bucket_ok b \<Longrightarrow> \<exists>b' ev. Bucket_Add b p = Some (b', ev)"
  by (simp add: Add_lru)

lemma Remove_eq:
  assumes "distinct (ids (peers b))"
  shows "Bucket_Remove b i = (b\<lparr>peers := without i (peers b)\<rparr>, i \<in> set (ids (peers b)))"
proof (cases "i \<in> set (ids (peers b))")
  case True
  then obtain j where "j < length (peers b)" "indexOf b i = int j" "ID (peers b ! j) = i"
    by (rule indexOf_present)
  then show ?thesis
    using True assms without_nth [of "peers b" j] by (simp add: Bucket_Remove_def copy_at_remove)
next
  case False
  then show ?thesis by (simp add: Bucket_Remove_def indexOf_absent without_absent)
qed

lemma Remove_ok: "bucket_ok b \<Longrightarrow> bucket_ok (fst (Bucket_Remove b i))"
proof -
  assume ok: "bucket_ok b"
  have "length (without i (peers b)) \<le> length (peers b)" by simp
  then have "int (length (without i (peers b))) \<le> maxSize b" using ok unfolding bucket_ok_def by linarith
  then show ?thesis using ok by (simp add: bucket_ok_def Remove_eq distinct_without)
qed

text \<open>
  \<open>Remove\<close> reports whether the identifier was present and removes exactly its entry, and
  the order of the others, which is their recency, is kept; a second removal finds nothing.
\<close>

lemma Remove_removes:
  assumes "bucket_ok b"
  shows "Bucket_Remove b i = (b\<lparr>peers := without i (peers b)\<rparr>, i \<in> set (ids (peers b))) \<and>
    snd (Bucket_Remove (fst (Bucket_Remove b i)) i) = False"
proof -
  have d: "distinct (ids (peers b))" using assms by (simp add: bucket_ok_def)
  then have "distinct (ids (peers (b\<lparr>peers := without i (peers b)\<rparr>)))" by (simp add: distinct_without)
  from Remove_eq [OF this, of i] show ?thesis by (auto simp: Remove_eq [OF d])
qed

subsection \<open>What a sequence of additions leaves\<close>

text \<open>The distinct peers of a sequence in the order of their last occurrence.\<close>

fun recency :: "Peer list \<Rightarrow> Peer list \<Rightarrow> Peer list" where
  "recency acc [] = acc"
| "recency acc (p # ps) = recency (without (ID p) acc @ [p]) ps"

fun Add_all :: "Bucket \<Rightarrow> Peer list \<Rightarrow> Bucket option" where
  "Add_all b [] = Some b"
| "Add_all b (p # ps) =
     (case Bucket_Add b p of None \<Rightarrow> None | Some (b', _) \<Rightarrow> Add_all b' ps)"

definition lastn :: "nat \<Rightarrow> 'a list \<Rightarrow> 'a list" where
  "lastn n xs = drop (length xs - n) xs"

lemma lastn_snoc: "lastn (Suc n) (xs @ [x]) = lastn n xs @ [x]"
  by (simp add: lastn_def)

lemma lastn_all: "length xs \<le> n \<Longrightarrow> lastn n xs = xs"
  by (simp add: lastn_def)

lemma lastn_append: "length ys = n \<Longrightarrow> lastn n (xs @ ys) = ys"
  by (simp add: lastn_def)

lemma lastn_split: "n \<le> length xs \<Longrightarrow> \<exists>us. xs = us @ lastn n xs \<and> length (lastn n xs) = n"
  by (rule exI [of _ "take (length xs - n) xs"]) (simp add: lastn_def)

lemma lru_step_recency:
  assumes "distinct (ids r)" and "0 < cap"
  shows "fst (lru_add cap p (lastn cap r)) = lastn cap (without (ID p) r @ [p])"
proof -
  obtain c where c: "cap = Suc c" using assms(2) by (cases cap) auto
  have R: "lastn cap (without (ID p) r @ [p]) = lastn c (without (ID p) r) @ [p]"
    by (simp add: c lastn_snoc)
  show ?thesis
  proof (cases "length r < cap")
    case True
    then have r: "lastn cap r = r" by (intro lastn_all) simp
    have "length (without (ID p) r) \<le> c" using True length_filter_le [of _ r] c
      by (meson less_Suc_eq_le order_trans)
    then show ?thesis using True R r without_absent [of "ID p" r]
      by (auto simp: lru_add_def lastn_all)
  next
    case False
    obtain us vs where r: "r = us @ vs" "lastn cap r = vs" "length vs = cap"
      using lastn_split [of cap r] False by auto
    show ?thesis
    proof (cases "ID p \<in> set (ids vs)")
      case True
      then have "without (ID p) us = us" using assms(1) r by (intro without_absent) auto
      moreover have "length (without (ID p) vs) = c"
        using length_without [of vs "ID p"] True assms(1) r c by simp
      ultimately show ?thesis using True r R by (simp add: lru_add_def lastn_append)
    next
      case absent: False
      obtain v vs' where vs: "vs = v # vs'" "length vs' = c" using r(3) c by (cases vs) auto
      have "without (ID p) r = without (ID p) (us @ [v]) @ vs'"
        using absent r vs without_absent [of "ID p" vs'] by simp
      then have "lastn c (without (ID p) r) = vs'" using vs(2) by (simp only: lastn_append)
      then show ?thesis using absent r R vs by (simp add: lru_add_def)
    qed
  qed
qed

lemma Add_all_recency:
  assumes "distinct (ids r)" and "0 < cap"
  shows "Add_all \<lparr>peers = lastn cap r, maxSize = int cap\<rparr> ps =
    Some \<lparr>peers = lastn cap (recency r ps), maxSize = int cap\<rparr>"
  using assms
proof (induction ps arbitrary: r)
  case Nil
  then show ?case by simp
next
  case (Cons p ps)
  let ?b = "\<lparr>peers = lastn cap r, maxSize = int cap\<rparr>"
  have "distinct (ids (lastn cap r))" using Cons.prems(1)
    by (simp add: lastn_def flip: drop_map)
  then have ok: "bucket_ok ?b" using Cons.prems(2) by (simp add: bucket_ok_def lastn_def)
  have d: "distinct (ids (without (ID p) r @ [p]))" using distinct_without [OF Cons.prems(1)] by auto
  have "Bucket_Add ?b p =
      Some (\<lparr>peers = lastn cap (without (ID p) r @ [p]), maxSize = int cap\<rparr>, snd (lru_add cap p (lastn cap r)))"
    using Add_lru [OF ok, of p] lru_step_recency [OF Cons.prems, of p] by simp
  then show ?case using Cons.IH [OF d Cons.prems(2)] by simp
qed

text \<open>
  C28: a bucket filled by any sequence of additions holds exactly the \<open>maxSize\<close> most recently
  added peers (one entry per identifier, the latest data), oldest first; no addition panics.
\<close>

theorem bucket_keeps_most_recent:
  "Add_all (NewBucket n) ps =
    Some \<lparr>peers = lastn (nat (maxSize (NewBucket n))) (recency [] ps), maxSize = maxSize (NewBucket n)\<rparr>"
proof -
  let ?m = "maxSize (NewBucket n)"
  have "NewBucket n = \<lparr>peers = lastn (nat ?m) [], maxSize = int (nat ?m)\<rparr>" and "0 < nat ?m"
    by (auto simp: NewBucket_def lastn_def)
  then show ?thesis using Add_all_recency [of "[]" "nat ?m" ps] by (auto simp: NewBucket_def)
qed

subsection \<open>The interface of a bucket\<close>

text \<open>
  What the routing table relies on: adding a peer never fails, keeps the invariant, stores the
  peer and brings in no other; removing an identifier removes exactly its entry; the entries
  of a bucket have distinct identifiers and their number is bounded.
\<close>

locale peer_bucket =
  fixes new :: "int \<Rightarrow> 'b"
    and add :: "'b \<Rightarrow> Peer \<Rightarrow> ('b \<times> Peer option) option"
    and remove :: "'b \<Rightarrow> NodeID \<Rightarrow> 'b \<times> bool"
    and contents :: "'b \<Rightarrow> Peer list"
    and ok :: "'b \<Rightarrow> bool"
  assumes ok_new: "ok (new n)"
    and contents_new: "contents (new n) = []"
    and add_total: "ok b \<Longrightarrow> \<exists>b' ev. add b p = Some (b', ev)"
    and ok_add: "ok b \<Longrightarrow> add b p = Some (b', ev) \<Longrightarrow> ok b'"
    and add_stores: "ok b \<Longrightarrow> add b p = Some (b', ev) \<Longrightarrow> p \<in> set (contents b')"
    and add_only: "ok b \<Longrightarrow> add b p = Some (b', ev) \<Longrightarrow>
      set (contents b') \<subseteq> insert p (set (without (ID p) (contents b)))"
    and ok_remove: "ok b \<Longrightarrow> ok (fst (remove b i))"
    and remove_exact: "ok b \<Longrightarrow> contents (fst (remove b i)) = without i (contents b)"
    and remove_reports: "ok b \<Longrightarrow> snd (remove b i) \<longleftrightarrow> i \<in> set (ids (contents b))"
    and distinct_contents: "ok b \<Longrightarrow> distinct (ids (contents b))"
begin

text \<open>
  An array of buckets in which \<open>place\<close> says where an identifier belongs: a property of the
  stored peers survives an addition to, and a removal from, the right bucket.
\<close>

lemma placed_add:
  assumes "\<forall>j < length bs. ok (bs ! j) \<and> (\<forall>q \<in> set (contents (bs ! j)). place (ID q) = j \<and> P q)"
    and "place (ID p) < length bs" and "P p"
    and "add (bs ! place (ID p)) p = Some (b', ev)"
  shows "\<forall>j < length bs. ok (bs[place (ID p) := b'] ! j) \<and>
    (\<forall>q \<in> set (contents (bs[place (ID p) := b'] ! j)). place (ID q) = j \<and> P q)"
proof (intro allI impI)
  fix j assume "j < length bs"
  let ?k = "place (ID p)"
  have k: "ok (bs ! ?k)" using assms(1,2) by blast
  have "\<forall>q \<in> set (contents b'). place (ID q) = ?k \<and> P q"
    using add_only [OF k assms(4)] assms(1,2,3) by fastforce
  then show "ok (bs[?k := b'] ! j) \<and> (\<forall>q \<in> set (contents (bs[?k := b'] ! j)). place (ID q) = j \<and> P q)"
    using \<open>j < length bs\<close> assms(1) ok_add [OF k assms(4)] by (cases "j = ?k") auto
qed

lemma placed_remove:
  assumes "\<forall>j < length bs. ok (bs ! j) \<and> (\<forall>q \<in> set (contents (bs ! j)). place (ID q) = j \<and> P q)"
    and "k < length bs"
  shows "\<forall>j < length bs. ok (bs[k := fst (remove (bs ! k) i)] ! j) \<and>
    (\<forall>q \<in> set (contents (bs[k := fst (remove (bs ! k) i)] ! j)). place (ID q) = j \<and> P q)"
proof (intro allI impI)
  fix j assume "j < length bs"
  have k: "ok (bs ! k)" using assms by blast
  show "ok (bs[k := fst (remove (bs ! k) i)] ! j) \<and>
      (\<forall>q \<in> set (contents (bs[k := fst (remove (bs ! k) i)] ! j)). place (ID q) = j \<and> P q)"
    using \<open>j < length bs\<close> assms ok_remove [OF k] remove_exact [OF k]
    by (cases "j = k") auto
qed

text \<open>No identifier is stored twice in the whole array.\<close>

lemma distinct_placed:
  assumes "\<forall>j < length bs. ok (bs ! j) \<and> (\<forall>q \<in> set (contents (bs ! j)). place (ID q) = n + j)"
  shows "distinct (ids (concat (map contents bs)))"
  using assms
proof (induction bs arbitrary: n)
  case Nil
  then show ?case by simp
next
  case (Cons b bs)
  have tail: "ok (bs ! j) \<and> (\<forall>q \<in> set (contents (bs ! j)). place (ID q) = Suc n + j)"
    if "j < length bs" for j
    using Cons.prems that by (auto dest!: spec [of _ "Suc j"])
  have head: "ok b" "\<forall>q \<in> set (contents b). place (ID q) = n"
    using Cons.prems by (auto dest!: spec [of _ 0])
  have "place (ID q) \<noteq> n" if q: "q \<in> set (concat (map contents bs))" for q
  proof -
    obtain c where "c \<in> set bs" "q \<in> set (contents c)" using q by auto
    then obtain j where "j < length bs" "q \<in> set (contents (bs ! j))" by (auto simp: in_set_conv_nth [of c])
    then have "place (ID q) = Suc n + j" using tail by blast
    then show ?thesis by simp
  qed
  then have "ID q \<noteq> ID r" if "q \<in> set (contents b)" "r \<in> set (concat (map contents bs))" for q r
    using head(2) that by metis
  then have "set (ids (contents b)) \<inter> set (ids (concat (map contents bs))) = {}"
    unfolding set_map by blast
  moreover have "distinct (ids (concat (map contents bs)))"
    using Cons.IH [of "Suc n"] tail by blast
  ultimately show ?case
    using distinct_contents [OF head(1)] by (simp only: list.map concat.simps map_append distinct_append)
qed

end

interpretation kbucket: peer_bucket NewBucket Bucket_Add Bucket_Remove Bucket_List bucket_ok
proof
  fix b p b' ev i n
  show "bucket_ok (NewBucket n)" by (rule bucket_ok_New)
  show "Bucket_List (NewBucket n) = []" by (simp add: NewBucket_def)
  assume ok: "bucket_ok b"
  then show "\<exists>b' ev. Bucket_Add b p = Some (b', ev)" by (rule Add_total)
  show "bucket_ok (fst (Bucket_Remove b i))" using ok by (rule Remove_ok)
  show "Bucket_List (fst (Bucket_Remove b i)) = without i (Bucket_List b)"
    and "snd (Bucket_Remove b i) \<longleftrightarrow> i \<in> set (ids (Bucket_List b))"
    using ok by (simp_all add: Remove_eq bucket_ok_def)
  show "distinct (ids (Bucket_List b))" using ok by (simp add: bucket_ok_def)
  assume "Bucket_Add b p = Some (b', ev)"
  with ok show "bucket_ok b'" and "p \<in> set (Bucket_List b')"
    and "set (Bucket_List b') \<subseteq> insert p (set (without (ID p) (Bucket_List b)))"
    using Add_ok Add_contents by auto
qed

end
