(* ===== verification/Routing.thy ===== *)
theory Routing
  imports Bucket
begin

text \<open>
  The XOR metric and the routing table (\<open>pkg/dht/routing.go\<close>). The table is 160 buckets; the
  bucket of a peer is found from the highest bit in which its identifier differs from the
  local one. \<open>big.Int\<close> distances are natural numbers. The clock reading of \<open>AddPeer\<close> is an
  argument.
\<close>

subsection \<open>The metric\<close>

definition xorDistance :: "NodeID \<Rightarrow> NodeID \<Rightarrow> nat" where
  "xorDistance a b = be_nat (map2 (XOR) a b)"

definition LeadingZeros8 :: "byte \<Rightarrow> nat" where
  "LeadingZeros8 x = length (takeWhile Not (map (bit x) [7, 6, 5, 4, 3, 2, 1, 0]))"

fun bucketIndex_from :: "byte list \<Rightarrow> byte list \<Rightarrow> nat \<Rightarrow> nat" where
  "bucketIndex_from (x # xs) (y # ys) i =
     (let xorByte = x XOR y in
      if xorByte = 0 then bucketIndex_from xs ys (i + 1)
      else let bitPos = 7 - LeadingZeros8 xorByte in i * 8 + bitPos)"
| "bucketIndex_from _ _ i = NodeIDLength * 8 - 1"

definition bucketIndex :: "NodeID \<Rightarrow> NodeID \<Rightarrow> nat" where
  "bucketIndex localID peerID = bucketIndex_from localID peerID 0"

lemma xor_eq_0_iff: "x XOR y = 0 \<longleftrightarrow> x = (y :: byte)"
  by (auto simp: bit_eq_iff bit_simps)

lemma xorDistance_sym: "xorDistance a b = xorDistance b a"
proof -
  have "map2 (XOR) a b = map2 (XOR) b a"
    by (induction a b rule: list_induct2') (simp_all add: xor.commute)
  then show ?thesis by (simp add: xorDistance_def)
qed

lemma xorDistance_self: "xorDistance a a = 0"
proof -
  have "be_nat (map2 (XOR) a a) = 0" by (induction a) simp_all
  then show ?thesis by (simp add: xorDistance_def)
qed

lemma xor_left_cancel: "x XOR y = x XOR z \<longleftrightarrow> y = (z :: byte)"
  by (auto simp: bit_eq_iff bit_simps)

lemma map2_xor_inj:
  assumes "length a = length t" and "length b = length t" and "map2 (XOR) t a = map2 (XOR) t b"
  shows "a = (b :: byte list)"
proof (rule nth_equalityI)
  fix i assume "i < length a"
  then have "map2 (XOR) t a ! i = t ! i XOR a ! i" "map2 (XOR) t b ! i = t ! i XOR b ! i"
    using assms(1,2) by simp_all
  then show "a ! i = b ! i" using assms(3) by (simp add: xor_left_cancel)
qed (use assms in simp)

lemma xorDistance_inj:
  assumes "length a = length t" and "length b = length t" and "xorDistance t a = xorDistance t b"
  shows "a = b"
proof -
  have "map2 (XOR) t a = map2 (XOR) t b"
    by (rule be_nat_inj) (use assms in \<open>simp_all add: xorDistance_def\<close>)
  with assms(1,2) show ?thesis by (rule map2_xor_inj)
qed

lemma xor_nat_le: "m XOR n \<le> m + (n :: nat)"
proof (induction m arbitrary: n rule: less_induct)
  case (less m)
  show ?case
  proof (cases "m = 0")
    case False
    then have "(m div 2) XOR (n div 2) \<le> m div 2 + n div 2" by (intro less) simp
    moreover have "m XOR n \<le> m mod 2 + n mod 2 + 2 * ((m div 2) XOR (n div 2))"
      unfolding xor_nat_unfold [of m n] using False by (cases "n = 0") (simp_all add: mod_less_eq_dividend)
    moreover have "m = m mod 2 + 2 * (m div 2)" "n = n mod 2 + 2 * (n div 2)" by simp_all
    ultimately show ?thesis by linarith
  qed simp
qed

lemma unat_xor_le: "unat (x XOR y :: byte) \<le> unat x + unat y"
proof -
  have "unat (x XOR y) = unat x XOR unat y" by (simp add: unsigned_xor_eq)
  then show ?thesis using xor_nat_le [of "unat x" "unat y"] by simp
qed

lemma be_nat_xor_le:
  "length a = length b \<Longrightarrow> be_nat (map2 (XOR) a b) \<le> be_nat a + be_nat b"
proof (induction a b rule: list_induct2)
  case (Cons x xs y ys)
  have "unat (x XOR y) * 256 ^ length ys \<le> unat x * 256 ^ length ys + unat y * 256 ^ length ys"
    using mult_le_mono1 [OF unat_xor_le [of x y], of "256 ^ length ys"] by (simp add: algebra_simps)
  then show ?case using Cons by simp
qed simp

lemma xor_cancel: "(x XOR y) XOR (y XOR z) = x XOR (z :: byte)"
  by (rule bit_word_eqI) (auto simp: bit_simps)

lemma xorDistance_triangle:
  assumes "length a = length b" and "length c = length b"
  shows "xorDistance a c \<le> xorDistance a b + xorDistance b c"
proof -
  have "map2 (XOR) a c = map2 (XOR) (map2 (XOR) a b) (map2 (XOR) b c)"
    by (rule nth_equalityI) (use assms in \<open>simp_all add: xor_cancel\<close>)
  then show ?thesis using assms be_nat_xor_le [of "map2 (XOR) a b" "map2 (XOR) b c"]
    by (simp add: xorDistance_def)
qed

lemma bits8_nth: "i < 8 \<Longrightarrow> [7, 6, 5, 4, 3, 2, 1, 0 :: nat] ! i = 7 - i"
  by (auto simp: less_Suc_eq numeral_eq_Suc)

lemma LeadingZeros8_props:
  assumes "x \<noteq> 0"
  shows "LeadingZeros8 x < 8" and "bit x (7 - LeadingZeros8 x)"
    and "\<And>j. 7 - LeadingZeros8 x < j \<Longrightarrow> \<not> bit x j"
proof -
  let ?l = "[7, 6, 5, 4, 3, 2, 1, 0 :: nat]"
  let ?z = "LeadingZeros8 x"
  have z: "?z = length (takeWhile Not (map (bit x) ?l))" by (simp only: LeadingZeros8_def)
  have len: "length (map (bit x) ?l) = 8" by simp
  have clear: "\<not> bit x (7 - i)" if "i < ?z" for i
  proof -
    have "i < 8" using that z len length_takeWhile_le [of Not "map (bit x) ?l"] by linarith
    have "takeWhile Not (map (bit x) ?l) ! i = map (bit x) ?l ! i"
      using that z by (intro takeWhile_nth) simp
    moreover have "Not (takeWhile Not (map (bit x) ?l) ! i)"
      using that z by (metis nth_mem set_takeWhileD)
    moreover have "map (bit x) ?l ! i = bit x (7 - i)"
      using \<open>i < 8\<close> bits8_nth [OF \<open>i < 8\<close>] by (subst nth_map) simp_all
    ultimately show ?thesis by simp
  qed
  show lt: "?z < 8"
  proof (rule ccontr)
    assume "\<not> ?thesis"
    then have "\<not> bit x j" if "j < 8" for j using clear [of "7 - j"] that by simp
    then have "x = 0" by (auto intro!: bit_word_eqI)
    with assms show False by simp
  qed
  then have "map (bit x) ?l ! ?z = bit x (7 - ?z)" using bits8_nth [OF lt] by (subst nth_map) simp_all
  moreover have "\<not> Not (map (bit x) ?l ! ?z)"
    unfolding z by (rule nth_length_takeWhile) (use lt z len in simp)
  ultimately show "bit x (7 - ?z)" by simp
  show "\<not> bit x j" if "7 - ?z < j" for j
  proof (cases "j < 8")
    case True
    then show ?thesis using clear [of "7 - j"] that lt by simp
  next
    case False
    then show ?thesis using bit_imp_le_length [of x j] by auto
  qed
qed

lemma byte_high_bit:
  assumes "bit (x :: byte) k" and "\<And>j. k < j \<Longrightarrow> \<not> bit x j"
  shows "2 ^ k \<le> unat x" and "unat x < 2 ^ Suc k"
proof -
  have bits: "bit (unat x) j = bit x j" for j by (simp add: bit_unsigned_iff)
  have "odd (unat x div 2 ^ k)" using assms(1) bits [of k] by (simp add: bit_iff_odd)
  then have "unat x div 2 ^ k \<noteq> 0" by (metis even_zero)
  then show "2 ^ k \<le> unat x" by (simp add: div_eq_0_iff)
  have "take_bit (Suc k) (unat x) = unat x"
    by (rule bit_eqI) (metis assms(2) bit_take_bit_iff bits less_Suc_eq_le not_le)
  then show "unat x < 2 ^ Suc k" by (simp only: take_bit_nat_eq_self_iff)
qed

lemma highest_bit_bounds:
  assumes "x \<noteq> 0"
  shows "2 ^ (7 - LeadingZeros8 x) \<le> unat x" and "unat x < 2 ^ Suc (7 - LeadingZeros8 x)"
  using byte_high_bit [OF LeadingZeros8_props(2,3) [OF assms]] by blast+

text \<open>
  The exponent of the distances that a bucket holds. Bytes are numbered from the most
  significant one, bits within a byte from the least significant one.
\<close>

definition bucketExp :: "nat \<Rightarrow> nat" where
  "bucketExp i = 8 * (NodeIDLength - 1 - i div 8) + i mod 8"

lemma bucketExp_digits:
  assumes "a \<le> 19" and "b \<le> 19" and "m < 8" and "n < 8" and "8 * (19 - a) + m = 8 * (19 - b) + (n :: nat)"
  shows "a = b \<and> m = n"
proof -
  have "(8 * c + r) div 8 = c" "(8 * c + r) mod 8 = r" if "r < 8" for c r :: nat
    using that by simp_all
  then have "19 - a = 19 - b" "m = n" using assms by metis+
  then show ?thesis using assms(1,2) by linarith
qed

lemma bucketExp_inj:
  assumes "i < 160" and "j < 160" and "bucketExp i = bucketExp j"
  shows "i = j"
proof -
  have "i div 8 \<le> 19" "j div 8 \<le> 19" using assms(1,2) by linarith+
  then have "i div 8 = j div 8 \<and> i mod 8 = j mod 8"
    by (rule bucketExp_digits) (use assms(3) in \<open>simp_all add: bucketExp_def NodeIDLength_def\<close>)
  then show ?thesis by (metis div_mult_mod_eq)
qed

lemma be_nat_lead_bounds:
  assumes "2 ^ k \<le> unat x" and "unat x < 2 ^ Suc k"
  shows "2 ^ (8 * length bs + k) \<le> be_nat (x # bs)" and "be_nat (x # bs) < 2 ^ Suc (8 * length bs + k)"
proof -
  let ?B = "256 ^ length bs :: nat"
  have B: "?B = 2 ^ (8 * length bs)" by (simp add: power_mult)
  have "2 ^ k * ?B \<le> unat x * ?B" using assms(1) by simp
  then have "2 ^ k * ?B \<le> be_nat (x # bs)" unfolding be_nat_Cons by linarith
  then show "2 ^ (8 * length bs + k) \<le> be_nat (x # bs)" by (simp only: B power_add mult.commute)
  have "Suc (unat x) * ?B \<le> 2 ^ Suc k * ?B" using assms(2) by (intro mult_le_mono1) simp
  then have "unat x * ?B + be_nat bs < 2 ^ Suc k * ?B" using be_nat_less [of bs] by simp
  then show "be_nat (x # bs) < 2 ^ Suc (8 * length bs + k)"
    by (simp add: B power_add algebra_simps)
qed

lemma bucketIndex_from_bounds:
  assumes "length xs = length ys" and "xs \<noteq> ys" and "i + length xs = NodeIDLength"
  shows "bucketIndex_from xs ys i < 160 \<and>
    2 ^ bucketExp (bucketIndex_from xs ys i) \<le> be_nat (map2 (XOR) xs ys) \<and>
    be_nat (map2 (XOR) xs ys) < 2 ^ Suc (bucketExp (bucketIndex_from xs ys i))"
  using assms
proof (induction xs ys arbitrary: i rule: list_induct2)
  case (Cons x xs y ys)
  show ?case
  proof (cases "x XOR y = 0")
    case True
    then show ?thesis using Cons by (simp add: xor_eq_0_iff)
  next
    case False
    let ?b = "7 - LeadingZeros8 (x XOR y)"
    have idx: "bucketIndex_from (x # xs) (y # ys) i = i * 8 + ?b" using False by simp
    have "?b < 8" "(i * 8 + ?b) div 8 = i" "(i * 8 + ?b) mod 8 = ?b" by simp_all
    then have e: "bucketExp (i * 8 + ?b) = 8 * length (map2 (XOR) xs ys) + ?b"
      using Cons.prems Cons.hyps by (simp add: bucketExp_def)
    have "i * 8 + ?b < 160" using Cons.prems by (simp add: NodeIDLength_def)
    then show ?thesis
      using be_nat_lead_bounds [OF highest_bit_bounds [OF False], of "map2 (XOR) xs ys"]
      unfolding idx e by simp
  qed
qed simp

lemma bucketIndex_bounds:
  assumes "wf_id a" and "wf_id b" and "a \<noteq> b"
  shows "bucketIndex a b < 160" and "2 ^ bucketExp (bucketIndex a b) \<le> xorDistance a b"
    and "xorDistance a b < 2 ^ Suc (bucketExp (bucketIndex a b))"
  using bucketIndex_from_bounds [of a b 0] assms
  by (simp_all add: bucketIndex_def xorDistance_def wf_id_def)

text \<open>
  C32: the XOR distance is a metric on identifiers, and no two identifiers are equally far from
  a third.
\<close>

theorem xor_metric:
  assumes "wf_id a" and "wf_id b" and "wf_id c"
  shows "(xorDistance a b = 0 \<longleftrightarrow> a = b) \<and> xorDistance a b = xorDistance b a \<and>
    xorDistance a c \<le> xorDistance a b + xorDistance b c \<and>
    (xorDistance a b = xorDistance a c \<longleftrightarrow> b = c)"
proof -
  have "xorDistance a b = 0 \<Longrightarrow> a = b"
    using xorDistance_inj [of b a a] xorDistance_self [of a] assms by (simp add: wf_id_def)
  moreover have "xorDistance a b = xorDistance a c \<Longrightarrow> b = c"
    using xorDistance_inj [of b a c] assms by (simp add: wf_id_def)
  moreover have "xorDistance a c \<le> xorDistance a b + xorDistance b c"
    using assms by (intro xorDistance_triangle) (simp_all add: wf_id_def)
  ultimately show ?thesis
    using xorDistance_self [of a] xorDistance_sym [of a b] by blast
qed

theorem xor_metric_witness:
  "wf_id zeroID \<and> xorDistance zeroID (KeyToID ''a'') = xorDistance (KeyToID ''a'') zeroID"
  using xor_metric [OF wf_zeroID wf_KeyToID wf_zeroID] wf_zeroID by blast

text \<open>
  C33: every peer other than the local node has a bucket among the 160, and a bucket holds
  exactly the peers of one power-of-two distance range: two peers share a bucket if and only
  if the highest bits of their distances agree.
\<close>

theorem bucketIndex_range:
  assumes "wf_id l" and "wf_id p" and "wf_id q" and "p \<noteq> l" and "q \<noteq> l"
  shows "bucketIndex l p < NodeIDLength * 8 \<and>
    (bucketIndex l p = bucketIndex l q \<longleftrightarrow>
      (\<exists>e. 2 ^ e \<le> xorDistance l p \<and> xorDistance l p < 2 ^ Suc e \<and>
           2 ^ e \<le> xorDistance l q \<and> xorDistance l q < 2 ^ Suc e))"
proof -
  note P = bucketIndex_bounds [OF assms(1,2) assms(4) [symmetric]]
  note Q = bucketIndex_bounds [OF assms(1,3) assms(5) [symmetric]]
  have unique: "e = f" if "2 ^ e \<le> d" "d < 2 ^ Suc e" "2 ^ f \<le> d" "d < 2 ^ Suc f" for e f d :: nat
  proof -
    have "(2 :: nat) ^ e < 2 ^ Suc f" "(2 :: nat) ^ f < 2 ^ Suc e" using that by linarith+
    then have "e < Suc f" "f < Suc e" using power_less_imp_less_exp [of 2] by (simp_all del: power_Suc)
    then show ?thesis by simp
  qed
  have "bucketIndex l p = bucketIndex l q"
    if "2 ^ e \<le> xorDistance l p" "xorDistance l p < 2 ^ Suc e"
      "2 ^ e \<le> xorDistance l q" "xorDistance l q < 2 ^ Suc e" for e
    by (rule bucketExp_inj [OF P(1) Q(1)])
      (use unique [OF P(2,3) that(1,2)] unique [OF Q(2,3) that(3,4)] in simp)
  moreover have "bucketIndex l p < NodeIDLength * 8" using P(1) by (simp add: NodeIDLength_def)
  ultimately show ?thesis using P(2,3) Q(2,3) by metis
qed

theorem bucketIndex_range_witness:
  "bucketIndex zeroID (20 # replicate 19 0) = bucketIndex zeroID (16 # replicate 19 0) \<and>
   (\<exists>e. 2 ^ e \<le> xorDistance zeroID (20 # replicate 19 0) \<and>
        xorDistance zeroID (20 # replicate 19 0) < 2 ^ Suc e \<and>
        2 ^ e \<le> xorDistance zeroID (16 # replicate 19 0) \<and>
        xorDistance zeroID (16 # replicate 19 0) < 2 ^ Suc e)"
proof -
  let ?p = "20 # replicate 19 0 :: byte list" and ?q = "16 # replicate 19 0 :: byte list"
  have z: "zeroID = 0 # replicate 19 0"
    by (simp add: zeroID_def NodeIDLength_def flip: replicate_Suc)
  have wf: "wf_id ?p" "wf_id ?q" by (simp_all add: wf_id_def NodeIDLength_def)
  have ne: "?p \<noteq> zeroID" "?q \<noteq> zeroID" unfolding z by simp_all
  have idx: "bucketIndex zeroID ?p = bucketIndex zeroID ?q" by code_simp
  then show ?thesis using bucketIndex_range [OF wf_zeroID wf ne] by simp
qed

subsection \<open>Ordering peers by distance\<close>

text \<open>
  What the selection of the closest peers needs of a distance: no two identifiers at the same
  distance from a target.
\<close>

locale id_metric =
  fixes dist :: "NodeID \<Rightarrow> NodeID \<Rightarrow> nat"
  assumes dist_inj: "wf_id t \<Longrightarrow> wf_id a \<Longrightarrow> wf_id b \<Longrightarrow> dist t a = dist t b \<Longrightarrow> a = b"
begin

lemma inj_on_dist:
  assumes "wf_id t" and "\<forall>p \<in> set ps. wf_id (ID p)" and "distinct (ids ps)"
  shows "inj_on (\<lambda>p. dist t (ID p)) (set ps)"
proof (rule inj_onI)
  fix p q assume pq: "p \<in> set ps" "q \<in> set ps" "dist t (ID p) = dist t (ID q)"
  then have "ID p = ID q" using dist_inj assms(1,2) by blast
  then show "p = q" using pq assms(3) by (auto simp: distinct_map inj_on_def)
qed

text \<open>The sorted order does not depend on the order the peers come in.\<close>

lemma sort_perm:
  assumes "wf_id t" and "\<forall>p \<in> set ps. wf_id (ID p)" and "distinct (ids ps)" and "mset ps = mset qs"
  shows "sort_key (\<lambda>p. dist t (ID p)) ps = sort_key (\<lambda>p. dist t (ID p)) qs"
  by (rule sort_key_perm [OF assms(4) inj_on_dist [OF assms(1-3)]])

lemma strictly_sorted:
  assumes "wf_id t" and "\<forall>p \<in> set ps. wf_id (ID p)" and "distinct (ids ps)"
  shows "sorted_wrt (<) (map (\<lambda>p. dist t (ID p)) (sort_key (\<lambda>p. dist t (ID p)) ps))"
proof -
  have "distinct ps" using assms(3) by (simp add: distinct_map)
  then have "distinct (map (\<lambda>p. dist t (ID p)) (sort_key (\<lambda>p. dist t (ID p)) ps))"
    using inj_on_dist [OF assms] by (simp add: distinct_map)
  then show ?thesis by (simp add: strict_sorted_iff)
qed

text \<open>The first elements of the sorted list are closer than everything left out.\<close>

lemma take_closest:
  assumes "p \<in> set (take n (sort_key (\<lambda>p. dist t (ID p)) ps))"
    and "q \<in> set ps" and "q \<notin> set (take n (sort_key (\<lambda>p. dist t (ID p)) ps))"
  shows "dist t (ID p) \<le> dist t (ID q)"
proof -
  let ?s = "sort_key (\<lambda>p. dist t (ID p)) ps"
  have "q \<in> set (take n ?s @ drop n ?s)" using assms(2) by (simp only: append_take_drop_id set_sort)
  then have "q \<in> set (take n ?s) \<or> q \<in> set (drop n ?s)" unfolding set_append by (rule UnE) auto
  then have "q \<in> set (drop n ?s)" using assms(3) by blast
  moreover have "sorted (map (\<lambda>p. dist t (ID p)) (take n ?s @ drop n ?s))"
    by (simp only: append_take_drop_id sorted_sort_key)
  then have "\<forall>x \<in> set (map (\<lambda>p. dist t (ID p)) (take n ?s)).
      \<forall>y \<in> set (map (\<lambda>p. dist t (ID p)) (drop n ?s)). x \<le> y"
    unfolding map_append sorted_append by (elim conjE)
  ultimately show ?thesis using assms(1) unfolding set_map by blast
qed

end

interpretation xor: id_metric xorDistance
  by unfold_locales (rule xorDistance_inj, auto simp: wf_id_def)

subsection \<open>The table\<close>

record RoutingTable =
  localID :: NodeID
  bucketSize :: int
  buckets :: "Bucket list"

datatype rt_error = ErrInvalidPeer | ErrSelfPeer

definition NewRoutingTable :: "NodeID \<Rightarrow> int \<Rightarrow> RoutingTable" where
  "NewRoutingTable lid n =
     (let size' = (if n \<le> 0 then 20 else n)
      in \<lparr>localID = lid, bucketSize = size',
          buckets = map (\<lambda>_. NewBucket size') [0..<NodeIDLength * 8]\<rparr>)"

definition AddPeer :: "int \<Rightarrow> RoutingTable \<Rightarrow> Peer \<Rightarrow> (RoutingTable \<times> rt_error option) option" where
  "AddPeer now rt peer =
     (if Addr peer = '''' then Some (rt, Some ErrInvalidPeer)
      else if ID peer = zeroID then Some (rt, Some ErrInvalidPeer)
      else if ID peer = localID rt then Some (rt, Some ErrSelfPeer)
      else
        let seen = peer\<lparr>LastSeen := now\<rparr>; index = bucketIndex (localID rt) (ID seen)
        in if index < length (buckets rt) then
             (case Bucket_Add (buckets rt ! index) seen of
                None \<Rightarrow> None
              | Some (bucket, _) \<Rightarrow> Some (rt\<lparr>buckets := (buckets rt)[index := bucket]\<rparr>, None))
           else None)"

definition RemovePeer :: "RoutingTable \<Rightarrow> NodeID \<Rightarrow> (RoutingTable \<times> bool) option" where
  "RemovePeer rt peerID =
     (let index = bucketIndex (localID rt) peerID
      in if index < length (buckets rt) then
           (let (bucket, removed) = Bucket_Remove (buckets rt ! index) peerID
            in Some (rt\<lparr>buckets := (buckets rt)[index := bucket]\<rparr>, removed))
         else None)"

definition allPeers :: "RoutingTable \<Rightarrow> Peer list" where
  "allPeers rt = concat (map Bucket_List (buckets rt))"

record peerDistance =
  pd_peer :: Peer
  pd_distance :: nat

definition GetClosestPeers :: "RoutingTable \<Rightarrow> NodeID \<Rightarrow> int \<Rightarrow> Peer list" where
  "GetClosestPeers rt target k =
     (if k \<le> 0 then []
      else if allPeers rt = [] then []
      else
        let sorted = sort_key pd_distance
              (map (\<lambda>peer. \<lparr>pd_peer = peer, pd_distance = xorDistance target (ID peer)\<rparr>) (allPeers rt));
            limit = (if k > int (length sorted) then length sorted else nat k)
        in map pd_peer (take limit sorted))"

subsection \<open>Invariant of the table\<close>

definition good_peer :: "NodeID \<Rightarrow> Peer \<Rightarrow> bool" where
  "good_peer l p \<longleftrightarrow> wf_id (ID p) \<and> ID p \<noteq> zeroID \<and> ID p \<noteq> l \<and> Addr p \<noteq> ''''"

definition rt_ok :: "RoutingTable \<Rightarrow> bool" where
  "rt_ok rt \<longleftrightarrow> wf_id (localID rt) \<and> length (buckets rt) = NodeIDLength * 8 \<and>
     (\<forall>j < length (buckets rt).
        bucket_ok (buckets rt ! j) \<and>
        (\<forall>q \<in> set (Bucket_List (buckets rt ! j)).
           bucketIndex (localID rt) (ID q) = j \<and> good_peer (localID rt) q))"

lemma rt_ok_buckets:
  "rt_ok rt \<Longrightarrow> \<forall>j < length (buckets rt). bucket_ok (buckets rt ! j) \<and>
     (\<forall>q \<in> set (Bucket_List (buckets rt ! j)). bucketIndex (localID rt) (ID q) = j \<and> good_peer (localID rt) q)"
  unfolding rt_ok_def by (elim conjE)

lemma rt_ok_update:
  assumes "rt_ok rt"
    and "\<forall>j < length (buckets rt). bucket_ok ((buckets rt)[k := b] ! j) \<and>
      (\<forall>q \<in> set (Bucket_List ((buckets rt)[k := b] ! j)).
        bucketIndex (localID rt) (ID q) = j \<and> good_peer (localID rt) q)"
  shows "rt_ok (rt\<lparr>buckets := (buckets rt)[k := b]\<rparr>)"
  using assms unfolding rt_ok_def by (simp del: nth_list_update)

lemma rt_ok_New: "wf_id l \<Longrightarrow> rt_ok (NewRoutingTable l n)"
  by (simp add: rt_ok_def NewRoutingTable_def Let_def bucket_ok_New)
    (simp add: NewBucket_def)

lemma bucketIndex_less: "wf_id l \<Longrightarrow> wf_id i \<Longrightarrow> bucketIndex l i < NodeIDLength * 8"
proof (cases "i = l")
  case True
  have "bucketIndex_from xs xs n = NodeIDLength * 8 - 1" for xs :: "byte list" and n
    by (induction xs arbitrary: n) simp_all
  then show ?thesis using True by (simp add: bucketIndex_def NodeIDLength_def)
next
  case False
  assume "wf_id l" "wf_id i"
  then show ?thesis using bucketIndex_bounds(1) [of l i] False by (simp add: NodeIDLength_def)
qed

lemma in_allPeers:
  "q \<in> set (allPeers rt) \<longleftrightarrow> (\<exists>j < length (buckets rt). q \<in> set (Bucket_List (buckets rt ! j)))"
  by (simp add: allPeers_def Bex_def [symmetric] set_conv_nth [of "buckets rt"]) blast

lemma in_allPeers_bucket:
  assumes "rt_ok rt" and "wf_id (ID q)"
  shows "q \<in> set (allPeers rt) \<longleftrightarrow> q \<in> set (Bucket_List (buckets rt ! bucketIndex (localID rt) (ID q)))"
  using assms bucketIndex_less [of "localID rt" "ID q"]
  by (auto simp: in_allPeers rt_ok_def)

lemma allPeers_good: "rt_ok rt \<Longrightarrow> q \<in> set (allPeers rt) \<Longrightarrow> good_peer (localID rt) q"
  by (auto simp: in_allPeers rt_ok_def)

lemma allPeers_wf: "rt_ok rt \<Longrightarrow> \<forall>q \<in> set (allPeers rt). wf_id (ID q)"
  using allPeers_good by (auto simp: good_peer_def)

lemma distinct_allPeers:
  assumes "rt_ok rt"
  shows "distinct (ids (allPeers rt))"
  unfolding allPeers_def
  by (rule kbucket.distinct_placed [where place = "bucketIndex (localID rt)" and n = 0])
    (use assms in \<open>auto simp: rt_ok_def\<close>)

lemma AddPeer_accepts:
  assumes "rt_ok rt" and "good_peer (localID rt) p"
  obtains b' ev where
    "AddPeer now rt p = Some (rt\<lparr>buckets := (buckets rt)[bucketIndex (localID rt) (ID p) := b']\<rparr>, None)"
    and "Bucket_Add (buckets rt ! bucketIndex (localID rt) (ID p)) (p\<lparr>LastSeen := now\<rparr>) = Some (b', ev)"
    and "bucketIndex (localID rt) (ID p) < length (buckets rt)"
proof -
  let ?i = "bucketIndex (localID rt) (ID p)"
  have i: "?i < length (buckets rt)"
    using assms bucketIndex_less [of "localID rt" "ID p"] by (simp add: rt_ok_def good_peer_def)
  then have "bucket_ok (buckets rt ! ?i)" using assms(1) by (simp add: rt_ok_def)
  then obtain b' ev where "Bucket_Add (buckets rt ! ?i) (p\<lparr>LastSeen := now\<rparr>) = Some (b', ev)"
    using kbucket.add_total by blast
  with i show ?thesis using assms(2) by (intro that) (simp_all add: AddPeer_def good_peer_def)
qed

lemma AddPeer_rejects:
  "Addr p = '''' \<or> ID p = zeroID \<or> ID p = localID rt \<Longrightarrow>
     AddPeer now rt p =
       Some (rt, Some (if Addr p = '''' \<or> ID p = zeroID then ErrInvalidPeer else ErrSelfPeer))"
  by (auto simp: AddPeer_def)

lemma AddPeer_ok:
  assumes "rt_ok rt" and "wf_id (ID p)" and "AddPeer now rt p = Some (rt', err)"
  shows "rt_ok rt' \<and> localID rt' = localID rt"
proof (cases "good_peer (localID rt) p")
  case False
  then show ?thesis using assms AddPeer_rejects [of p rt now] by (auto simp: good_peer_def)
next
  case True
  let ?q = "p\<lparr>LastSeen := now\<rparr>" and ?i = "bucketIndex (localID rt) (ID p)"
  obtain b' ev where
    add: "AddPeer now rt p = Some (rt\<lparr>buckets := (buckets rt)[?i := b']\<rparr>, None)"
      "Bucket_Add (buckets rt ! ?i) ?q = Some (b', ev)" "?i < length (buckets rt)"
    using assms(1) True by (rule AddPeer_accepts)
  have q: "ID ?q = ID p" "good_peer (localID rt) ?q" using True by (simp_all add: good_peer_def)
  have "rt_ok (rt\<lparr>buckets := (buckets rt)[?i := b']\<rparr>)"
    by (rule rt_ok_update [OF assms(1)])
      (rule kbucket.placed_add [of "buckets rt" "bucketIndex (localID rt)" "good_peer (localID rt)" ?q b' ev,
        unfolded q(1), OF rt_ok_buckets [OF assms(1)] add(3) q(2) add(2)])
  then show ?thesis using assms(3) add(1) by auto
qed

text \<open>A table that holds one peer, for concrete instances.\<close>

definition example_table :: "int \<Rightarrow> RoutingTable" where
  "example_table n = fst (the (AddPeer 7 (NewRoutingTable zeroID n)
     \<lparr>ID = 1 # replicate 19 0, Addr = ''a'', LastSeen = 0\<rparr>))"

lemma example_id_wf: "wf_id (1 # replicate 19 0)"
  by (simp add: wf_id_def NodeIDLength_def)

lemma example_id_nonzero: "1 # replicate 19 0 \<noteq> zeroID"
  by (simp add: zeroID_def NodeIDLength_def numeral_eq_Suc)

text \<open>
  C31: adding a peer never panics. A peer without address or with the zero identifier is rejected as
  invalid, any other peer with the local identifier as the node itself, and then the table is unchanged; any other
  peer is stored with the current time, no other peer is introduced, the peers of other buckets
  are kept, and the table stays well formed.
\<close>

theorem AddPeer_correct:
  assumes "rt_ok rt" and "wf_id (ID p)"
  shows "\<exists>rt' err. AddPeer now rt p = Some (rt', err) \<and> rt_ok rt' \<and>
    err = (if Addr p = '''' \<or> ID p = zeroID then Some ErrInvalidPeer else if ID p = localID rt then Some ErrSelfPeer else None) \<and>
    (err \<noteq> None \<longrightarrow> rt' = rt) \<and>
    (err = None \<longrightarrow>
       p\<lparr>LastSeen := now\<rparr> \<in> set (allPeers rt') \<and>
       set (allPeers rt') \<subseteq> insert (p\<lparr>LastSeen := now\<rparr>) (set (without (ID p) (allPeers rt))) \<and>
       (\<forall>q \<in> set (allPeers rt).
          bucketIndex (localID rt) (ID q) \<noteq> bucketIndex (localID rt) (ID p) \<longrightarrow> q \<in> set (allPeers rt')))"
proof (cases "good_peer (localID rt) p")
  case False
  then show ?thesis using assms AddPeer_rejects [of p rt now] by (auto simp: good_peer_def)
next
  case True
  let ?q = "p\<lparr>LastSeen := now\<rparr>" and ?i = "bucketIndex (localID rt) (ID p)"
  obtain b' ev where
    add: "AddPeer now rt p = Some (rt\<lparr>buckets := (buckets rt)[?i := b']\<rparr>, None)"
      "Bucket_Add (buckets rt ! ?i) ?q = Some (b', ev)" "?i < length (buckets rt)"
    using assms(1) True by (rule AddPeer_accepts)
  let ?rt = "rt\<lparr>buckets := (buckets rt)[?i := b']\<rparr>"
  have ok: "bucket_ok (buckets rt ! ?i)" using assms(1) add(3) by (simp add: rt_ok_def)
  have "?q \<in> set (allPeers ?rt)"
    unfolding in_allPeers using kbucket.add_stores [OF ok add(2)] add(3) by (auto intro!: exI [of _ ?i])
  moreover have "set (allPeers ?rt) \<subseteq> insert ?q (set (without (ID p) (allPeers rt)))"
  proof
    fix q assume "q \<in> set (allPeers ?rt)"
    then obtain j where j: "j < length (buckets rt)" "q \<in> set (Bucket_List ((buckets rt)[?i := b'] ! j))"
      by (auto simp: in_allPeers)
    show "q \<in> insert ?q (set (without (ID p) (allPeers rt)))"
    proof (cases "j = ?i")
      case True
      then show ?thesis using j kbucket.add_only [OF ok add(2)] by (auto simp: in_allPeers)
    next
      case False
      then have "q \<in> set (Bucket_List (buckets rt ! j))" using j by simp
      moreover from this have "bucketIndex (localID rt) (ID q) = j"
        using assms(1) j(1) by (simp add: rt_ok_def)
      with False have "ID q \<noteq> ID p" by auto
      ultimately show ?thesis using j(1) by (auto simp: in_allPeers)
    qed
  qed
  moreover have "q \<in> set (allPeers ?rt)"
    if "q \<in> set (allPeers rt)" "bucketIndex (localID rt) (ID q) \<noteq> ?i" for q
  proof -
    obtain j where "j < length (buckets rt)" "q \<in> set (Bucket_List (buckets rt ! j))"
      using \<open>q \<in> set (allPeers rt)\<close> by (auto simp: in_allPeers)
    moreover from this have "j \<noteq> ?i" using assms(1) \<open>bucketIndex (localID rt) (ID q) \<noteq> ?i\<close>
      by (auto simp: rt_ok_def)
    ultimately show ?thesis by (auto simp: in_allPeers intro!: exI [of _ j])
  qed
  ultimately show ?thesis
    using add(1) AddPeer_ok [OF assms add(1)] True by (auto simp: good_peer_def)
qed

theorem AddPeer_correct_witness:
  "rt_ok (NewRoutingTable zeroID 20) \<and>
   (\<exists>rt'. AddPeer 7 (NewRoutingTable zeroID 20) \<lparr>ID = 1 # replicate 19 0, Addr = ''a'', LastSeen = 0\<rparr> =
      Some (rt', None) \<and> \<lparr>ID = 1 # replicate 19 0, Addr = ''a'', LastSeen = 7\<rparr> \<in> set (allPeers rt'))"
proof -
  let ?p = "\<lparr>ID = 1 # replicate 19 0, Addr = ''a'', LastSeen = 0\<rparr>"
  have "wf_id (ID ?p)" "ID ?p \<noteq> zeroID" "localID (NewRoutingTable zeroID 20) = zeroID"
    using example_id_wf example_id_nonzero by (simp_all add: NewRoutingTable_def Let_def)
  then show ?thesis
    using AddPeer_correct [OF rt_ok_New [OF wf_zeroID, of 20], of ?p 7] rt_ok_New [OF wf_zeroID, of 20]
    by auto
qed

lemma example_table_ok: "rt_ok (example_table n)"
proof -
  let ?p = "\<lparr>ID = 1 # replicate 19 0, Addr = ''a'', LastSeen = 0\<rparr>"
  have "good_peer (localID (NewRoutingTable zeroID n)) ?p"
    using example_id_wf example_id_nonzero by (simp add: good_peer_def NewRoutingTable_def Let_def)
  then obtain rt' where "AddPeer 7 (NewRoutingTable zeroID n) ?p = Some (rt', None)"
    using AddPeer_accepts [OF rt_ok_New [OF wf_zeroID], of n ?p 7] by metis
  then show ?thesis
    using AddPeer_ok [OF rt_ok_New [OF wf_zeroID], of ?p 7 n rt' None] example_id_wf
    by (simp add: example_table_def)
qed

lemma example_bucketIndex: "bucketIndex zeroID (1 # replicate 19 0) = 0"
proof -
  have eq: "zeroID = 0 # replicate 19 0" by (simp add: zeroID_def NodeIDLength_def numeral_eq_Suc)
  show ?thesis unfolding bucketIndex_def eq by (simp add: LeadingZeros8_def)
qed

lemma allPeers_example:
  "allPeers (example_table 20) = [\<lparr>ID = 1 # replicate 19 0, Addr = ''a'', LastSeen = 7\<rparr>]"
proof -
  let ?b = "NewBucket 20"
  have "buckets (NewRoutingTable zeroID 20) = ?b # map (\<lambda>_. ?b) [1..<NodeIDLength * 8]"
    by (simp add: NewRoutingTable_def upt_conv_Cons NodeIDLength_def)
  moreover have "Bucket_List ?b = []" by (simp add: NewBucket_def)
  moreover have "localID (NewRoutingTable zeroID 20) = zeroID" by (simp add: NewRoutingTable_def)
  ultimately show ?thesis using example_id_nonzero
    by (simp add: example_table_def AddPeer_def example_bucketIndex Let_def allPeers_def
        Bucket_Add_def NewBucket_def indexOf_def)
qed

lemma RemovePeer_eq:
  assumes "rt_ok rt" and "wf_id i"
  shows "RemovePeer rt i =
    Some (rt\<lparr>buckets := (buckets rt)[bucketIndex (localID rt) i :=
        fst (Bucket_Remove (buckets rt ! bucketIndex (localID rt) i) i)]\<rparr>,
      i \<in> set (ids (allPeers rt)))"
proof -
  let ?k = "bucketIndex (localID rt) i"
  have k: "?k < length (buckets rt)"
    using assms bucketIndex_less [of "localID rt" i] by (simp add: rt_ok_def)
  then have "snd (Bucket_Remove (buckets rt ! ?k) i) \<longleftrightarrow> i \<in> set (ids (Bucket_List (buckets rt ! ?k)))"
    using assms(1) by (intro kbucket.remove_reports) (simp add: rt_ok_def)
  also have "\<dots> \<longleftrightarrow> i \<in> set (ids (allPeers rt))"
    using assms k by (fastforce simp: in_allPeers rt_ok_def image_iff)
  finally show ?thesis using k by (auto simp: RemovePeer_def Let_def split: prod.split)
qed

text \<open>
  Removing an identifier never panics, reports whether a peer with it was stored, removes
  exactly that peer, and keeps the table well formed.
\<close>

lemma RemovePeer_correct:
  assumes "rt_ok rt" and "wf_id i"
  shows "\<exists>rt'. RemovePeer rt i = Some (rt', i \<in> set (ids (allPeers rt))) \<and> rt_ok rt' \<and>
    set (allPeers rt') = set (without i (allPeers rt))"
proof -
  let ?k = "bucketIndex (localID rt) i"
  let ?b = "fst (Bucket_Remove (buckets rt ! ?k) i)"
  let ?rt = "rt\<lparr>buckets := (buckets rt)[?k := ?b]\<rparr>"
  have k: "?k < length (buckets rt)"
    using assms bucketIndex_less [of "localID rt" i] by (simp add: rt_ok_def)
  have "rt_ok ?rt"
    by (rule rt_ok_update [OF assms(1)])
      (rule kbucket.placed_remove [of "buckets rt" "bucketIndex (localID rt)" "good_peer (localID rt)" ?k i,
        OF rt_ok_buckets [OF assms(1)] k])
  moreover have "set (allPeers ?rt) = set (without i (allPeers rt))"
  proof (rule set_eqI)
    fix q
    have ok: "bucket_ok (buckets rt ! ?k)" using assms(1) k by (simp add: rt_ok_def)
    have "q \<in> set (Bucket_List ((buckets rt)[?k := ?b] ! j)) \<longleftrightarrow>
        q \<in> set (Bucket_List (buckets rt ! j)) \<and> ID q \<noteq> i"
      if "j < length (buckets rt)" for j
    proof (cases "j = ?k")
      case True
      then show ?thesis using that kbucket.remove_exact [OF ok, of i] by simp
    next
      case False
      then show ?thesis using that assms(1) by (auto simp: rt_ok_def)
    qed
    then show "q \<in> set (allPeers ?rt) \<longleftrightarrow> q \<in> set (without i (allPeers rt))"
      by (auto simp: in_allPeers)
  qed
  ultimately show ?thesis using RemovePeer_eq [OF assms] by blast
qed

subsection \<open>The closest peers\<close>

lemma sort_key_map: "sort_key f (map g xs) = map g (sort_key (\<lambda>x. f (g x)) xs)"
proof -
  have "insort_key f (g x) (map g ys) = map g (insort_key (\<lambda>x. f (g x)) x ys)" for x ys
    by (induction ys) simp_all
  then show ?thesis by (induction xs) simp_all
qed

lemma GetClosestPeers_eq:
  "GetClosestPeers rt t k = take (nat k) (sort_key (\<lambda>p. xorDistance t (ID p)) (allPeers rt))"
  by (auto simp: GetClosestPeers_def Let_def sort_key_map take_map comp_def)

text \<open>
  C27: the selection of the \<open>k\<close> closest peers is exact: it returns as many stored peers as asked
  for or as there are, in strictly increasing distance from the target, and every stored peer
  that is left out is farther than every returned one.
\<close>

theorem GetClosestPeers_correct:
  assumes "rt_ok rt" and "wf_id t"
  shows "length (GetClosestPeers rt t k) = min (nat k) (length (allPeers rt)) \<and>
    set (GetClosestPeers rt t k) \<subseteq> set (allPeers rt) \<and>
    sorted_wrt (<) (map (\<lambda>p. xorDistance t (ID p)) (GetClosestPeers rt t k)) \<and>
    (\<forall>p \<in> set (GetClosestPeers rt t k). \<forall>q \<in> set (allPeers rt) - set (GetClosestPeers rt t k).
       xorDistance t (ID p) < xorDistance t (ID q))"
proof -
  let ?d = "\<lambda>p. xorDistance t (ID p)"
  note wf = assms(2) allPeers_wf [OF assms(1)] distinct_allPeers [OF assms(1)]
  have set_sub: "set (GetClosestPeers rt t k) \<subseteq> set (allPeers rt)"
    unfolding GetClosestPeers_eq using set_take_subset [of "nat k" "sort_key ?d (allPeers rt)"] by simp
  have "sorted_wrt (<) (map ?d (GetClosestPeers rt t k))"
    unfolding GetClosestPeers_eq take_map [symmetric]
    by (rule sorted_wrt_take [OF xor.strictly_sorted [OF wf]])
  moreover have "?d p < ?d q"
    if "p \<in> set (GetClosestPeers rt t k)" "q \<in> set (allPeers rt) - set (GetClosestPeers rt t k)" for p q
  proof -
    have "?d p \<le> ?d q" using that unfolding GetClosestPeers_eq by (intro xor.take_closest) auto
    moreover have "?d p \<noteq> ?d q"
      using that set_sub inj_onD [OF xor.inj_on_dist [OF wf], of p q] by auto
    ultimately show ?thesis by simp
  qed
  ultimately show ?thesis using set_sub by (simp add: GetClosestPeers_eq)
qed

theorem GetClosestPeers_correct_witness:
  "length (GetClosestPeers (example_table 20) zeroID 3) = 1 \<and>
   set (GetClosestPeers (example_table 20) zeroID 3) \<subseteq>
     {\<lparr>ID = 1 # replicate 19 0, Addr = ''a'', LastSeen = 7\<rparr>}"
  using GetClosestPeers_correct [OF example_table_ok wf_zeroID, of 20 3] by (simp add: allPeers_example)

end
