(* ===== verification/Lookup.thy ===== *)
theory Lookup
  imports Routing
begin

text \<open>
  The iterative node lookup of \<^verbatim>\<open>pkg/dht/lookup.go\<close>.

  The state of everything outside the lookup (the network, the clock, the scheduler) is a value
  of an arbitrary type \<open>'w\<close>. The FIND\_NODE request is a function of that state, the context is
  asked in it whether it is cancelled, and the order in which the map of merged peers is iterated
  is given by choices that depend on it. A locale states what the lookup relies on: the requests
  can be observed as a history. From it follow what the lookup finds, whom it asks and when it
  has converged.
\<close>

section \<open>Iterative node lookup\<close>

record FindNodeOptions =
  K :: int
  Alpha :: int
  MaxRounds :: int

datatype lookup_error =
    ErrRoutingTableNil
  | ErrRequesterNil
  | ErrNoClosePeers
  | ErrValueNotFound
  | ErrContext string
  | ErrStore string

type_synonym 'w FindNodeRequester = "'w \<Rightarrow> Peer \<Rightarrow> NodeID \<Rightarrow> 'w \<times> (string + Peer list)"

definition normalizeFindNodeOptions :: "FindNodeOptions \<Rightarrow> int \<times> int \<times> int" where
  "normalizeFindNodeOptions opts =
     (let k = (if K opts \<le> 0 then 20 else K opts);
          alpha = (if Alpha opts \<le> 0 then 3 else Alpha opts);
          maxRounds = (if MaxRounds opts \<le> 0 then int (NodeIDLength * 8) else MaxRounds opts)
      in (k, alpha, maxRounds))"

fun nextUnqueried_from :: "Peer list \<Rightarrow> Peer list \<Rightarrow> NodeID set \<Rightarrow> int \<Rightarrow> Peer list" where
  "nextUnqueried_from batch [] queried alpha = batch"
| "nextUnqueried_from batch (peer # shortlist) queried alpha =
     (if ID peer \<in> queried then nextUnqueried_from batch shortlist queried alpha
      else let batch = batch @ [peer]
           in if int (length batch) \<ge> alpha then batch
              else nextUnqueried_from batch shortlist queried alpha)"

definition nextUnqueried :: "Peer list \<Rightarrow> NodeID set \<Rightarrow> int \<Rightarrow> Peer list" where
  "nextUnqueried shortlist queried alpha = nextUnqueried_from [] shortlist queried alpha"

text \<open>Assignment to an entry of the map of peers by identifier, the entries in insertion order.\<close>

fun seen_put :: "Peer list \<Rightarrow> Peer \<Rightarrow> Peer list" where
  "seen_put [] peer = [peer]"
| "seen_put (p # seen) peer = (if ID p = ID peer then peer # seen else p # seen_put seen peer)"

definition mergePeers :: "nat list \<Rightarrow> Peer list \<Rightarrow> Peer list \<Rightarrow> Peer list" where
  "mergePeers order existing incoming =
     (if incoming = [] then existing
      else
        let seen = foldl seen_put [] existing;
            seen = foldl (\<lambda>seen peer. if ID peer = zeroID then seen else seen_put seen peer) seen incoming
        in shuffle order seen)"

definition trimPeers :: "Peer list \<Rightarrow> int \<Rightarrow> Peer list" where
  "trimPeers ps k = (if k \<le> 0 \<or> int (length ps) \<le> k then ps else take (nat k) ps)"

definition candidateLimit :: "int \<Rightarrow> int \<Rightarrow> int" where
  "candidateLimit k alpha =
     (let limit = wrap64 (k * 4);
          minLimit = wrap64 (alpha * 2);
          limit = (if limit < minLimit then minLimit else limit)
      in if limit < k then k else limit)"

definition sortPeersByDistance :: "NodeID \<Rightarrow> Peer list \<Rightarrow> Peer list" where
  "sortPeersByDistance target ps =
     map pd_peer (sort_key pd_distance
       (map (\<lambda>peer. \<lparr>pd_peer = peer, pd_distance = xorDistance target (ID peer)\<rparr>) ps))"

text \<open>The inner loop: the peers of one batch are asked in turn.\<close>

fun queryBatch :: "('w \<Rightarrow> nat list) \<Rightarrow> 'w FindNodeRequester \<Rightarrow> NodeID \<Rightarrow>
    'w \<Rightarrow> NodeID set \<Rightarrow> Peer list \<Rightarrow> Peer list \<Rightarrow> 'w \<times> NodeID set \<times> Peer list" where
  "queryBatch order requester target w queried shortlist [] = (w, queried, shortlist)"
| "queryBatch order requester target w queried shortlist (peer # batch) =
     (let queried = insert (ID peer) queried
      in case requester w peer target of
           (w', Inl err) \<Rightarrow> queryBatch order requester target w' queried shortlist batch
         | (w', Inr response) \<Rightarrow>
             queryBatch order requester target w' queried
               (mergePeers (order w') shortlist response) batch)"

text \<open>The rounds, with the number of rounds left as the first argument that decreases.\<close>

fun findRounds :: "('w \<Rightarrow> string option) \<Rightarrow> ('w \<Rightarrow> nat list) \<Rightarrow> 'w FindNodeRequester \<Rightarrow> NodeID \<Rightarrow>
    int \<Rightarrow> int \<Rightarrow> nat \<Rightarrow> 'w \<Rightarrow> NodeID set \<Rightarrow> Peer list \<Rightarrow> 'w \<times> NodeID set \<times> (lookup_error + Peer list)" where
  "findRounds ctx order requester target k alpha 0 w queried shortlist = (w, queried, Inr shortlist)"
| "findRounds ctx order requester target k alpha (Suc rounds) w queried shortlist =
     (case ctx w of
        Some err \<Rightarrow> (w, queried, Inl (ErrContext err))
      | None \<Rightarrow>
          let batch = nextUnqueried shortlist queried alpha
          in if batch = [] then (w, queried, Inr shortlist)
             else
               let (w', queried', merged) = queryBatch order requester target w queried shortlist batch
               in findRounds ctx order requester target k alpha rounds w' queried'
                    (trimPeers (sortPeersByDistance target merged) (candidateLimit k alpha)))"

definition IterativeFindNode :: "('w \<Rightarrow> string option) \<Rightarrow> ('w \<Rightarrow> nat list) \<Rightarrow> RoutingTable option \<Rightarrow>
    'w FindNodeRequester option \<Rightarrow> NodeID \<Rightarrow> FindNodeOptions \<Rightarrow> 'w \<Rightarrow> 'w \<times> (lookup_error + Peer list)" where
  "IterativeFindNode ctx order rt requester target opts w =
     (case rt of
        None \<Rightarrow> (w, Inl ErrRoutingTableNil)
      | Some rt \<Rightarrow>
     (case requester of
        None \<Rightarrow> (w, Inl ErrRequesterNil)
      | Some requester \<Rightarrow>
          let (k, alpha, maxRounds) = normalizeFindNodeOptions opts;
              shortlist = GetClosestPeers rt target k
          in if shortlist = [] then (w, Inl ErrNoClosePeers)
             else
               case findRounds ctx order requester target k alpha (nat maxRounds) w {}
                      (sortPeersByDistance target shortlist) of
                 (w', _, Inl err) \<Rightarrow> (w', Inl err)
               | (w', _, Inr shortlist) \<Rightarrow> (w', Inr (trimPeers shortlist k))))"

subsection \<open>The steps of a round\<close>

lemma nextUnqueried_from_eq:
  "int (length batch) < alpha \<Longrightarrow>
     nextUnqueried_from batch s q alpha =
       batch @ take (nat alpha - length batch) (filter (\<lambda>p. ID p \<notin> q) s)"
proof (induction batch s q alpha rule: nextUnqueried_from.induct)
  case (2 batch peer s q alpha)
  have "nat alpha - length batch = Suc (nat alpha - Suc (length batch))" using 2 by simp
  then show ?case using 2 by (auto simp: Let_def)
qed simp

lemma nextUnqueried_eq:
  "0 < alpha \<Longrightarrow> nextUnqueried s q alpha = take (nat alpha) (filter (\<lambda>p. ID p \<notin> q) s)"
  by (simp add: nextUnqueried_def nextUnqueried_from_eq)

lemma nextUnqueried_batch:
  assumes "0 < alpha" and "distinct (ids s)"
  shows "set (nextUnqueried s q alpha) \<subseteq> set s" and "distinct (ids (nextUnqueried s q alpha))"
    and "set (ids (nextUnqueried s q alpha)) \<inter> q = {}" and "int (length (nextUnqueried s q alpha)) \<le> alpha"
    and "nextUnqueried s q alpha = [] \<longleftrightarrow> set (ids s) \<subseteq> q"
proof -
  show "set (nextUnqueried s q alpha) \<subseteq> set s" and "set (ids (nextUnqueried s q alpha)) \<inter> q = {}"
    using assms(1) by (auto simp: nextUnqueried_eq dest!: in_set_takeD)
  have "distinct (ids (filter (\<lambda>p. ID p \<notin> q) s))" by (rule distinct_map_filter [OF assms(2)])
  then show "distinct (ids (nextUnqueried s q alpha))"
    using assms(1) by (simp add: nextUnqueried_eq take_map [symmetric])
  show "int (length (nextUnqueried s q alpha)) \<le> alpha" using assms(1) by (simp add: nextUnqueried_eq)
  show "nextUnqueried s q alpha = [] \<longleftrightarrow> set (ids s) \<subseteq> q"
    using assms(1) by (auto simp: nextUnqueried_eq filter_empty_conv)
qed

lemma seen_put_ids [simp]: "set (ids (seen_put s p)) = insert (ID p) (set (ids s))"
  by (induction s) auto

lemma seen_put_set: "q \<in> set (seen_put s p) \<Longrightarrow> q = p \<or> q \<in> set s"
  by (induction s) (auto split: if_splits)

lemma distinct_seen_put: "distinct (ids s) \<Longrightarrow> distinct (ids (seen_put s p))"
proof (induction s)
  case (Cons a s)
  then show ?case using seen_put_ids [of s p] by auto
qed simp

lemma seen_put_new: "ID p \<notin> set (ids s) \<Longrightarrow> seen_put s p = s @ [p]"
  by (induction s) auto

lemma foldl_seen_put_distinct: "distinct (ids (s @ ps)) \<Longrightarrow> foldl seen_put s ps = s @ ps"
proof (induction ps arbitrary: s)
  case (Cons p ps)
  then show ?case using seen_put_new [of p s] Cons.IH [of "s @ [p]"] by auto
qed simp

lemma foldl_skip: "foldl (\<lambda>s x. if P x then s else f s x) s xs = foldl f s (filter (\<lambda>x. \<not> P x) xs)"
  by (induction xs arbitrary: s) auto

lemma foldl_seen_put_ids: "set (ids (foldl seen_put s ps)) = set (ids s) \<union> set (ids ps)"
proof (induction ps arbitrary: s)
  case (Cons p ps)
  show ?case unfolding foldl.simps Cons.IH seen_put_ids by simp
qed simp

lemma foldl_seen_put_dist: "distinct (ids s) \<Longrightarrow> distinct (ids (foldl seen_put s ps))"
  by (induction ps arbitrary: s) (simp_all add: distinct_seen_put)

lemma foldl_seen_put_set: "set (foldl seen_put s ps) \<subseteq> set s \<union> set ps"
proof (induction ps arbitrary: s)
  case (Cons p ps)
  show ?case using Cons.IH [of "seen_put s p"] seen_put_set [of _ s p] by (simp add: subset_iff) blast
qed simp

lemma mergePeers_mset:
  assumes "distinct (ids s)"
  shows "mset (mergePeers order s incoming) =
    mset (foldl seen_put s (filter (\<lambda>p. ID p \<noteq> zeroID) incoming))"
  using foldl_seen_put_distinct [of "[]" s] assms by (simp add: mergePeers_def Let_def foldl_skip)

lemma mergePeers_props:
  assumes "distinct (ids s)"
  shows "set (ids (mergePeers order s incoming)) = set (ids s) \<union> (set (ids incoming) - {zeroID})"
    and "distinct (ids (mergePeers order s incoming))"
    and "set (mergePeers order s incoming) \<subseteq> set s \<union> set incoming"
proof -
  let ?ps = "filter (\<lambda>p. ID p \<noteq> zeroID) incoming"
  note perm = mergePeers_mset [OF assms, of order incoming]
  have eq: "set (mergePeers order s incoming) = set (foldl seen_put s ?ps)"
    using perm by (metis set_mset_mset)
  have "mset (ids (mergePeers order s incoming)) = mset (ids (foldl seen_put s ?ps))"
    using perm by simp
  then show "distinct (ids (mergePeers order s incoming))"
    using mset_eq_imp_distinct_iff foldl_seen_put_dist [OF assms, of ?ps] by blast
  have "set (ids (mergePeers order s incoming)) = set (ids s) \<union> set (ids ?ps)"
    using foldl_seen_put_ids [of s ?ps] eq by (simp only: set_map)
  then show "set (ids (mergePeers order s incoming)) = set (ids s) \<union> (set (ids incoming) - {zeroID})"
    by auto
  show "set (mergePeers order s incoming) \<subseteq> set s \<union> set incoming"
    using foldl_seen_put_set [of s ?ps] eq by auto
qed

lemma trimPeers_eq: "0 < k \<Longrightarrow> trimPeers ps k = take (nat k) ps"
  by (auto simp: trimPeers_def)

lemma sortPeersByDistance_eq:
  "sortPeersByDistance target ps = sort_key (\<lambda>p. xorDistance target (ID p)) ps"
  by (simp add: sortPeersByDistance_def sort_key_map comp_def)

lemma candidateLimit_ge: "k \<le> candidateLimit k alpha"
  by (simp add: candidateLimit_def Let_def)

lemma normalize_positive:
  "normalizeFindNodeOptions opts = (k, alpha, maxRounds) \<Longrightarrow> 0 < k \<and> 0 < alpha \<and> 0 < maxRounds"
  by (auto simp: normalizeFindNodeOptions_def NodeIDLength_def)

subsection \<open>What the shortlist knows\<close>

text \<open>
  A shortlist stands for a set \<open>L\<close> of learned identifiers when it holds only learned ones, each
  once, and the \<open>k\<close> closest learned identifiers are the \<open>k\<close> closest of the shortlist.
\<close>

definition shortlist_ok :: "NodeID \<Rightarrow> nat \<Rightarrow> NodeID set \<Rightarrow> Peer list \<Rightarrow> bool" where
  "shortlist_ok t k L s \<longleftrightarrow> distinct (ids s) \<and> set (ids s) \<subseteq> L \<and> finite L \<and> (\<forall>i \<in> L. wf_id i) \<and>
     lowest k (xorDistance t ` set (ids s)) = lowest k (xorDistance t ` L)"

lemma shortlist_ok_wf: "shortlist_ok t k L s \<Longrightarrow> \<forall>p \<in> set s. wf_id (ID p)"
  by (auto simp: shortlist_ok_def)

lemma shortlist_ok_merge:
  assumes "shortlist_ok t k L s" and "\<forall>p \<in> set r. wf_id (ID p)"
  shows "shortlist_ok t k (L \<union> (set (ids r) - {zeroID})) (mergePeers order s r)"
proof -
  let ?new = "set (ids r) - {zeroID}" and ?d = "xorDistance t"
  have ok: "distinct (ids s)" "set (ids s) \<subseteq> L" "finite L" "\<forall>i \<in> L. wf_id i"
    "lowest k (?d ` set (ids s)) = lowest k (?d ` L)"
    using assms(1) unfolding shortlist_ok_def by blast+
  note merged = mergePeers_props [OF ok(1), of order r]
  have "lowest k (?d ` (set (ids s) \<union> ?new)) = lowest k (lowest k (?d ` set (ids s)) \<union> ?d ` ?new)"
    unfolding image_Un by (rule lowest_Un [symmetric]) auto
  also have "\<dots> = lowest k (?d ` (L \<union> ?new))"
    unfolding image_Un ok(5) by (rule lowest_Un) (use ok(3) in auto)
  finally have "lowest k (?d ` set (ids (mergePeers order s r))) = lowest k (?d ` (L \<union> ?new))"
    unfolding merged(1) .
  then show ?thesis
    unfolding shortlist_ok_def using merged(1,2) ok assms(2) by auto
qed

lemma shortlist_ok_perm:
  assumes "shortlist_ok t k L s" and "mset s' = mset s"
  shows "shortlist_ok t k L s'"
proof -
  have "mset (ids s') = mset (ids s)" using assms(2) by simp
  then have "distinct (ids s') = distinct (ids s)" "set (ids s') = set (ids s)"
    using mset_eq_imp_distinct_iff mset_eq_setD by blast+
  then show ?thesis using assms(1) unfolding shortlist_ok_def by metis
qed

lemma shortlist_sorted_strict:
  assumes "shortlist_ok t k L s" and "wf_id t" and "sorted (map (\<lambda>p. xorDistance t (ID p)) s)"
  shows "sorted_wrt (<) (map (\<lambda>p. xorDistance t (ID p)) s)"
proof -
  have "distinct (ids s)" using assms(1) by (simp add: shortlist_ok_def)
  from xor.strictly_sorted [OF assms(2) shortlist_ok_wf [OF assms(1)] this]
  show ?thesis using sorted_sort_id [of "map (\<lambda>p. xorDistance t (ID p)) s"] assms(3)
    by (simp add: sort_key_id_if_sorted)
qed

lemma shortlist_ok_take:
  assumes "shortlist_ok t k L s" and "wf_id t" and "sorted (map (\<lambda>p. xorDistance t (ID p)) s)"
    and "k \<le> n"
  shows "shortlist_ok t k L (take n s)"
proof -
  let ?d = "xorDistance t"
  have ok: "distinct (ids s)" "set (ids s) \<subseteq> L" "finite L" "\<forall>i \<in> L. wf_id i"
    "lowest k (?d ` set (ids s)) = lowest k (?d ` L)"
    using assms(1) unfolding shortlist_ok_def by blast+
  have img: "?d ` set (ids xs) = set (map (\<lambda>p. ?d (ID p)) xs)" for xs by auto
  have "?d ` set (ids (take n s)) = lowest n (?d ` set (ids s))"
    unfolding img unfolding take_map [symmetric] by (rule lowest_sorted [OF shortlist_sorted_strict [OF assms(1-3)], symmetric])
  then have "lowest k (?d ` set (ids (take n s))) = lowest k (?d ` L)"
    using ok(5) lowest_lowest [OF _ assms(4), of "?d ` set (ids s)"] by simp
  moreover have "set (ids (take n s)) \<subseteq> L" using ok(2) by (auto dest: in_set_takeD)
  moreover have "distinct (ids (take n s))" using ok(1) by (simp add: take_map [symmetric])
  ultimately show ?thesis using ok(3,4) unfolding shortlist_ok_def by blast
qed

text \<open>The first \<open>k\<close> peers of a sorted shortlist are the \<open>k\<close> closest learned identifiers.\<close>

lemma shortlist_closest:
  assumes "shortlist_ok t k L s" and "wf_id t" and "sorted (map (\<lambda>p. xorDistance t (ID p)) s)"
  shows "set (ids (take k s)) = {i \<in> L. card {j \<in> L. xorDistance t j < xorDistance t i} < k}"
proof -
  let ?d = "xorDistance t"
  have ok: "set (ids s) \<subseteq> L" "\<forall>i \<in> L. wf_id i" "lowest k (?d ` set (ids s)) = lowest k (?d ` L)"
    using assms(1) unfolding shortlist_ok_def by blast+
  have inj: "inj_on ?d L" using xor.dist_inj assms(2) ok(2) by (intro inj_onI) blast
  have below: "card {y \<in> ?d ` L. y < ?d i} = card {j \<in> L. ?d j < ?d i}" for i
  proof -
    have "{y \<in> ?d ` L. y < ?d i} = ?d ` {j \<in> L. ?d j < ?d i}" by auto
    then show ?thesis using inj by (simp add: card_image inj_on_subset)
  qed
  have img: "?d ` set (ids xs) = set (map (\<lambda>p. ?d (ID p)) xs)" for xs by auto
  have "?d ` set (ids (take k s)) = lowest k (?d ` set (ids s))"
    unfolding img unfolding take_map [symmetric] by (rule lowest_sorted [OF shortlist_sorted_strict [OF assms], symmetric])
  also have "\<dots> = lowest k (?d ` L)" by (rule ok(3))
  also have "\<dots> = ?d ` {i \<in> L. card {j \<in> L. ?d j < ?d i} < k}"
    unfolding lowest_def using below by auto
  finally have "?d ` set (ids (take k s)) = ?d ` {i \<in> L. card {j \<in> L. ?d j < ?d i} < k}" .
  moreover have "set (ids (take k s)) \<subseteq> L" using ok(1) by (auto dest: in_set_takeD)
  ultimately show ?thesis using inj by (simp add: inj_on_image_eq_iff)
qed

lemma shortlist_ok_closest:
  assumes "rt_ok rt" and "wf_id t"
  shows "shortlist_ok t (nat k) (set (ids (allPeers rt))) (GetClosestPeers rt t k)"
proof -
  let ?s = "sort_key (\<lambda>p. xorDistance t (ID p)) (allPeers rt)"
  have "shortlist_ok t (nat k) (set (ids (allPeers rt))) (allPeers rt)"
    using distinct_allPeers [OF assms(1)] allPeers_wf [OF assms(1)] by (simp add: shortlist_ok_def)
  then have "shortlist_ok t (nat k) (set (ids (allPeers rt))) ?s" by (rule shortlist_ok_perm) simp
  then show ?thesis unfolding GetClosestPeers_eq
    by (rule shortlist_ok_take [OF _ assms(2)]) (rule sorted_sort_key, simp)
qed

subsection \<open>The lookup and its environment\<close>

text \<open>The identifiers that were asked, and those that the answers made known.\<close>

type_synonym history = "(Peer \<times> (string + Peer list)) list"

definition asked :: "history \<Rightarrow> NodeID list" where
  "asked h = map (\<lambda>(p, _). ID p) h"

definition heard :: "history \<Rightarrow> NodeID set" where
  "heard h = (\<Union>(p, r) \<in> set h. case r of Inl _ \<Rightarrow> {} | Inr ps \<Rightarrow> set (ids ps) - {zeroID})"

lemma asked_append [simp]: "asked (h @ h') = asked h @ asked h'"
  by (simp add: asked_def)

lemma asked_simps [simp]: "asked [] = []" "asked ((p, r) # h) = ID p # asked h"
  by (simp_all add: asked_def)

lemma length_asked [simp]: "length (asked h) = length h"
  by (simp add: asked_def)

lemma heard_append [simp]: "heard (h @ h') = heard h \<union> heard h'"
  unfolding heard_def by (simp only: set_append UN_Un)

lemma heard_simps [simp]:
  "heard [] = {}" "heard [(p, Inl e)] = {}" "heard [(p, Inr ps)] = set (ids ps) - {zeroID}"
  by (simp_all add: heard_def)

text \<open>The state of the search between two rounds, after the requests in \<open>h\<close>.\<close>

definition search_ok :: "NodeID \<Rightarrow> nat \<Rightarrow> NodeID set \<Rightarrow> history \<Rightarrow> NodeID set \<Rightarrow> Peer list \<Rightarrow> bool" where
  "search_ok t k A h q s \<longleftrightarrow> shortlist_ok t k (A \<union> heard h) s \<and>
     sorted (map (\<lambda>p. xorDistance t (ID p)) s) \<and>
     q = set (asked h) \<and> distinct (asked h) \<and> q \<subseteq> A \<union> heard h"

text \<open>
  Requests in rounds: each round makes between one and \<open>a\<close> requests, to peers that are in \<open>L\<close> or that the answers of earlier rounds have named.
\<close>

fun rounds_ok :: "nat \<Rightarrow> NodeID set \<Rightarrow> history list \<Rightarrow> bool" where
  "rounds_ok a L [] \<longleftrightarrow> True"
| "rounds_ok a L (b # bs) \<longleftrightarrow> 0 < length b \<and> length b \<le> a \<and> set (asked b) \<subseteq> L \<and> rounds_ok a (L \<union> heard b) bs"

text \<open>
  What the lookup relies on: requests can be observed (their history only grows, by the request
  and its answer), and in the states \<open>ok\<close>, which requests preserve, the identifiers in an answer
  have the length of an identifier.
\<close>

locale node_requests =
  fixes requester :: "'w FindNodeRequester"
    and hist :: "'w \<Rightarrow> history"
    and ok :: "'w \<Rightarrow> bool"
  assumes hist_request: "hist (fst (requester w p t)) = hist w @ [(p, snd (requester w p t))]"
    and ok_request: "ok w \<Longrightarrow> ok (fst (requester w p t))"
    and request_wf: "ok w \<Longrightarrow> snd (requester w p t) = Inr r \<Longrightarrow> \<forall>q \<in> set r. wf_id (ID q)"
begin

lemma hist_cases:
  "requester w p t = (w', Inl e) \<Longrightarrow> hist w' = hist w @ [(p, Inl e)]"
  "requester w p t = (w', Inr r) \<Longrightarrow> ok w \<Longrightarrow> hist w' = hist w @ [(p, Inr r)] \<and> (\<forall>q \<in> set r. wf_id (ID q))"
  using hist_request [of w p t] request_wf [of w p t r] by simp_all

lemma queryBatch_hist:
  "queryBatch order requester t w q s b = (w', q', s') \<Longrightarrow>
     \<exists>h. hist w' = hist w @ h \<and> asked h = ids b \<and> q' = q \<union> set (ids b)"
proof (induction b arbitrary: w q s)
  case (Cons p b)
  obtain v r where req: "requester w p t = (v, r)" by fastforce
  obtain s2 where "queryBatch order requester t v (insert (ID p) q) s2 b = (w', q', s')"
    using Cons.prems req by (cases r) auto
  from Cons.IH [OF this] obtain h where
    h: "hist w' = hist v @ h" "asked h = ids b" "q' = insert (ID p) q \<union> set (ids b)" by blast
  have "hist v = hist w @ [(p, r)]" using hist_request [of w p t] req by simp
  with h show ?case by (intro exI [of _ "(p, r) # h"]) simp
qed simp

lemma queryBatch_ok:
  "ok w \<Longrightarrow> shortlist_ok t k (A \<union> heard (hist w)) s \<Longrightarrow>
     queryBatch order requester t w q s b = (w', q', s') \<Longrightarrow>
     ok w' \<and> shortlist_ok t k (A \<union> heard (hist w')) s'"
proof (induction b arbitrary: w q s)
  case (Cons p b)
  obtain v r where req: "requester w p t = (v, r)" by fastforce
  have "ok v" using ok_request [OF Cons.prems(1), of p t] req by simp
  show ?case
  proof (cases r)
    case (Inl e)
    then have "heard (hist v) = heard (hist w)" using hist_cases(1) req by simp
    then show ?thesis using Cons.IH [of v s "insert (ID p) q"] Cons.prems req Inl \<open>ok v\<close> by simp
  next
    case (Inr ps)
    then have v: "heard (hist v) = heard (hist w) \<union> (set (ids ps) - {zeroID})" "\<forall>q \<in> set ps. wf_id (ID q)"
      using hist_cases(2) [of w p t v ps] req Cons.prems(1) by simp_all
    have "shortlist_ok t k (A \<union> heard (hist v)) (mergePeers (order v) s ps)"
      unfolding v(1) Un_assoc [symmetric] by (rule shortlist_ok_merge [OF Cons.prems(2) v(2)])
    then show ?thesis using Cons.IH [OF \<open>ok v\<close>] Cons.prems(3) req Inr by simp
  qed
qed simp

lemma round_ok:
  assumes "ok w" and ok: "search_ok t (nat k) A (hist w) q s" and "wf_id t" and "0 < k" and "0 < alpha"
    and batch: "queryBatch order requester t w q s (nextUnqueried s q alpha) = (w', q', m)"
  shows "search_ok t (nat k) A (hist w') q' (trimPeers (sortPeersByDistance t m) (candidateLimit k alpha))"
    and "ok w'"
    and "length (hist w') = length (hist w) + length (nextUnqueried s q alpha)"
proof -
  let ?b = "nextUnqueried s q alpha" and ?m = "sortPeersByDistance t m"
  obtain h where h: "hist w' = hist w @ h" "asked h = ids ?b" "q' = q \<union> set (ids ?b)"
    using queryBatch_hist [OF batch] by blast
  show "length (hist w') = length (hist w) + length ?b"
    using h(1,2) length_asked [of h] by simp
  have s: "shortlist_ok t (nat k) (A \<union> heard (hist w)) s" "q = set (asked (hist w))"
    "distinct (asked (hist w))" "q \<subseteq> A \<union> heard (hist w)" "distinct (ids s)" "set (ids s) \<subseteq> A \<union> heard (hist w)"
    using ok unfolding search_ok_def shortlist_ok_def by blast+
  note b = nextUnqueried_batch [OF assms(5) s(5), of q]
  note merged = queryBatch_ok [OF assms(1) s(1) batch]
  then show "ok w'" ..
  have "shortlist_ok t (nat k) (A \<union> heard (hist w')) m" using merged ..
  then have "shortlist_ok t (nat k) (A \<union> heard (hist w')) ?m"
    by (rule shortlist_ok_perm) (simp add: sortPeersByDistance_eq)
  moreover have sorted: "sorted (map (\<lambda>p. xorDistance t (ID p)) ?m)" by (simp add: sortPeersByDistance_eq)
  ultimately have "shortlist_ok t (nat k) (A \<union> heard (hist w')) (take (nat (candidateLimit k alpha)) ?m)"
    by (rule shortlist_ok_take [OF _ assms(3)]) (simp add: candidateLimit_ge nat_mono)
  moreover have "sorted (map (\<lambda>p. xorDistance t (ID p)) (take (nat (candidateLimit k alpha)) ?m))"
    unfolding take_map [symmetric] by (rule sorted_wrt_take [OF sorted])
  moreover have "0 < candidateLimit k alpha" using candidateLimit_ge [of k alpha] assms(4) by linarith
  moreover have "distinct (asked (hist w'))" using h s(2,3) b(2,3) by auto
  moreover have "q' = set (asked (hist w'))" using h s(2) by simp
  moreover have "q' \<subseteq> A \<union> heard (hist w')" using h b(1) s(4,6) by auto
  ultimately show "search_ok t (nat k) A (hist w') q' (trimPeers ?m (candidateLimit k alpha))"
    unfolding search_ok_def by (simp add: trimPeers_eq)
qed

lemma findRounds_ok:
  assumes "wf_id t" and "0 < k" and "0 < alpha"
  shows "ok w \<Longrightarrow> search_ok t (nat k) A (hist w) q s \<Longrightarrow>
    findRounds ctx order requester t k alpha n w q s = (w', q', r) \<Longrightarrow>
    ok w' \<and> (\<exists>s'. search_ok t (nat k) A (hist w') q' s' \<and>
       (r = Inr s' \<and> (set (ids s') \<subseteq> q' \<or> length (hist w) + n \<le> length (hist w')) \<or>
        (\<exists>e. r = Inl (ErrContext e)))) \<and>
    length (hist w') \<le> length (hist w) + n * nat alpha"
proof (induction n arbitrary: w q s)
  case (Suc n)
  let ?b = "nextUnqueried s q alpha"
  have s: "distinct (ids s)" using Suc.prems(2) unfolding search_ok_def shortlist_ok_def by blast
  note b = nextUnqueried_batch [OF assms(3) s, of q]
  show ?case
  proof (cases "ctx w = None \<and> ?b \<noteq> []")
    case False
    then consider e where "ctx w = Some e" | "ctx w = None" "?b = []" by (cases "ctx w") auto
    then show ?thesis
      by cases (use Suc.prems b(5) in \<open>auto simp: Let_def\<close>)
  next
    case True
    obtain v q2 m where batch: "queryBatch order requester t w q s ?b = (v, q2, m)"
      using prod_cases3 by blast
    note step = round_ok [OF Suc.prems(1,2) assms batch]
    have "findRounds ctx order requester t k alpha n v q2
        (trimPeers (sortPeersByDistance t m) (candidateLimit k alpha)) = (w', q', r)"
      using Suc.prems(3) True batch by (simp add: Let_def)
    from Suc.IH [OF step(2,1) this] obtain s' where "ok w'" and IH: "search_ok t (nat k) A (hist w') q' s'"
      "r = Inr s' \<and> (set (ids s') \<subseteq> q' \<or> length (hist v) + n \<le> length (hist w')) \<or>
        (\<exists>e. r = Inl (ErrContext e))"
      "length (hist w') \<le> length (hist v) + n * nat alpha"
      by blast
    have "length (hist v) \<le> length (hist w) + nat alpha" using b(4) step(3) by linarith
    then have "length (hist w') \<le> length (hist w) + Suc n * nat alpha" using IH(3) by simp
    moreover have "length (hist w) + Suc n \<le> length (hist v) + n" using True step(3) by (cases ?b) simp_all
    then have "length (hist v) + n \<le> length (hist w') \<Longrightarrow> length (hist w) + Suc n \<le> length (hist w')"
      by (rule order_trans)
    ultimately show ?thesis using IH(1,2) \<open>ok w'\<close> by blast
  qed
qed (auto simp: search_ok_def)

lemma findRounds_rounds:
  assumes "wf_id t" and "0 < k" and "0 < alpha"
  shows "ok w \<Longrightarrow> search_ok t (nat k) A (hist w) q s \<Longrightarrow>
    findRounds ctx order requester t k alpha n w q s = (w', q', r) \<Longrightarrow>
    \<exists>bs. hist w' = hist w @ concat bs \<and> length bs \<le> n \<and> rounds_ok (nat alpha) (A \<union> heard (hist w)) bs"
proof (induction n arbitrary: w q s)
  case (Suc n)
  let ?b = "nextUnqueried s q alpha"
  have s: "distinct (ids s)" "set (ids s) \<subseteq> A \<union> heard (hist w)" using Suc.prems(2) unfolding search_ok_def shortlist_ok_def by blast+
  note b = nextUnqueried_batch [OF assms(3) s(1), of q]
  show ?case
  proof (cases "ctx w = None \<and> ?b \<noteq> []")
    case False
    then have "w' = w" using Suc.prems(3) by (cases "ctx w") (auto simp: Let_def)
    then show ?thesis by (intro exI [of _ "[]"]) simp
  next
    case True
    obtain v q2 m where batch: "queryBatch order requester t w q s ?b = (v, q2, m)"
      using prod_cases3 by blast
    note step = round_ok [OF Suc.prems(1,2) assms batch]
    obtain h where h: "hist v = hist w @ h" "asked h = ids ?b" using queryBatch_hist [OF batch] by blast
    have "findRounds ctx order requester t k alpha n v q2
        (trimPeers (sortPeersByDistance t m) (candidateLimit k alpha)) = (w', q', r)"
      using Suc.prems(3) True batch by (simp add: Let_def)
    from Suc.IH [OF step(2,1) this] obtain bs where
      bs: "hist w' = hist v @ concat bs" "length bs \<le> n" "rounds_ok (nat alpha) (A \<union> heard (hist v)) bs" by blast
    have "length h = length ?b" using h(2) length_asked [of h] by simp
    then have "0 < length h" "length h \<le> nat alpha" using True b(4) by simp_all
    moreover have "set (asked h) \<subseteq> A \<union> heard (hist w)" unfolding h(2) using b(1) s(2) by auto
    ultimately show ?thesis using bs h(1) by (intro exI [of _ "h # bs"]) (simp add: Un_assoc)
  qed
qed (auto intro: exI [of _ "[]"])

end

text \<open>A lookup is given up only when the context is done, with its error.\<close>

lemma findRounds_context:
  "findRounds ctx order requester t k alpha n w q s = (w', q', Inl e) \<Longrightarrow> \<exists>c. e = ErrContext c \<and> ctx w' = Some c"
  by (induction n arbitrary: w q s) (auto simp: Let_def split: option.splits if_splits prod.splits)

text \<open>
  Any requester can be observed: the wrapped one also writes down its requests, and the lookup
  does with it what it does with the plain one.
\<close>

definition logged :: "('w \<Rightarrow> Peer \<Rightarrow> 'a \<Rightarrow> 'w \<times> 'r) \<Rightarrow>
    'w \<times> (Peer \<times> 'r) list \<Rightarrow> Peer \<Rightarrow> 'a \<Rightarrow> ('w \<times> (Peer \<times> 'r) list) \<times> 'r" where
  "logged requester s p t = (let (w', r) = requester (fst s) p t in ((w', snd s @ [(p, r)]), r))"

definition answers_wf :: "('w \<Rightarrow> bool) \<Rightarrow> 'w FindNodeRequester \<Rightarrow> bool" where
  "answers_wf ok requester \<longleftrightarrow>
     (\<forall>w p t. ok w \<longrightarrow> ok (fst (requester w p t)) \<and>
        (\<forall>r. snd (requester w p t) = Inr r \<longrightarrow> (\<forall>q \<in> set r. wf_id (ID q))))"

lemma answers_wfD:
  assumes "answers_wf ok requester" and "ok w" and "requester w p t = (w', r)"
  shows "ok w'" and "r = Inr ps \<Longrightarrow> \<forall>q \<in> set ps. wf_id (ID q)"
  using assms unfolding answers_wf_def by (metis fst_conv, metis snd_conv)

lemma logged_requests:
  assumes "answers_wf ok requester"
  shows "node_requests (logged requester) snd (ok \<circ> fst)"
proof
  fix s :: "'a \<times> history" and p t
  obtain w' r where req: "requester (fst s) p t = (w', r)" by fastforce
  show "snd (fst (logged requester s p t)) = snd s @ [(p, snd (logged requester s p t))]"
    by (simp add: logged_def req)
  assume "(ok \<circ> fst) s"
  then have "ok (fst s)" by simp
  note ans = answers_wfD [OF assms this req]
  show "(ok \<circ> fst) (fst (logged requester s p t))" using ans(1) by (simp add: logged_def req)
  show "\<forall>q \<in> set ps. wf_id (ID q)" if "snd (logged requester s p t) = Inr ps" for ps
    using ans(2) that by (simp add: logged_def req)
qed

lemma queryBatch_logged:
  "queryBatch (order \<circ> fst) (logged requester) t (w, h) q s b = ((w', h'), q', s') \<Longrightarrow>
     queryBatch order requester t w q s b = (w', q', s')"
proof (induction b arbitrary: w h q s)
  case (Cons p b)
  obtain v r where req: "requester w p t = (v, r)" by fastforce
  then show ?case using Cons by (cases r) (auto simp: logged_def)
qed simp

lemma findRounds_logged:
  "findRounds (ctx \<circ> fst) (order \<circ> fst) (logged requester) t k alpha n (w, h) q s = ((w', h'), q', r) \<Longrightarrow>
     findRounds ctx order requester t k alpha n w q s = (w', q', r)"
proof (induction n arbitrary: w h q s)
  case (Suc n)
  let ?b = "nextUnqueried s q alpha"
  obtain v h2 q2 m where batch:
    "queryBatch (order \<circ> fst) (logged requester) t (w, h) q s ?b = ((v, h2), q2, m)"
    by (metis prod.collapse)
  show ?case
  proof (cases "ctx w")
    case None
    then show ?thesis
      using Suc queryBatch_logged [OF batch] batch by (cases "?b = []") (auto simp: Let_def comp_def)
  next
    case (Some e)
    then show ?thesis using Suc.prems by simp
  qed
qed simp

lemma IterativeFindNode_logged:
  assumes "IterativeFindNode ctx order rt (Some requester) t opts w = (w', r)"
  obtains h where "IterativeFindNode (ctx \<circ> fst) (order \<circ> fst) rt (Some (logged requester)) t opts (w, []) =
    ((w', h), r)"
proof -
  obtain v h r' where run:
    "IterativeFindNode (ctx \<circ> fst) (order \<circ> fst) rt (Some (logged requester)) t opts (w, []) = ((v, h), r')"
    by (metis prod.collapse)
  have "IterativeFindNode ctx order rt (Some requester) t opts w = (v, r')"
  proof (cases rt)
    case None
    then show ?thesis using run by (simp add: IterativeFindNode_def)
  next
    case (Some table)
    obtain k alpha maxRounds where opts: "normalizeFindNodeOptions opts = (k, alpha, maxRounds)"
      using prod_cases3 by blast
    let ?s = "sortPeersByDistance t (GetClosestPeers table t k)"
    obtain v2 h2 q2 r2 where rounds: "findRounds (ctx \<circ> fst) (order \<circ> fst) (logged requester) t k alpha
        (nat maxRounds) (w, []) {} ?s = ((v2, h2), q2, r2)"
      by (metis prod.collapse)
    show ?thesis
      using run Some opts findRounds_logged [OF rounds] rounds
      by (auto simp: IterativeFindNode_def Let_def split: if_splits sum.splits)
  qed
  then show ?thesis using assms run that by simp
qed

text \<open>The lookup started from a routing table, seen through the history of its requests.\<close>

lemma IterativeFindNode_search:
  assumes "rt_ok rt" and "wf_id t" and "answers_wf ok requester" and "ok w"
    and opts: "normalizeFindNodeOptions opts = (k, alpha, maxRounds)"
    and run: "IterativeFindNode (ctx \<circ> fst) (order \<circ> fst) (Some rt) (Some (logged requester)) t opts (w, []) =
      ((w', h), r)"
  obtains (empty) "allPeers rt = []" and "r = Inl ErrNoClosePeers" and "h = []"
  | (cancelled) e bs where "r = Inl (ErrContext e)" and "ctx w' = Some e" and "distinct (asked h)"
      and "h = concat bs" and "length bs \<le> nat maxRounds" and "rounds_ok (nat alpha) (set (ids (allPeers rt))) bs"
  | (found) s bs where "r = Inr (take (nat k) s)" and "allPeers rt \<noteq> []"
      and "search_ok t (nat k) (set (ids (allPeers rt))) h (set (asked h)) s"
      and "set (ids s) \<subseteq> set (asked h) \<or> nat maxRounds \<le> length h"
      and "h = concat bs" and "length bs \<le> nat maxRounds" and "rounds_ok (nat alpha) (set (ids (allPeers rt))) bs"
proof -
  let ?A = "set (ids (allPeers rt))"
  let ?s = "sortPeersByDistance t (GetClosestPeers rt t k)"
  have pos: "0 < k" "0 < alpha" "0 < maxRounds" using normalize_positive [OF opts] by simp_all
  have ne: "GetClosestPeers rt t k = [] \<longleftrightarrow> allPeers rt = []"
    using pos(1) by (simp add: GetClosestPeers_eq) (metis set_empty set_sort)
  show ?thesis
  proof (cases "allPeers rt = []")
    case True
    then show ?thesis using run opts ne by (intro empty) (auto simp: IterativeFindNode_def)
  next
    case False
    have "shortlist_ok t (nat k) (?A \<union> heard []) ?s"
      using shortlist_ok_perm [OF shortlist_ok_closest [OF assms(1,2)], of ?s k]
      by (simp add: sortPeersByDistance_eq)
    then have init: "search_ok t (nat k) ?A (snd (w, [])) {} ?s"
      unfolding search_ok_def by (simp add: sortPeersByDistance_eq)
    obtain v h2 q2 r2 where rounds: "findRounds (ctx \<circ> fst) (order \<circ> fst) (logged requester) t k alpha
        (nat maxRounds) (w, []) {} ?s = ((v, h2), q2, r2)"
      by (metis prod.collapse)
    note fin = node_requests.findRounds_ok [OF logged_requests [OF assms(3)] assms(2) pos(1,2) _ init rounds,
      unfolded snd_conv]
    have "(ok \<circ> fst) (w, [])" using assms(4) by simp
    from fin [OF this] obtain s where s: "search_ok t (nat k) ?A h2 q2 s"
      "r2 = Inr s \<and> (set (ids s) \<subseteq> q2 \<or> nat maxRounds \<le> length h2) \<or> (\<exists>e. r2 = Inl (ErrContext e))"
      by auto
    obtain bs where bs: "h2 = concat bs" "length bs \<le> nat maxRounds" "rounds_ok (nat alpha) ?A bs"
      using node_requests.findRounds_rounds [OF logged_requests [OF assms(3)] assms(2) pos(1,2) _ init rounds] \<open>(ok \<circ> fst) (w, [])\<close> by auto
    have q2: "q2 = set (asked h2)" "distinct (asked h2)" using s(1) unfolding search_ok_def by auto
    show ?thesis
    proof (cases r2)
      case (Inl e)
      obtain c where c: "e = ErrContext c" "ctx v = Some c" using findRounds_context [OF rounds [unfolded Inl]] by auto
      have "h = h2" "r = Inl e" "w' = v" using run opts rounds ne False Inl by (auto simp: IterativeFindNode_def)
      then show ?thesis using cancelled [of c bs] q2(2) bs c by simp
    next
      case (Inr s')
      then have "h = h2" "r = Inr (take (nat k) s)"
        using run opts rounds ne False s(2) pos(1) by (auto simp: IterativeFindNode_def trimPeers_eq)
      then show ?thesis using found [of s bs] False s Inr q2(1) bs by auto
    qed
  qed
qed

subsection \<open>Correctness of the lookup\<close>

text \<open>A concrete run: a table with one peer, which answers with no peers.\<close>

definition no_peers :: "unit FindNodeRequester" where
  "no_peers w p t = (w, Inr [])"

lemma answers_wf_no_peers: "answers_wf (\<lambda>_. True) no_peers"
  by (simp add: answers_wf_def no_peers_def)

lemma example_options: "normalizeFindNodeOptions \<lparr>K = 20, Alpha = 3, MaxRounds = 20\<rparr> = (20, 3, 20)"
  by (simp add: normalizeFindNodeOptions_def)

lemma example_lookup:
  "IterativeFindNode (\<lambda>_. None) (\<lambda>_. []) (Some (example_table 20)) (Some no_peers) zeroID
     \<lparr>K = 20, Alpha = 3, MaxRounds = 20\<rparr> () =
   ((), Inr [\<lparr>ID = 1 # replicate 19 0, Addr = ''a'', LastSeen = 7\<rparr>])"
proof -
  have two: "(20 :: nat) = Suc (Suc 18)" by simp
  have rounds: "findRounds (\<lambda>_. None) (\<lambda>_. []) no_peers zeroID 20 3 (Suc (Suc n)) () {} [p] =
      ((), {ID p}, Inr [p])" for n p
    by (simp add: no_peers_def nextUnqueried_def Let_def mergePeers_def sortPeersByDistance_eq trimPeers_def)
  have "findRounds (\<lambda>_. None) (\<lambda>_. []) no_peers zeroID 20 3 20 () {} [p] = ((), {ID p}, Inr [p])" for p
    using rounds [of 18 p] by (simp only: two)
  then show ?thesis
    by (simp add: IterativeFindNode_def example_options GetClosestPeers_eq allPeers_example Let_def
        sortPeersByDistance_eq trimPeers_def)
qed

lemma example_lookup_logged:
  "IterativeFindNode ((\<lambda>_. None) \<circ> fst) ((\<lambda>_. []) \<circ> fst) (Some (example_table 20)) (Some (logged no_peers)) zeroID
     \<lparr>K = 20, Alpha = 3, MaxRounds = 20\<rparr> ((), []) =
   (((), [(\<lparr>ID = 1 # replicate 19 0, Addr = ''a'', LastSeen = 7\<rparr>, Inr [])]),
    Inr [\<lparr>ID = 1 # replicate 19 0, Addr = ''a'', LastSeen = 7\<rparr>])"
proof -
  have two: "(20 :: nat) = Suc (Suc 18)" by simp
  have rounds: "findRounds (\<lambda>_. None) (\<lambda>_. []) (logged no_peers) zeroID 20 3 (Suc (Suc n)) ((), []) {} [p] =
      (((), [(p, Inr [])]), {ID p}, Inr [p])" for n p
    by (simp add: logged_def no_peers_def nextUnqueried_def Let_def mergePeers_def sortPeersByDistance_eq trimPeers_def)
  have "findRounds (\<lambda>_. None) (\<lambda>_. []) (logged no_peers) zeroID 20 3 20 ((), []) {} [p] =
      (((), [(p, Inr [])]), {ID p}, Inr [p])" for p
    using rounds [of 18 p] by (simp only: two)
  then show ?thesis
    by (simp add: IterativeFindNode_def example_options GetClosestPeers_eq allPeers_example Let_def
        sortPeersByDistance_eq trimPeers_def comp_def)
qed

text \<open>With enough rounds for the identifiers that became known, the whole shortlist was asked.\<close>

lemma search_converged:
  assumes "search_ok t k A h q s" and "set (ids s) \<subseteq> q \<or> n \<le> length h" and "card (A \<union> heard h) \<le> n"
  shows "set (ids s) \<subseteq> q"
proof (cases "n \<le> length h")
  case True
  have L: "finite (A \<union> heard h)" "set (ids s) \<subseteq> A \<union> heard h" "q \<subseteq> A \<union> heard h" "card q = length h"
    using assms(1) unfolding search_ok_def shortlist_ok_def by (auto simp: distinct_card)
  then have "card (A \<union> heard h) \<le> card q" using True assms(3) by linarith
  then have "q = A \<union> heard h" using L(1,3) by (intro card_seteq) auto
  then show ?thesis using L(2) by simp
qed (use assms(2) in simp)

lemma shortlist_nonempty:
  assumes "shortlist_ok t k L s" and "0 < k" and "L \<noteq> {}"
  shows "s \<noteq> []"
proof
  assume "s = []"
  then have "lowest k (xorDistance t ` L) = {}" using assms(1) by (simp add: shortlist_ok_def lowest_def)
  moreover have fin: "finite (xorDistance t ` L)" "xorDistance t ` L \<noteq> {}"
    using assms by (auto simp: shortlist_ok_def)
  have none: "{y \<in> D. y < Min D} = {}" if "finite D" for D :: "nat set" using that by (auto simp: not_less)
  have "Min (xorDistance t ` L) \<in> lowest k (xorDistance t ` L)"
    unfolding lowest_def mem_Collect_eq none [OF fin(1)] using Min_in [OF fin] assms(2) by simp
  ultimately show False by simp
qed

text \<open>
  C10: the lookup is exact for what it could know. It returns, in strictly increasing distance
  from the target, the \<open>k\<close> closest identifiers among those in the routing table and those in the
  answers it received: an identifier is returned iff fewer than \<open>k\<close> known identifiers are closer.
  The trimming of the candidates between rounds never loses one of them.
\<close>

theorem IterativeFindNode_exact:
  assumes "rt_ok rt" and "wf_id t" and "answers_wf ok requester" and "ok w"
    and "normalizeFindNodeOptions opts = (k, alpha, maxRounds)"
    and "IterativeFindNode ctx order (Some rt) (Some requester) t opts w = (w', Inr ps)"
  shows "\<exists>h. IterativeFindNode (ctx \<circ> fst) (order \<circ> fst) (Some rt) (Some (logged requester)) t opts (w, []) =
      ((w', h), Inr ps) \<and>
    sorted_wrt (<) (map (\<lambda>p. xorDistance t (ID p)) ps) \<and>
    (let known = set (ids (allPeers rt)) \<union> heard h
     in set (ids ps) = {i \<in> known. card {j \<in> known. xorDistance t j < xorDistance t i} < nat k})"
proof -
  obtain h where run: "IterativeFindNode (ctx \<circ> fst) (order \<circ> fst) (Some rt) (Some (logged requester)) t opts
      (w, []) = ((w', h), Inr ps)"
    using assms(6) by (rule IterativeFindNode_logged)
  from assms(1-5) run obtain s where
    s: "ps = take (nat k) s" "search_ok t (nat k) (set (ids (allPeers rt))) h (set (asked h)) s"
    by (rule IterativeFindNode_search) simp_all
  then have ok: "shortlist_ok t (nat k) (set (ids (allPeers rt)) \<union> heard h) s"
    "sorted (map (\<lambda>p. xorDistance t (ID p)) s)"
    by (simp_all add: search_ok_def)
  have "sorted_wrt (<) (map (\<lambda>p. xorDistance t (ID p)) ps)"
    unfolding s(1) take_map [symmetric]
    by (rule sorted_wrt_take [OF shortlist_sorted_strict [OF ok(1) assms(2) ok(2)]])
  then show ?thesis
    using run shortlist_closest [OF ok(1) assms(2) ok(2)] unfolding s(1) Let_def by blast
qed

theorem IterativeFindNode_exact_witness:
  "\<exists>h. IterativeFindNode ((\<lambda>_. None) \<circ> fst) ((\<lambda>_. []) \<circ> fst) (Some (example_table 20)) (Some (logged no_peers)) zeroID
     \<lparr>K = 20, Alpha = 3, MaxRounds = 20\<rparr> ((), []) =
     (((), h), Inr [\<lparr>ID = 1 # replicate 19 0, Addr = ''a'', LastSeen = 7\<rparr>])"
  using IterativeFindNode_exact [OF example_table_ok wf_zeroID answers_wf_no_peers TrueI example_options example_lookup]
  by blast

text \<open>
  C26: whatever its outcome, the lookup asks no peer twice. Its requests are made in at most \<open>maxRounds\<close> rounds of at least one and at
  most \<open>alpha\<close> requests each, and a round asks only peers that it knows from the routing table or from the
  answers of earlier rounds. It fails for lack of peers exactly when the routing table is empty, and
  otherwise only with the error of a context that is done when it returns.
\<close>

theorem IterativeFindNode_asks:
  assumes "rt_ok rt" and "wf_id t" and "answers_wf ok requester" and "ok w"
    and "normalizeFindNodeOptions opts = (k, alpha, maxRounds)"
  shows "\<exists>w' h r. IterativeFindNode (ctx \<circ> fst) (order \<circ> fst) (Some rt) (Some (logged requester)) t opts (w, []) =
      ((w', h), r) \<and>
    distinct (asked h) \<and>
    (\<exists>rounds. h = concat rounds \<and> int (length rounds) \<le> maxRounds \<and> rounds_ok (nat alpha) (set (ids (allPeers rt))) rounds) \<and>
    (r = Inl ErrNoClosePeers \<longleftrightarrow> allPeers rt = []) \<and>
    (\<forall>e. r = Inl e \<longrightarrow> e = ErrNoClosePeers \<or> (\<exists>c. e = ErrContext c \<and> ctx w' = Some c))"
proof -
  obtain w' h r where run: "IterativeFindNode (ctx \<circ> fst) (order \<circ> fst) (Some rt) (Some (logged requester)) t opts
      (w, []) = ((w', h), r)"
    by (metis prod.collapse)
  have pos: "0 < maxRounds" using normalize_positive [OF assms(5)] by simp
  from assms run have "distinct (asked h) \<and>
    (\<exists>rounds. h = concat rounds \<and> int (length rounds) \<le> maxRounds \<and> rounds_ok (nat alpha) (set (ids (allPeers rt))) rounds) \<and>
    (r = Inl ErrNoClosePeers \<longleftrightarrow> allPeers rt = []) \<and>
    (\<forall>e. r = Inl e \<longrightarrow> e = ErrNoClosePeers \<or> (\<exists>c. e = ErrContext c \<and> ctx w' = Some c))"
  proof (cases rule: IterativeFindNode_search)
    case empty
    then show ?thesis using pos by (simp add: exI [of _ "[]"])
  next
    case (cancelled e bs)
    moreover have "allPeers rt \<noteq> []"
    proof
      assume "allPeers rt = []"
      then have "r = Inl ErrNoClosePeers"
        using run assms(5) by (simp add: IterativeFindNode_def GetClosestPeers_def Let_def)
      then show False using cancelled by simp
    qed
    moreover have "int (length bs) \<le> maxRounds" using cancelled(5) pos by linarith
    ultimately show ?thesis by auto
  next
    case (found s bs)
    moreover have "int (length bs) \<le> maxRounds" using found(6) pos by linarith
    ultimately show ?thesis unfolding search_ok_def by auto
  qed
  then show ?thesis using run by blast
qed

theorem IterativeFindNode_asks_witness:
  "\<exists>w' h r. IterativeFindNode ((\<lambda>_. None) \<circ> fst) ((\<lambda>_. []) \<circ> fst) (Some (example_table 20)) (Some (logged no_peers)) zeroID
     \<lparr>K = 20, Alpha = 3, MaxRounds = 20\<rparr> ((), []) = ((w', h), r) \<and> distinct (asked h)"
  using IterativeFindNode_asks [OF example_table_ok wf_zeroID answers_wf_no_peers TrueI example_options] by blast

text \<open>
  C25: the lookup converges. If the identifiers that became known are no more than the rounds
  allowed, then every returned peer was itself asked for the target.
\<close>

theorem IterativeFindNode_converges:
  assumes "rt_ok rt" and "wf_id t" and "answers_wf ok requester" and "ok w"
    and "normalizeFindNodeOptions opts = (k, alpha, maxRounds)"
    and "IterativeFindNode (ctx \<circ> fst) (order \<circ> fst) (Some rt) (Some (logged requester)) t opts (w, []) =
      ((w', h), Inr ps)"
    and "int (card (set (ids (allPeers rt)) \<union> heard h)) \<le> maxRounds"
  shows "set (ids ps) \<subseteq> set (asked h)"
proof -
  from assms(1-6) obtain s where s: "ps = take (nat k) s"
    "search_ok t (nat k) (set (ids (allPeers rt))) h (set (asked h)) s"
    "set (ids s) \<subseteq> set (asked h) \<or> nat maxRounds \<le> length h"
    by (rule IterativeFindNode_search) simp_all
  have "set (ids s) \<subseteq> set (asked h)"
    by (rule search_converged [OF s(2,3)]) (use assms(7) in linarith)
  then show ?thesis unfolding s(1) by (auto dest: in_set_takeD)
qed

theorem IterativeFindNode_converges_witness:
  "set (ids [\<lparr>ID = 1 # replicate 19 0, Addr = ''a'', LastSeen = 7\<rparr>]) \<subseteq>
   set (asked [(\<lparr>ID = 1 # replicate 19 0, Addr = ''a'', LastSeen = 7\<rparr>, Inr [])])"
  by (rule IterativeFindNode_converges [OF example_table_ok wf_zeroID answers_wf_no_peers TrueI example_options
        example_lookup_logged]) (simp add: allPeers_example)

text \<open>The order of iteration of the map does not matter: the sorting removes it.\<close>

lemma mset_seen_put:
  "distinct (ids s) \<Longrightarrow> mset (seen_put s p) = add_mset p (mset (without (ID p) s))"
proof (induction s)
  case (Cons a s)
  have "without (ID p) s = s" if "ID p \<notin> set (ids s)"
    using that by (intro filter_True) (metis imageI list.set_map)
  then show ?case using Cons by (cases "ID a = ID p") (simp_all del: mset_filter)
qed simp

lemma mset_foldl_seen_put:
  "mset s = mset s' \<Longrightarrow> distinct (ids s) \<Longrightarrow> mset (foldl seen_put s ps) = mset (foldl seen_put s' ps)"
proof (induction ps arbitrary: s s')
  case (Cons p ps)
  have "distinct (ids s')"
    using Cons.prems mset_eq_imp_distinct_iff [of "ids s" "ids s'"] by simp
  then have "mset (seen_put s p) = mset (seen_put s' p)"
    using Cons.prems by (simp add: mset_seen_put)
  then show ?case using Cons.IH distinct_seen_put [OF Cons.prems(2)] by simp
qed simp

lemma queryBatch_order:
  assumes "answers_wf ok requester"
  shows "ok w \<Longrightarrow> mset s = mset s' \<Longrightarrow> distinct (ids s) \<Longrightarrow> \<forall>p \<in> set s. wf_id (ID p) \<Longrightarrow>
    queryBatch order requester t w q s b = (w1, q1, m) \<Longrightarrow>
    \<exists>m'. queryBatch order' requester t w q s' b = (w1, q1, m') \<and> ok w1 \<and> mset m = mset m' \<and>
      distinct (ids m) \<and> (\<forall>p \<in> set m. wf_id (ID p))"
proof (induction b arbitrary: w q s s')
  case (Cons p b)
  obtain v r where req: "requester w p t = (v, r)" by fastforce
  note ans = answers_wfD [OF assms Cons.prems(1) req]
  show ?case
  proof (cases r)
    case (Inl e)
    then show ?thesis using Cons req ans(1) by simp
  next
    case (Inr ps)
    have "distinct (ids s')" using Cons.prems mset_eq_imp_distinct_iff [of "ids s" "ids s'"] by simp
    then have "mset (mergePeers (order v) s ps) = mset (mergePeers (order' v) s' ps)"
      using mset_foldl_seen_put [OF Cons.prems(2,3)] Cons.prems(3) by (simp add: mergePeers_mset)
    then show ?thesis
      using Cons.IH [of v "mergePeers (order v) s ps" "mergePeers (order' v) s' ps" "insert (ID p) q"]
        mergePeers_props(2,3) [OF Cons.prems(3), of "order v" ps] Cons.prems(4,5) req Inr ans
      by auto
  qed
qed simp

lemma findRounds_order:
  assumes "answers_wf ok requester" and "wf_id t"
  shows "ok w \<Longrightarrow> distinct (ids s) \<Longrightarrow> \<forall>p \<in> set s. wf_id (ID p) \<Longrightarrow>
    findRounds ctx order requester t k alpha n w q s = findRounds ctx order' requester t k alpha n w q s"
proof (induction n arbitrary: w q s)
  case (Suc n)
  obtain w1 q1 m where batch:
    "queryBatch order requester t w q s (nextUnqueried s q alpha) = (w1, q1, m)" using prod_cases3 by blast
  obtain m' where m': "queryBatch order' requester t w q s (nextUnqueried s q alpha) = (w1, q1, m')"
    "ok w1" "mset m = mset m'" "distinct (ids m)" "\<forall>p \<in> set m. wf_id (ID p)"
    using queryBatch_order [OF assms(1) Suc.prems(1) refl Suc.prems(2,3) batch] by blast
  then have sort: "sortPeersByDistance t m = sortPeersByDistance t m'"
    unfolding sortPeersByDistance_eq by (intro xor.sort_perm assms(2))
  let ?s = "trimPeers (sortPeersByDistance t m) (candidateLimit k alpha)"
  have "distinct (ids (sortPeersByDistance t m))"
    unfolding sortPeersByDistance_eq
    using m'(4) mset_eq_imp_distinct_iff [of "ids (sort_key (\<lambda>p. xorDistance t (ID p)) m)" "ids m"] by simp
  then have "distinct (ids ?s)" by (auto simp: trimPeers_def take_map [symmetric])
  moreover have "set ?s \<subseteq> set m"
    by (auto simp: trimPeers_def sortPeersByDistance_eq dest: in_set_takeD)
  ultimately have "findRounds ctx order requester t k alpha n w1 q1 ?s = findRounds ctx order' requester t k alpha n w1 q1 ?s"
    using Suc.IH m'(2,5) by blast
  then show ?case using batch m'(1) sort by (simp add: Let_def split: option.split)
qed simp

lemma IterativeFindNode_order:
  assumes "rt_ok rt" and "wf_id t" and "answers_wf ok requester" and "ok w"
  shows "IterativeFindNode ctx order (Some rt) (Some requester) t opts w =
    IterativeFindNode ctx order' (Some rt) (Some requester) t opts w"
proof -
  obtain k alpha maxRounds where opts: "normalizeFindNodeOptions opts = (k, alpha, maxRounds)"
    using prod_cases3 by blast
  let ?s = "sortPeersByDistance t (GetClosestPeers rt t k)"
  have "shortlist_ok t (nat k) (set (ids (allPeers rt))) ?s"
    by (rule shortlist_ok_perm [OF shortlist_ok_closest [OF assms(1,2)]]) (simp add: sortPeersByDistance_eq)
  then have "distinct (ids ?s)" "\<forall>p \<in> set ?s. wf_id (ID p)"
    using shortlist_ok_wf by (auto simp: shortlist_ok_def)
  from findRounds_order [OF assms(3,2,4) this, where order = order and order' = order'] show ?thesis
    using opts by (simp add: IterativeFindNode_def Let_def)
qed

text \<open>
  C11: the lookup does not depend on the order in which Go iterates its maps: with any two
  choices of the order it makes the same requests and returns the same peers.
\<close>

theorem IterativeFindNode_order_independent:
  assumes "rt_ok rt" and "wf_id t" and "answers_wf ok requester" and "ok w"
  shows "IterativeFindNode ctx order (Some rt) (Some requester) t opts w =
    IterativeFindNode ctx order' (Some rt) (Some requester) t opts w"
  using assms by (rule IterativeFindNode_order)

theorem IterativeFindNode_order_independent_witness:
  "IterativeFindNode (\<lambda>_. None) (\<lambda>_. [3, 1]) (Some (example_table 20)) (Some no_peers) zeroID
     \<lparr>K = 20, Alpha = 3, MaxRounds = 20\<rparr> () =
   IterativeFindNode (\<lambda>_. None) (\<lambda>_. []) (Some (example_table 20)) (Some no_peers) zeroID
     \<lparr>K = 20, Alpha = 3, MaxRounds = 20\<rparr> ()"
  by (rule IterativeFindNode_order_independent [OF example_table_ok wf_zeroID answers_wf_no_peers TrueI])

text \<open>
  The number of candidates kept between rounds is a 64-bit integer that is at least \<open>k\<close>,
  even when the multiplications overflow, and is the larger of \<open>4 k\<close> and \<open>2 alpha\<close> when they do not.
\<close>

lemma candidateLimit_bounds:
  assumes "int64 k" and "0 < k" and "0 < alpha"
  shows "int64 (candidateLimit k alpha) \<and> k \<le> candidateLimit k alpha \<and>
    (int64 (k * 4) \<and> int64 (alpha * 2) \<longrightarrow> candidateLimit k alpha = max (k * 4) (alpha * 2))"
  using assms wrap64_range [of "k * 4"] wrap64_range [of "alpha * 2"]
  by (auto simp: candidateLimit_def Let_def)

end
