(* ===== verification/Store.thy ===== *)
theory Store
  imports Lookup
begin

text \<open>
  Local storage and the value operations of \<^verbatim>\<open>pkg/dht/store.go\<close>: the node with its
  routing table and its key-value map, the handlers of the three remote calls, the iterative
  search for a value and the iterative store. A locale states the contract of a key-value store,
  which the local storage of a node meets. The search for a value is related to the node lookup:
  until a value is found the two make the same requests.
\<close>

section \<open>Values in the table\<close>

record DhtNode =
  dn_peer :: Peer
  dn_rt :: RoutingTable
  dn_store :: "string \<rightharpoonup> byte list"

definition dht_NewNode :: "NodeID \<Rightarrow> string \<Rightarrow> int \<Rightarrow> DhtNode" where
  "dht_NewNode i addr n =
     \<lparr>dn_peer = \<lparr>ID = i, Addr = addr, LastSeen = 0\<rparr>, dn_rt = NewRoutingTable i n, dn_store = Map.empty\<rparr>"

definition StoreLocal :: "DhtNode \<Rightarrow> string \<Rightarrow> byte list \<Rightarrow> DhtNode" where
  "StoreLocal n key val =
     (let copyValue = copy_at (replicate (length val) 0) 0 val
      in n\<lparr>dn_store := (dn_store n)(key \<mapsto> copyValue)\<rparr>)"

definition FindValueLocal :: "DhtNode \<Rightarrow> string \<Rightarrow> byte list \<times> bool" where
  "FindValueLocal n key =
     (case dn_store n key of
        None \<Rightarrow> ([], False)
      | Some val \<Rightarrow> (copy_at (replicate (length val) 0) 0 val, True))"

text \<open>The context argument of a handler is the error of a context that is done.\<close>

definition HandleFindNode :: "string option \<Rightarrow> DhtNode \<Rightarrow> NodeID \<Rightarrow> int \<Rightarrow> string + Peer list" where
  "HandleFindNode ctx n target k =
     (case ctx of Some err \<Rightarrow> Inl err | None \<Rightarrow> Inr (GetClosestPeers (dn_rt n) target k))"

definition HandleStore :: "string option \<Rightarrow> DhtNode \<Rightarrow> string \<Rightarrow> byte list \<Rightarrow> DhtNode \<times> string option" where
  "HandleStore ctx n key val =
     (case ctx of Some err \<Rightarrow> (n, Some err) | None \<Rightarrow> (StoreLocal n key val, None))"

definition HandleFindValue :: "string option \<Rightarrow> DhtNode \<Rightarrow> string \<Rightarrow> int \<Rightarrow>
    string + byte list \<times> Peer list \<times> bool" where
  "HandleFindValue ctx n key k =
     (case ctx of
        Some err \<Rightarrow> Inl err
      | None \<Rightarrow>
          (case FindValueLocal n key of
             (val, True) \<Rightarrow> Inr (val, [], True)
           | (_, False) \<Rightarrow>
               let keyID = KeyToID key; ps = GetClosestPeers (dn_rt n) keyID k
               in Inr ([], ps, False)))"

type_synonym 'w FindValueRequester =
  "'w \<Rightarrow> Peer \<Rightarrow> string \<Rightarrow> 'w \<times> (string + byte list \<times> Peer list \<times> bool)"

type_synonym 'w StoreRequester = "'w \<Rightarrow> Peer \<Rightarrow> string \<Rightarrow> byte list \<Rightarrow> 'w \<times> string option"

subsection \<open>Iterative search for a value\<close>

text \<open>A batch either finds a value, which ends the search, or leaves a merged shortlist.\<close>

fun queryValueBatch :: "('w \<Rightarrow> nat list) \<Rightarrow> 'w FindValueRequester \<Rightarrow> string \<Rightarrow>
    'w \<Rightarrow> NodeID set \<Rightarrow> Peer list \<Rightarrow> Peer list \<Rightarrow> 'w \<times> NodeID set \<times> (byte list + Peer list)" where
  "queryValueBatch order requester key w queried shortlist [] = (w, queried, Inr shortlist)"
| "queryValueBatch order requester key w queried shortlist (peer # batch) =
     (let queried = insert (ID peer) queried
      in case requester w peer key of
           (w', Inl err) \<Rightarrow> queryValueBatch order requester key w' queried shortlist batch
         | (w', Inr (val, ps, found)) \<Rightarrow>
             if found then (w', queried, Inl val)
             else queryValueBatch order requester key w' queried
                    (mergePeers (order w') shortlist ps) batch)"

datatype value_outcome = Found "byte list" | Failed lookup_error | Exhausted "Peer list"

fun findValueRounds :: "('w \<Rightarrow> string option) \<Rightarrow> ('w \<Rightarrow> nat list) \<Rightarrow> 'w FindValueRequester \<Rightarrow> string \<Rightarrow>
    NodeID \<Rightarrow> int \<Rightarrow> int \<Rightarrow> nat \<Rightarrow> 'w \<Rightarrow> NodeID set \<Rightarrow> Peer list \<Rightarrow> 'w \<times> NodeID set \<times> value_outcome" where
  "findValueRounds ctx order requester key target k alpha 0 w queried shortlist =
     (w, queried, Exhausted shortlist)"
| "findValueRounds ctx order requester key target k alpha (Suc rounds) w queried shortlist =
     (case ctx w of
        Some err \<Rightarrow> (w, queried, Failed (ErrContext err))
      | None \<Rightarrow>
          let batch = nextUnqueried shortlist queried alpha
          in if batch = [] then (w, queried, Exhausted shortlist)
             else
               case queryValueBatch order requester key w queried shortlist batch of
                 (w', queried', Inl val) \<Rightarrow> (w', queried', Found val)
               | (w', queried', Inr merged) \<Rightarrow>
                   findValueRounds ctx order requester key target k alpha rounds w' queried'
                     (trimPeers (sortPeersByDistance target merged) (candidateLimit k alpha)))"

definition IterativeFindValue :: "('w \<Rightarrow> string option) \<Rightarrow> ('w \<Rightarrow> nat list) \<Rightarrow> RoutingTable option \<Rightarrow>
    'w FindValueRequester option \<Rightarrow> string \<Rightarrow> FindNodeOptions \<Rightarrow> 'w \<Rightarrow>
    'w \<times> byte list \<times> Peer list \<times> lookup_error option" where
  "IterativeFindValue ctx order rt requester key opts w =
     (case rt of
        None \<Rightarrow> (w, [], [], Some ErrRoutingTableNil)
      | Some rt \<Rightarrow>
     (case requester of
        None \<Rightarrow> (w, [], [], Some ErrRequesterNil)
      | Some requester \<Rightarrow>
          let (k, alpha, maxRounds) = normalizeFindNodeOptions opts;
              target = KeyToID key;
              shortlist = GetClosestPeers rt target k
          in if shortlist = [] then (w, [], [], Some ErrNoClosePeers)
             else
               case findValueRounds ctx order requester key target k alpha (nat maxRounds) w {}
                      (sortPeersByDistance target shortlist) of
                 (w', _, Found val) \<Rightarrow> (w', val, [], None)
               | (w', _, Failed err) \<Rightarrow> (w', [], [], Some err)
               | (w', _, Exhausted shortlist) \<Rightarrow> (w', [], trimPeers shortlist k, Some ErrValueNotFound)))"

subsection \<open>Iterative store\<close>

fun storeAt :: "'w StoreRequester \<Rightarrow> string \<Rightarrow> byte list \<Rightarrow> 'w \<Rightarrow> Peer list \<Rightarrow> 'w \<times> string option" where
  "storeAt store key val w [] = (w, None)"
| "storeAt store key val w (peer # closest) =
     (case store w peer key val of
        (w', Some err) \<Rightarrow> (w', Some err)
      | (w', None) \<Rightarrow> storeAt store key val w' closest)"

definition IterativeStore :: "('w \<Rightarrow> string option) \<Rightarrow> ('w \<Rightarrow> nat list) \<Rightarrow> RoutingTable option \<Rightarrow>
    'w FindNodeRequester option \<Rightarrow> 'w StoreRequester option \<Rightarrow> string \<Rightarrow> byte list \<Rightarrow> FindNodeOptions \<Rightarrow> 'w \<Rightarrow>
    'w \<times> Peer list \<times> lookup_error option" where
  "IterativeStore ctx order rt findNode store key val opts w =
     (case rt of
        None \<Rightarrow> (w, [], Some ErrRoutingTableNil)
      | Some rt \<Rightarrow>
     (case findNode of
        None \<Rightarrow> (w, [], Some ErrRequesterNil)
      | Some findNode \<Rightarrow>
     (case store of
        None \<Rightarrow> (w, [], Some ErrRequesterNil)
      | Some store \<Rightarrow>
          let target = KeyToID key
          in case IterativeFindNode ctx order (Some rt) (Some findNode) target opts w of
               (w', Inl err) \<Rightarrow> (w', [], Some err)
             | (w', Inr closest) \<Rightarrow>
                 (case storeAt store key val w' closest of
                    (w'', Some err) \<Rightarrow> (w'', closest, Some (ErrStore err))
                  | (w'', None) \<Rightarrow> (w'', closest, None)))))"

subsection \<open>Local storage\<close>

lemma copy_at_all: "length xs = length ys \<Longrightarrow> copy_at xs 0 ys = ys"
  by (simp add: copy_at_def)

lemma StoreLocal_eq: "StoreLocal n key val = n\<lparr>dn_store := (dn_store n)(key \<mapsto> val)\<rparr>"
  by (simp add: StoreLocal_def copy_at_all)

lemma FindValueLocal_eq:
  "FindValueLocal n key = (case dn_store n key of None \<Rightarrow> ([], False) | Some v \<Rightarrow> (v, True))"
  by (simp add: FindValueLocal_def copy_at_all split: option.split)

text \<open>The contract of a key-value store, and what a sequence of writes leaves in it.\<close>

locale kv_store =
  fixes empty :: "'s \<Rightarrow> bool"
    and put :: "'s \<Rightarrow> 'k \<Rightarrow> 'v \<Rightarrow> 's"
    and get :: "'s \<Rightarrow> 'k \<Rightarrow> 'v option"
  assumes get_empty: "empty s \<Longrightarrow> get s k = None"
    and get_put: "get (put s k v) k' = (if k' = k then Some v else get s k')"
begin

lemma get_put_same: "get (put s k v) k = Some v"
  by (simp add: get_put)

lemma last_write:
  "get (foldl (\<lambda>s (k, v). put s k v) s kvs) k =
     (case map_of (rev kvs) k of Some v \<Rightarrow> Some v | None \<Rightarrow> get s k)"
proof (induction kvs rule: rev_induct)
  case (snoc kv kvs)
  then show ?case by (cases kv) (simp add: get_put)
qed simp

end

definition StoredValue :: "DhtNode \<Rightarrow> string \<Rightarrow> byte list option" where
  "StoredValue n key = (case FindValueLocal n key of (v, True) \<Rightarrow> Some v | _ \<Rightarrow> None)"

lemma StoredValue_eq: "StoredValue n = dn_store n"
  by (rule ext) (simp add: StoredValue_def FindValueLocal_eq split: option.split)

interpretation local_store: kv_store "\<lambda>n. dn_store n = Map.empty" StoreLocal StoredValue
  by unfold_locales (simp_all add: StoredValue_eq StoreLocal_eq)

text \<open>
  Local storage returns, for every key, the value of the last \<open>StoreLocal\<close> of that key, and
  what it returned before for the keys that were not written.
\<close>

lemma local_storage_last_write:
  "FindValueLocal (foldl (\<lambda>n (k, v). StoreLocal n k v) n writes) key =
     (case map_of (rev writes) key of Some v \<Rightarrow> (v, True) | None \<Rightarrow> FindValueLocal n key)"
  using local_store.last_write [of n writes key]
  by (simp add: StoredValue_eq FindValueLocal_eq split: option.splits)

subsection \<open>The search for a value and the lookup\<close>

text \<open>The node lookup that a search for a value makes as long as nobody has the value.\<close>

definition forget_value :: "'w FindValueRequester \<Rightarrow> string \<Rightarrow> 'w FindNodeRequester" where
  "forget_value requester key w p t =
     (case requester w p key of
        (w', Inl err) \<Rightarrow> (w', Inl err)
      | (w', Inr (_, ps, _)) \<Rightarrow> (w', Inr ps))"

lemma queryValueBatch_forget:
  "queryValueBatch order requester key w q s b = (w', q', Inr s') \<Longrightarrow>
     queryBatch order (forget_value requester key) t w q s b = (w', q', s')"
proof (induction b arbitrary: w q s)
  case (Cons p b)
  obtain v r where req: "requester w p key = (v, r)" by fastforce
  then show ?case using Cons
    by (cases r) (auto simp: forget_value_def Let_def split: if_splits)
qed simp

lemma findValueRounds_forget:
  assumes "findValueRounds ctx order requester key t k alpha n w q s = (w', q', r)"
    and "r = Exhausted s' \<and> r' = Inr s' \<or> r = Failed e \<and> r' = Inl e"
  shows "findRounds ctx order (forget_value requester key) t k alpha n w q s = (w', q', r')"
  using assms
proof (induction n arbitrary: w q s)
  case (Suc n)
  let ?b = "nextUnqueried s q alpha"
  show ?case
  proof (cases "ctx w = None \<and> ?b \<noteq> []")
    case True
    obtain v q2 m where batch: "queryValueBatch order requester key w q s ?b = (v, q2, m)"
      using prod_cases3 by blast
    show ?thesis
    proof (cases m)
      case (Inl val)
      then show ?thesis using Suc.prems True batch by (auto simp: Let_def)
    next
      case (Inr s2)
      then show ?thesis
        using Suc True batch queryValueBatch_forget [of order requester key w q s ?b v q2 s2 t]
        by (auto simp: Let_def)
    qed
  next
    case False
    then show ?thesis using Suc.prems by (cases "ctx w") (auto simp: Let_def)
  qed
qed auto

text \<open>The answers that carry a value, in the history of a search.\<close>

definition carries_value :: "string + byte list \<times> Peer list \<times> bool \<Rightarrow> bool" where
  "carries_value r = (case r of Inl _ \<Rightarrow> False | Inr (_, _, found) \<Rightarrow> found)"

lemma queryValueBatch_found:
  assumes "queryValueBatch order (logged requester) key s q l b = (s', q', r)"
  shows "\<exists>h. snd s' = snd s @ h \<and>
    (case r of
       Inr _ \<Rightarrow> (\<forall>a \<in> set h. \<not> carries_value (snd a))
     | Inl v \<Rightarrow> \<exists>h' p ps. h = h' @ [(p, Inr (v, ps, True))] \<and> (\<forall>a \<in> set h'. \<not> carries_value (snd a)))"
  using assms
proof (induction b arbitrary: s q l)
  case (Cons p b)
  obtain v a where req: "requester (fst s) p key = (v, a)" by fastforce
  then have step: "logged requester s p key = ((v, snd s @ [(p, a)]), a)" by (simp add: logged_def)
  show ?case
  proof (cases "carries_value a")
    case True
    then obtain val ps where "a = Inr (val, ps, True)" by (auto simp: carries_value_def split: sum.splits)
    then show ?thesis using Cons.prems step by (auto simp: Let_def)
  next
    case False
    then obtain l2 where
      "queryValueBatch order (logged requester) key (v, snd s @ [(p, a)]) (insert (ID p) q) l2 b = (s', q', r)"
      using Cons.prems step by (cases a) (auto simp: Let_def carries_value_def)
    from Cons.IH [OF this] obtain h where h: "snd s' = snd s @ (p, a) # h"
      "case r of Inr _ \<Rightarrow> (\<forall>a \<in> set h. \<not> carries_value (snd a))
       | Inl v \<Rightarrow> \<exists>h' p ps. h = h' @ [(p, Inr (v, ps, True))] \<and> (\<forall>a \<in> set h'. \<not> carries_value (snd a))"
      by auto
    show ?thesis
    proof (cases r)
      case (Inl v)
      then obtain h' p' ps where "h = h' @ [(p', Inr (v, ps, True))]" "\<forall>a \<in> set h'. \<not> carries_value (snd a)"
        using h(2) by auto
      then show ?thesis using h(1) False Inl by (intro exI [of _ "(p, a) # h"]) (auto intro!: exI [of _ "(p, a) # h'"])
    next
      case (Inr m)
      then show ?thesis using h False by (intro exI [of _ "(p, a) # h"]) auto
    qed
  qed
qed auto

lemma findValueRounds_found:
  assumes "findValueRounds ctx order (logged requester) key t k alpha n s q l = (s', q', r)"
    and "\<forall>a \<in> set (snd s). \<not> carries_value (snd a)"
  shows "(case r of
       Found v \<Rightarrow> \<exists>h p ps. snd s' = h @ [(p, Inr (v, ps, True))] \<and> (\<forall>a \<in> set h. \<not> carries_value (snd a))
     | _ \<Rightarrow> \<forall>a \<in> set (snd s'). \<not> carries_value (snd a))"
  using assms
proof (induction n arbitrary: s q l)
  case (Suc n)
  let ?b = "nextUnqueried l q alpha"
  show ?case
  proof (cases "ctx s = None \<and> ?b \<noteq> []")
    case True
    obtain v q2 m where batch: "queryValueBatch order (logged requester) key s q l ?b = (v, q2, m)"
      using prod_cases3 by blast
    note found = queryValueBatch_found [OF batch]
    show ?thesis
    proof (cases m)
      case (Inl val)
      then obtain h' p ps where "snd v = (snd s @ h') @ [(p, Inr (val, ps, True))]"
        "\<forall>a \<in> set h'. \<not> carries_value (snd a)" using found by auto
      moreover have "r = Found val" "s' = v" using Suc.prems(1) True batch Inl by (auto simp: Let_def)
      ultimately show ?thesis using Suc.prems(2) by (auto intro!: exI [of _ "snd s @ h'"])
    next
      case (Inr l2)
      then have "\<forall>a \<in> set (snd v). \<not> carries_value (snd a)" using found Suc.prems(2) by force
      moreover have "findValueRounds ctx order (logged requester) key t k alpha n v q2
          (trimPeers (sortPeersByDistance t l2) (candidateLimit k alpha)) = (s', q', r)"
        using Suc.prems(1) True batch Inr by (simp add: Let_def)
      ultimately show ?thesis using Suc.IH by blast
    qed
  next
    case False
    then show ?thesis using Suc.prems by (cases "ctx s") (auto simp: Let_def)
  qed
qed auto

lemma queryValueBatch_logged:
  "queryValueBatch (order \<circ> fst) (logged requester) key (w, h) q s b = ((w', h'), q', r) \<Longrightarrow>
     queryValueBatch order requester key w q s b = (w', q', r)"
proof (induction b arbitrary: w h q s)
  case (Cons p b)
  obtain v a where req: "requester w p key = (v, a)" by fastforce
  then show ?case using Cons by (cases a) (auto simp: logged_def Let_def split: if_splits)
qed simp

lemma findValueRounds_logged:
  "findValueRounds (ctx \<circ> fst) (order \<circ> fst) (logged requester) key t k alpha n (w, h) q s =
     ((w', h'), q', r) \<Longrightarrow>
   findValueRounds ctx order requester key t k alpha n w q s = (w', q', r)"
proof (induction n arbitrary: w h q s)
  case (Suc n)
  let ?b = "nextUnqueried s q alpha"
  obtain v h2 q2 m where batch:
    "queryValueBatch (order \<circ> fst) (logged requester) key (w, h) q s ?b = ((v, h2), q2, m)"
    by (metis prod.collapse)
  note plain = queryValueBatch_logged [OF batch]
  show ?case
  proof (cases "ctx w = None \<and> ?b \<noteq> []")
    case True
    then show ?thesis
      using Suc.prems batch plain Suc.IH [of v h2 q2] by (cases m) (auto simp: Let_def comp_def)
  next
    case False
    then show ?thesis using Suc.prems by (cases "ctx w") (auto simp: Let_def)
  qed
qed simp

lemma findValueRounds_failed:
  "findValueRounds ctx order requester key t k alpha n w q s = (w', q', Failed e) \<Longrightarrow> \<exists>c. e = ErrContext c"
  by (induction n arbitrary: w q s)
    (auto simp: Let_def split: option.splits if_splits prod.splits sum.splits)

text \<open>The search from a routing table, with the history of its requests.\<close>

lemma IterativeFindValue_search:
  assumes "IterativeFindValue ctx order (Some rt) (Some requester) key opts w = (w', v, ps, err)"
    and "normalizeFindNodeOptions opts = (k, alpha, maxRounds)"
    and "GetClosestPeers rt (KeyToID key) k \<noteq> []"
  obtains h q r where
    "findValueRounds (ctx \<circ> fst) (order \<circ> fst) (logged requester) key (KeyToID key) k alpha (nat maxRounds)
       (w, []) {} (sortPeersByDistance (KeyToID key) (GetClosestPeers rt (KeyToID key) k)) = ((w', h), q, r)"
    and "(v, ps, err) = (case r of Found v \<Rightarrow> (v, [], None) | Failed e \<Rightarrow> ([], [], Some e)
       | Exhausted s \<Rightarrow> ([], trimPeers s k, Some ErrValueNotFound))"
    and "IterativeFindValue (ctx \<circ> fst) (order \<circ> fst) (Some rt) (Some (logged requester)) key opts (w, []) =
      ((w', h), v, ps, err)"
proof -
  let ?s = "sortPeersByDistance (KeyToID key) (GetClosestPeers rt (KeyToID key) k)"
  obtain v2 h q r where rounds: "findValueRounds (ctx \<circ> fst) (order \<circ> fst) (logged requester) key (KeyToID key)
      k alpha (nat maxRounds) (w, []) {} ?s = ((v2, h), q, r)"
    by (metis prod.collapse)
  note plain = findValueRounds_logged [OF rounds]
  show ?thesis
  proof (rule that [of h q r])
    show "findValueRounds (ctx \<circ> fst) (order \<circ> fst) (logged requester) key (KeyToID key)
      k alpha (nat maxRounds) (w, []) {} ?s = ((w', h), q, r)"
      using assms plain rounds by (cases r) (auto simp: IterativeFindValue_def)
    show "(v, ps, err) = (case r of Found v \<Rightarrow> (v, [], None) | Failed e \<Rightarrow> ([], [], Some e)
       | Exhausted s \<Rightarrow> ([], trimPeers s k, Some ErrValueNotFound))"
      using assms plain by (cases r) (auto simp: IterativeFindValue_def)
    show "IterativeFindValue (ctx \<circ> fst) (order \<circ> fst) (Some rt) (Some (logged requester)) key opts (w, []) =
      ((w', h), v, ps, err)"
      using assms plain rounds by (cases r) (auto simp: IterativeFindValue_def)
  qed
qed

lemma IterativeFindValue_forget:
  assumes "IterativeFindValue ctx order (Some rt) (Some requester) key opts w = (w', v, ps, Some ErrValueNotFound)"
  shows "IterativeFindNode ctx order (Some rt) (Some (forget_value requester key)) (KeyToID key) opts w =
    (w', Inr ps)"
proof -
  obtain k alpha maxRounds where opts: "normalizeFindNodeOptions opts = (k, alpha, maxRounds)"
    using prod_cases3 by blast
  let ?s = "sortPeersByDistance (KeyToID key) (GetClosestPeers rt (KeyToID key) k)"
  have ne: "GetClosestPeers rt (KeyToID key) k \<noteq> []"
    using assms opts by (auto simp: IterativeFindValue_def)
  obtain v2 q r where rounds: "findValueRounds ctx order requester key (KeyToID key) k alpha (nat maxRounds) w {} ?s =
      (v2, q, r)"
    using prod_cases3 by blast
  show ?thesis
  proof (cases r)
    case (Found val)
    then show ?thesis using assms opts ne rounds by (auto simp: IterativeFindValue_def)
  next
    case (Failed e)
    then have "e = ErrValueNotFound" using assms opts ne rounds by (simp add: IterativeFindValue_def)
    then show ?thesis using findValueRounds_failed [OF rounds [unfolded Failed]] by simp
  next
    case (Exhausted s)
    then show ?thesis
      using findValueRounds_forget [OF rounds, of s "Inr s"] assms opts ne rounds
      by (auto simp: IterativeFindValue_def IterativeFindNode_def)
  qed
qed

text \<open>
  C29: a search for a value that returns without error returns the value of an answer it
  received, and stops there: in the history of its requests the last answer carries exactly that
  value and no earlier one carries a value.
\<close>

theorem IterativeFindValue_sound:
  assumes "IterativeFindValue ctx order (Some rt) (Some requester) key opts w = (w', v, ps, None)"
  shows "\<exists>h p qs. IterativeFindValue (ctx \<circ> fst) (order \<circ> fst) (Some rt) (Some (logged requester)) key opts (w, []) =
      ((w', h @ [(p, Inr (v, qs, True))]), v, ps, None) \<and>
    ps = [] \<and> (\<forall>a \<in> set h. \<not> carries_value (snd a))"
proof -
  obtain k alpha maxRounds where opts: "normalizeFindNodeOptions opts = (k, alpha, maxRounds)"
    using prod_cases3 by blast
  have ne: "GetClosestPeers rt (KeyToID key) k \<noteq> []"
    using assms opts by (auto simp: IterativeFindValue_def)
  obtain h q r where run:
    "findValueRounds (ctx \<circ> fst) (order \<circ> fst) (logged requester) key (KeyToID key) k alpha (nat maxRounds)
       (w, []) {} (sortPeersByDistance (KeyToID key) (GetClosestPeers rt (KeyToID key) k)) = ((w', h), q, r)"
    "(v, ps, None) = (case r of Found v \<Rightarrow> (v, [], None) | Failed e \<Rightarrow> ([], [], Some e)
       | Exhausted s \<Rightarrow> ([], trimPeers s k, Some ErrValueNotFound))"
    "IterativeFindValue (ctx \<circ> fst) (order \<circ> fst) (Some rt) (Some (logged requester)) key opts (w, []) =
      ((w', h), v, ps, None)"
    using IterativeFindValue_search [OF assms opts ne] by blast
  then have "r = Found v" "ps = []" by (cases r; simp)+
  then show ?thesis using run findValueRounds_found [OF run(1)] by auto
qed

text \<open>
  C30: a search for a value that reports that the value was not found received no answer with a
  value, and the peers it returns are those that the node lookup for the key returns when it
  makes the same requests.
\<close>

theorem IterativeFindValue_not_found:
  assumes "IterativeFindValue ctx order (Some rt) (Some requester) key opts w = (w', v, ps, Some ErrValueNotFound)"
  shows "v = [] \<and>
    IterativeFindNode ctx order (Some rt) (Some (forget_value requester key)) (KeyToID key) opts w = (w', Inr ps) \<and>
    (\<exists>h. IterativeFindValue (ctx \<circ> fst) (order \<circ> fst) (Some rt) (Some (logged requester)) key opts (w, []) =
       ((w', h), v, ps, Some ErrValueNotFound) \<and> (\<forall>a \<in> set h. \<not> carries_value (snd a)))"
proof -
  obtain k alpha maxRounds where opts: "normalizeFindNodeOptions opts = (k, alpha, maxRounds)"
    using prod_cases3 by blast
  have ne: "GetClosestPeers rt (KeyToID key) k \<noteq> []"
    using assms opts by (auto simp: IterativeFindValue_def)
  obtain h q r where run:
    "findValueRounds (ctx \<circ> fst) (order \<circ> fst) (logged requester) key (KeyToID key) k alpha (nat maxRounds)
       (w, []) {} (sortPeersByDistance (KeyToID key) (GetClosestPeers rt (KeyToID key) k)) = ((w', h), q, r)"
    "(v, ps, Some ErrValueNotFound) = (case r of Found v \<Rightarrow> (v, [], None) | Failed e \<Rightarrow> ([], [], Some e)
       | Exhausted s \<Rightarrow> ([], trimPeers s k, Some ErrValueNotFound))"
    "IterativeFindValue (ctx \<circ> fst) (order \<circ> fst) (Some rt) (Some (logged requester)) key opts (w, []) =
      ((w', h), v, ps, Some ErrValueNotFound)"
    using IterativeFindValue_search [OF assms opts ne] by blast
  then have "v = []" and "\<forall>u. r \<noteq> Found u" by (cases r; simp)+
  moreover have "\<forall>a \<in> set h. \<not> carries_value (snd a)"
    using findValueRounds_found [OF run(1)] \<open>\<forall>u. r \<noteq> Found u\<close> by (cases r) auto
  ultimately show ?thesis using run(3) IterativeFindValue_forget [OF assms] by blast
qed

text \<open>Concrete runs: the only known peer has the value, or does not.\<close>

definition one_holder :: "byte list option \<Rightarrow> unit FindValueRequester" where
  "one_holder v w p key = (w, Inr (case v of None \<Rightarrow> ([], [], False) | Some b \<Rightarrow> (b, [], True)))"

lemma example_find_value:
  "IterativeFindValue (\<lambda>_. None) (\<lambda>_. []) (Some (example_table 20)) (Some (one_holder (Some [5]))) ''k''
     \<lparr>K = 20, Alpha = 3, MaxRounds = 20\<rparr> () = ((), [5], [], None)"
proof -
  have two: "(20 :: nat) = Suc 19" by simp
  have rounds: "findValueRounds (\<lambda>_. None) (\<lambda>_. []) (one_holder (Some [5])) ''k'' t 20 3 (Suc n) () {} [p] =
      ((), {ID p}, Found [5])" for n t p
    by (simp add: one_holder_def nextUnqueried_def Let_def)
  have "findValueRounds (\<lambda>_. None) (\<lambda>_. []) (one_holder (Some [5])) ''k'' t 20 3 20 () {} [p] =
      ((), {ID p}, Found [5])" for t p
    using rounds [of t 19 p] by (simp only: two)
  then show ?thesis
    by (simp add: IterativeFindValue_def example_options GetClosestPeers_eq allPeers_example Let_def
        sortPeersByDistance_eq)
qed

lemma example_find_no_value:
  "IterativeFindValue (\<lambda>_. None) (\<lambda>_. []) (Some (example_table 20)) (Some (one_holder None)) ''k''
     \<lparr>K = 20, Alpha = 3, MaxRounds = 20\<rparr> () =
   ((), [], [\<lparr>ID = 1 # replicate 19 0, Addr = ''a'', LastSeen = 7\<rparr>], Some ErrValueNotFound)"
proof -
  have two: "(20 :: nat) = Suc (Suc 18)" by simp
  have rounds: "findValueRounds (\<lambda>_. None) (\<lambda>_. []) (one_holder None) ''k'' t 20 3 (Suc (Suc n)) () {} [p] =
      ((), {ID p}, Exhausted [p])" for n t p
    by (simp add: one_holder_def nextUnqueried_def Let_def mergePeers_def sortPeersByDistance_eq trimPeers_def)
  have "findValueRounds (\<lambda>_. None) (\<lambda>_. []) (one_holder None) ''k'' t 20 3 20 () {} [p] =
      ((), {ID p}, Exhausted [p])" for t p
    using rounds [of t 18 p] by (simp only: two)
  then show ?thesis
    by (simp add: IterativeFindValue_def example_options GetClosestPeers_eq allPeers_example Let_def
        sortPeersByDistance_eq trimPeers_def)
qed

theorem IterativeFindValue_sound_witness:
  "\<exists>h p qs. IterativeFindValue ((\<lambda>_. None) \<circ> fst) ((\<lambda>_. []) \<circ> fst) (Some (example_table 20))
      (Some (logged (one_holder (Some [5])))) ''k'' \<lparr>K = 20, Alpha = 3, MaxRounds = 20\<rparr> ((), []) =
      (((), h @ [(p, Inr ([5], qs, True))]), [5], [], None) \<and> (\<forall>a \<in> set h. \<not> carries_value (snd a))"
  using IterativeFindValue_sound [OF example_find_value] by blast

theorem IterativeFindValue_not_found_witness:
  "IterativeFindNode (\<lambda>_. None) (\<lambda>_. []) (Some (example_table 20)) (Some (forget_value (one_holder None) ''k''))
     (KeyToID ''k'') \<lparr>K = 20, Alpha = 3, MaxRounds = 20\<rparr> () =
     ((), Inr [\<lparr>ID = 1 # replicate 19 0, Addr = ''a'', LastSeen = 7\<rparr>])"
  using IterativeFindValue_not_found [OF example_find_no_value] by blast

end
