(* ===== verification/Dhtsim.thy ===== *)
theory Dhtsim
  imports Store
begin

text \<open>
  The simulated network of \<^verbatim>\<open>cmd/dhtsim/main.go\<close>, whose three requesters dispatch
  to the handlers of the nodes. They instantiate the requests that lookups and stores make, so
  the network is a model of the lookup's environment, and a value stored in it can be found again.
\<close>

section \<open>The simulated network\<close>

record simNetwork =
  nodes :: "NodeID \<rightharpoonup> DhtNode"

definition bucketK :: int where
  "bucketK = 20"

definition unknown_peer :: "Peer \<Rightarrow> string" where
  "unknown_peer peer = ''unknown peer: '' @ NodeID_String (ID peer)"

definition findNode :: "(simNetwork \<Rightarrow> string option) \<Rightarrow> simNetwork FindNodeRequester" where
  "findNode ctx n peer target =
     (n, case nodes n (ID peer) of
           None \<Rightarrow> Inl (unknown_peer peer)
         | Some remote \<Rightarrow> HandleFindNode (ctx n) remote target bucketK)"

definition storeValue :: "(simNetwork \<Rightarrow> string option) \<Rightarrow> simNetwork StoreRequester" where
  "storeValue ctx n peer key val =
     (case nodes n (ID peer) of
        None \<Rightarrow> (n, Some (unknown_peer peer))
      | Some remote \<Rightarrow>
          let (remote', err) = HandleStore (ctx n) remote key val
          in (n\<lparr>nodes := (nodes n)(ID peer \<mapsto> remote')\<rparr>, err))"

definition findValue :: "(simNetwork \<Rightarrow> string option) \<Rightarrow> simNetwork FindValueRequester" where
  "findValue ctx n peer key =
     (n, case nodes n (ID peer) of
           None \<Rightarrow> Inl (unknown_peer peer)
         | Some remote \<Rightarrow> HandleFindValue (ctx n) remote key bucketK)"

definition sensorKey :: "string \<Rightarrow> string" where
  "sensorKey nodeID = ''sensor:'' @ nodeID @ '':latest''"

subsection \<open>The network as the environment of a lookup\<close>

definition sim_ok :: "simNetwork \<Rightarrow> bool" where
  "sim_ok net \<longleftrightarrow> (\<forall>i n. nodes net i = Some n \<longrightarrow> rt_ok (dn_rt n))"

text \<open>The identifiers in the routing tables of a network lie in \<open>U\<close>.\<close>

definition tables_within :: "NodeID set \<Rightarrow> simNetwork \<Rightarrow> bool" where
  "tables_within U net \<longleftrightarrow>
     (\<forall>i n. nodes net i = Some n \<longrightarrow> set (ids (allPeers (dn_rt n))) \<subseteq> U)"

lemma GetClosestPeers_subset: "set (GetClosestPeers rt t k) \<subseteq> set (allPeers rt)"
  unfolding GetClosestPeers_eq
  using set_take_subset [of "nat k" "sort_key (\<lambda>p. xorDistance t (ID p)) (allPeers rt)"] by simp

lemma findNode_answer:
  assumes "snd (findNode ctx net p t) = Inr r"
  obtains n where "nodes net (ID p) = Some n" and "set r \<subseteq> set (allPeers (dn_rt n))"
  using assms that GetClosestPeers_subset
  by (auto simp: findNode_def HandleFindNode_def split: option.splits)

lemma fst_findNode [simp]: "fst (findNode ctx net p t) = net"
  by (simp add: findNode_def)

lemma answers_wf_findNode: "answers_wf sim_ok (findNode ctx)"
  unfolding answers_wf_def
proof (intro allI impI conjI)
  fix w p t r
  assume ok: "sim_ok w" and "snd (findNode ctx w p t) = Inr r"
  then obtain n where n: "nodes w (ID p) = Some n" "set r \<subseteq> set (allPeers (dn_rt n))"
    by (auto elim: findNode_answer)
  then have "\<forall>q \<in> set (allPeers (dn_rt n)). wf_id (ID q)"
    using ok by (intro allPeers_wf) (auto simp: sim_ok_def)
  then show "\<forall>q \<in> set r. wf_id (ID q)" using n(2) by blast
qed simp

text \<open>
  Through the log of its requests the network meets the assumptions of the lookup; the answers of
  a network stay within the identifiers of its tables.
\<close>

definition sim_log_ok :: "NodeID set \<Rightarrow> simNetwork \<times> history \<Rightarrow> bool" where
  "sim_log_ok U s \<longleftrightarrow> sim_ok (fst s) \<and> tables_within U (fst s) \<and> heard (snd s) \<subseteq> U"

interpretation sim: node_requests "logged (findNode ctx)" snd "sim_log_ok U" for ctx U
proof
  fix s :: "simNetwork \<times> history" and p t
  let ?r = "snd (findNode ctx (fst s) p t)"
  have log: "logged (findNode ctx) s p t = ((fst s, snd s @ [(p, ?r)]), ?r)"
    by (simp add: logged_def findNode_def)
  show "snd (fst (logged (findNode ctx) s p t)) = snd s @ [(p, snd (logged (findNode ctx) s p t))]"
    by (simp add: log)
  assume ok: "sim_log_ok U s"
  have "heard [(p, ?r)] \<subseteq> U"
  proof (cases ?r)
    case (Inr r)
    then obtain n where n: "nodes (fst s) (ID p) = Some n" "set r \<subseteq> set (allPeers (dn_rt n))"
      by (rule findNode_answer)
    have "set (ids (allPeers (dn_rt n))) \<subseteq> U"
      using ok n(1) unfolding sim_log_ok_def tables_within_def by blast
    then have "set (ids r) \<subseteq> U" using n(2) by auto
    then show ?thesis using Inr by auto
  qed simp
  then show "sim_log_ok U (fst (logged (findNode ctx) s p t))" using ok by (simp add: log sim_log_ok_def)
  show "\<forall>q \<in> set r. wf_id (ID q)" if "snd (logged (findNode ctx) s p t) = Inr r" for r
  proof (rule answers_wfD(2) [OF answers_wf_findNode])
    show "sim_ok (fst s)" using ok by (simp add: sim_log_ok_def)
    show "findNode ctx (fst s) p t = (fst s, ?r)" by (simp add: findNode_def)
    show "?r = Inr r" using that by (simp add: log)
  qed
qed

subsection \<open>Storing in the network\<close>

abbreviation (input) live :: "simNetwork \<Rightarrow> string option" where
  "live \<equiv> \<lambda>_. None"

lemma storeAt_network:
  "storeAt (storeValue live) key val net ps = (net', None) \<Longrightarrow>
     (\<forall>p \<in> set ps. nodes net (ID p) \<noteq> None) \<and>
     nodes net' = (\<lambda>i. if i \<in> set (ids ps) then map_option (\<lambda>n. StoreLocal n key val) (nodes net i)
       else nodes net i)"
proof (induction ps arbitrary: net)
  case (Cons p ps)
  obtain n where n: "nodes net (ID p) = Some n"
    using Cons.prems by (cases "nodes net (ID p)") (auto simp: storeValue_def)
  let ?net = "net\<lparr>nodes := (nodes net)(ID p \<mapsto> StoreLocal n key val)\<rparr>"
  have "storeValue live net p key val = (?net, None)"
    using n by (simp add: storeValue_def HandleStore_def)
  then have "storeAt (storeValue live) key val ?net ps = (net', None)" using Cons.prems by simp
  from Cons.IH [OF this] show ?case
    using n by (auto simp: fun_eq_iff StoreLocal_eq split: if_splits)
qed simp

lemma findNode_unchanged:
  "queryBatch order (findNode ctx) t net q s b = (net', q', s') \<Longrightarrow> net' = net"
proof (induction b arbitrary: q s)
  case (Cons p b)
  obtain r where "findNode ctx net p t = (net, r)" by (simp add: findNode_def)
  then show ?case using Cons by (cases r) (auto simp: Let_def)
qed simp

lemma findRounds_unchanged:
  "findRounds ctx order (findNode ctx') t k alpha n net q s = (net', q', r) \<Longrightarrow> net' = net"
proof (induction n arbitrary: q s)
  case (Suc n)
  obtain v q2 m where "queryBatch order (findNode ctx') t net q s (nextUnqueried s q alpha) = (v, q2, m)"
    using prod_cases3 by blast
  then show ?case
    using Suc findNode_unchanged by (fastforce simp: Let_def split: option.splits if_splits)
qed simp

lemma IterativeFindNode_unchanged:
  "IterativeFindNode ctx order rt (Some (findNode ctx')) t opts net = (net', r) \<Longrightarrow> net' = net"
  using findRounds_unchanged
  by (fastforce simp: IterativeFindNode_def Let_def split: option.splits if_splits prod.splits sum.splits)

subsection \<open>Finding in the network what was stored\<close>

definition value_at :: "simNetwork \<Rightarrow> NodeID \<Rightarrow> string \<Rightarrow> byte list option" where
  "value_at net i key = (case nodes net i of None \<Rightarrow> None | Some n \<Rightarrow> dn_store n key)"

definition same_tables :: "simNetwork \<Rightarrow> simNetwork \<Rightarrow> bool" where
  "same_tables net net' \<longleftrightarrow> (\<forall>i. map_option dn_rt (nodes net i) = map_option dn_rt (nodes net' i))"

lemma findValue_hit:
  "value_at net (ID p) key = Some v \<Longrightarrow> findValue live net p key = (net, Inr (v, [], True))"
  by (auto simp: value_at_def findValue_def HandleFindValue_def FindValueLocal_eq split: option.splits)

lemma findValue_miss:
  assumes "same_tables net net'" and "value_at net' (ID p) key = None"
  shows "findValue live net' p key =
    (net', case snd (findNode live net p (KeyToID key)) of Inl e \<Rightarrow> Inl e | Inr ps \<Rightarrow> Inr ([], ps, False))"
proof -
  have "map_option dn_rt (nodes net (ID p)) = map_option dn_rt (nodes net' (ID p))"
    using assms(1) by (simp add: same_tables_def)
  then show ?thesis using assms(2)
    by (cases "nodes net (ID p)"; cases "nodes net' (ID p)")
      (simp_all add: value_at_def findValue_def findNode_def HandleFindValue_def HandleFindNode_def
        FindValueLocal_eq Let_def)
qed

text \<open>
  In a network that does not change, a search for a value either finds one or does what the node
  lookup does in any network with the same routing tables.
\<close>

lemma queryValueBatch_network:
  assumes "same_tables net net'"
  shows "queryValueBatch order (findValue live) key net' q s b = (w', q', r) \<Longrightarrow>
    w' = net' \<and>
    ((\<exists>p \<in> set b. \<exists>v. value_at net' (ID p) key = Some v \<and> r = Inl v) \<or>
     (\<exists>s'. r = Inr s' \<and> q' = q \<union> set (ids b) \<and> (\<forall>p \<in> set b. value_at net' (ID p) key = None) \<and>
        queryBatch (\<lambda>_. order net') (findNode live) (KeyToID key) net q s b = (net, q', s')))"
proof (induction b arbitrary: q s)
  case (Cons p b)
  show ?case
  proof (cases "value_at net' (ID p) key")
    case (Some v)
    then show ?thesis using Cons.prems findValue_hit [OF Some] by (auto simp: Let_def)
  next
    case None
    note miss = findValue_miss [OF assms None]
    have node: "findNode live net p (KeyToID key) = (net, snd (findNode live net p (KeyToID key)))"
      by (simp add: findNode_def)
    show ?thesis
    proof (cases "snd (findNode live net p (KeyToID key))")
      case (Inl e)
      then show ?thesis using Cons.IH [of "insert (ID p) q" s] Cons.prems miss node None by auto
    next
      case (Inr ps)
      then show ?thesis
        using Cons.IH [of "insert (ID p) q" "mergePeers (order net') s ps"] Cons.prems miss node None
        by auto
    qed
  qed
qed simp

lemma findValueRounds_network:
  assumes "same_tables net net'"
  shows "findValueRounds live order (findValue live) key (KeyToID key) k alpha n net' q s = (w', q', r) \<Longrightarrow>
    w' = net' \<and>
    ((\<exists>i v. value_at net' i key = Some v \<and> r = Found v) \<or>
     (\<exists>s'. r = Exhausted s' \<and> (\<forall>i \<in> q' - q. value_at net' i key = None) \<and>
        findRounds live (\<lambda>_. order net') (findNode live) (KeyToID key) k alpha n net q s = (net, q', Inr s')))"
proof (induction n arbitrary: q s)
  case (Suc n)
  let ?b = "nextUnqueried s q alpha"
  show ?case
  proof (cases "?b = []")
    case False
    obtain v q2 m where batch: "queryValueBatch order (findValue live) key net' q s ?b = (v, q2, m)"
      using prod_cases3 by blast
    note B = queryValueBatch_network [OF assms batch]
    show ?thesis
    proof (cases m)
      case (Inl val)
      then show ?thesis using B Suc.prems batch False by (auto simp: Let_def)
    next
      case (Inr s2)
      let ?s = "trimPeers (sortPeersByDistance (KeyToID key) s2) (candidateLimit k alpha)"
      have B2: "v = net'" "q2 = q \<union> set (ids ?b)" "\<forall>i \<in> set (ids ?b). value_at net' i key = None"
        "queryBatch (\<lambda>_. order net') (findNode live) (KeyToID key) net q s ?b = (net, q2, s2)"
        using B Inr by auto
      have "findValueRounds live order (findValue live) key (KeyToID key) k alpha n net' q2 ?s = (w', q', r)"
        using Suc.prems batch False Inr B2(1) by (simp add: Let_def)
      note IH = Suc.IH [OF this]
      have "findRounds live (\<lambda>_. order net') (findNode live) (KeyToID key) k alpha (Suc n) net q s =
          findRounds live (\<lambda>_. order net') (findNode live) (KeyToID key) k alpha n net q2 ?s"
        using B2(4) False by (simp add: Let_def)
      then show ?thesis using IH B2(2,3) by (metis DiffD1 DiffD2 DiffI Un_iff)
    qed
  qed (use Suc.prems in simp)
qed simp

lemma store_network:
  assumes "storeAt (storeValue live) key val net ps = (net', None)"
  shows "same_tables net net'"
    and "value_at net' i k = (if k = key \<and> i \<in> set (ids ps) then Some val else value_at net i k)"
    and "sim_ok net \<Longrightarrow> sim_ok net'"
proof -
  note net' = storeAt_network [OF assms]
  show "same_tables net net'"
    using net' by (auto simp: same_tables_def StoreLocal_eq option.map_comp comp_def)
  show "value_at net' i k = (if k = key \<and> i \<in> set (ids ps) then Some val else value_at net i k)"
    using net' by (auto simp: value_at_def StoreLocal_eq split: option.split)
  show "sim_ok net \<Longrightarrow> sim_ok net'"
    using net' by (auto simp: sim_ok_def StoreLocal_eq split: if_splits)
qed

lemma IterativeStore_success:
  assumes "IterativeStore live order (Some rt) (Some (findNode live)) (Some (storeValue live)) key val opts net =
    (net', closest, None)"
  shows "IterativeFindNode live order (Some rt) (Some (findNode live)) (KeyToID key) opts net = (net, Inr closest)"
    and "storeAt (storeValue live) key val net closest = (net', None)"
proof -
  obtain v r where found: "IterativeFindNode live order (Some rt) (Some (findNode live)) (KeyToID key) opts net = (v, r)"
    by fastforce
  moreover from this have "v = net" by (rule IterativeFindNode_unchanged)
  ultimately show "IterativeFindNode live order (Some rt) (Some (findNode live)) (KeyToID key) opts net = (net, Inr closest)"
    and "storeAt (storeValue live) key val net closest = (net', None)"
    using assms by (auto simp: IterativeStore_def split: sum.splits prod.splits option.splits)
qed

text \<open>
  C24: an iterative store that succeeds in the simulated network has stored the value at exactly
  the peers it returns: each of them is a node of the network and holds the value for the key
  afterwards; every other entry of every node, and every routing table, is unchanged.
\<close>

theorem IterativeStore_stores:
  assumes "IterativeStore live order (Some rt) (Some (findNode live)) (Some (storeValue live)) key val opts net =
    (net', closest, None)"
  shows "(\<forall>p \<in> set closest. nodes net (ID p) \<noteq> None) \<and> same_tables net net' \<and>
    (\<forall>i k. value_at net' i k =
       (if k = key \<and> i \<in> set (ids closest) then Some val else value_at net i k))"
  using storeAt_network [OF IterativeStore_success(2) [OF assms]]
    store_network(1,2) [OF IterativeStore_success(2) [OF assms]] by blast

text \<open>The lookup in a network whose tables name no more identifiers than there are rounds.\<close>

lemma findRounds_network_converged:
  assumes "sim_ok net" and "rt_ok rt" and "wf_id t" and "0 < k" and "0 < alpha"
    and "tables_within U net" and "set (ids (allPeers rt)) \<subseteq> U" and "finite U" and "card U \<le> n"
    and "allPeers rt \<noteq> []"
    and run: "findRounds live order (findNode live) t k alpha n net {}
      (sortPeersByDistance t (GetClosestPeers rt t k)) = (net, q, Inr s)"
  shows "s \<noteq> []" and "set (ids s) \<subseteq> q"
proof -
  let ?A = "set (ids (allPeers rt))" and ?s = "sortPeersByDistance t (GetClosestPeers rt t k)"
  have "shortlist_ok t (nat k) (?A \<union> heard []) ?s"
    using shortlist_ok_perm [OF shortlist_ok_closest [OF assms(2,3)], of ?s k]
    by (simp add: sortPeersByDistance_eq)
  then have init: "search_ok t (nat k) ?A (snd (net, [])) {} ?s"
    unfolding search_ok_def by (simp add: sortPeersByDistance_eq)
  have ok: "sim_log_ok U (net, [])" using assms(1,6) by (simp add: sim_log_ok_def)
  obtain v h q2 r2 where logged: "findRounds (live \<circ> fst) (order \<circ> fst) (logged (findNode live)) t k alpha n
      (net, []) {} ?s = ((v, h), q2, r2)"
    by (metis prod.collapse)
  have same: "q2 = q" "r2 = Inr s" using findRounds_logged [OF logged] run by simp_all
  note fin = sim.findRounds_ok [OF assms(3-5) ok init logged, unfolded snd_conv]
  then have s: "search_ok t (nat k) ?A h q s" "set (ids s) \<subseteq> q \<or> n \<le> length h" "heard h \<subseteq> U"
    using same by (auto simp: sim_log_ok_def)
  have "card (?A \<union> heard h) \<le> card U" using assms(7,8) s(3) by (intro card_mono) auto
  then show "set (ids s) \<subseteq> q" using assms(9) by (intro search_converged [OF s(1,2)]) simp
  show "s \<noteq> []"
    using s(1) assms(4,10) unfolding search_ok_def by (elim conjE, intro shortlist_nonempty) auto
qed

text \<open>
  C4: what was stored is found. If an iterative store of a value succeeded in the simulated
  network, then a search for its key from the same routing table returns that value, whatever the
  order of map iteration. It is assumed that no node held another value for the key and that the
  rounds allowed are at least as many as the identifiers in the routing tables.
\<close>

theorem store_then_find:
  assumes "sim_ok net" and "rt_ok rt"
    and "normalizeFindNodeOptions opts = (k, alpha, maxRounds)"
    and "tables_within U net" and "set (ids (allPeers rt)) \<subseteq> U" and "finite U" and "int (card U) \<le> maxRounds"
    and "\<forall>i v. value_at net i key = Some v \<longrightarrow> v = val"
    and store: "IterativeStore live order (Some rt) (Some (findNode live)) (Some (storeValue live)) key val opts net =
      (net', closest, None)"
  shows "IterativeFindValue live order' (Some rt) (Some (findValue live)) key opts net' = (net', val, [], None)"
proof -
  let ?t = "KeyToID key" and ?s = "sortPeersByDistance (KeyToID key) (GetClosestPeers rt (KeyToID key) k)"
  note found = IterativeStore_success(1) [OF store] and stored = store_network [OF IterativeStore_success(2) [OF store]]
  have pos: "0 < k" "0 < alpha" using normalize_positive [OF assms(3)] by simp_all
  have ne: "GetClosestPeers rt ?t k \<noteq> []" using found assms(3) by (auto simp: IterativeFindNode_def)
  have "allPeers rt \<noteq> []" using ne GetClosestPeers_subset [of rt ?t k] by auto
  have only: "v = val" if "value_at net' i key = Some v" for i v
    using that assms(8) stored(2) by (auto split: if_splits)
  obtain w' q r where run: "findValueRounds live order' (findValue live) key ?t k alpha (nat maxRounds) net' {} ?s =
      (w', q, r)"
    using prod_cases3 by blast
  note outcome = findValueRounds_network [OF stored(1) run]
  have "r = Found val"
  proof (rule ccontr)
    assume "r \<noteq> Found val"
    then obtain s where s: "\<forall>i \<in> q. value_at net' i key = None"
      "findRounds live (\<lambda>_. order' net') (findNode live) ?t k alpha (nat maxRounds) net {} ?s = (net, q, Inr s)"
      using outcome only by auto
    note conv = findRounds_network_converged [OF assms(1,2) wf_KeyToID pos assms(4-6) _ \<open>allPeers rt \<noteq> []\<close> s(2)]
    have "IterativeFindNode live (\<lambda>_. order' net') (Some rt) (Some (findNode live)) ?t opts net = (net, Inr (trimPeers s k))"
      using s(2) ne assms(3) by (simp add: IterativeFindNode_def Let_def)
    then have "closest = take (nat k) s"
      using found IterativeFindNode_order [OF assms(2) wf_KeyToID answers_wf_findNode assms(1),
          of live "\<lambda>_. order' net'" "\<lambda>_. None" key opts order] pos(1) by (simp add: trimPeers_eq)
    moreover have "s \<noteq> []" and "set (ids s) \<subseteq> q" using conv assms(7) by linarith+
    ultimately have "hd s \<in> set closest" "ID (hd s) \<in> q" using pos(1) by (cases s; cases "nat k"; auto)+
    then show False using s(1) stored(2) [of "ID (hd s)" key] by auto
  qed
  then show ?thesis
    using run outcome ne assms(3) by (auto simp: IterativeFindValue_def Let_def)
qed

text \<open>A network with one node, which a table with its identifier can reach.\<close>

definition example_network :: simNetwork where
  "example_network = \<lparr>nodes = [1 # replicate 19 0 \<mapsto> dht_NewNode (1 # replicate 19 0) ''a'' 20]\<rparr>"

lemma example_network_ok: "sim_ok example_network" "tables_within {1 # replicate 19 0} example_network"
proof -
  show "sim_ok example_network"
    using rt_ok_New [OF example_id_wf] by (simp add: sim_ok_def example_network_def dht_NewNode_def)
  have "allPeers (NewRoutingTable i n) = []" for i n
    by (simp add: allPeers_def NewRoutingTable_def NewBucket_def Let_def)
  then show "tables_within {1 # replicate 19 0} example_network"
    by (simp add: tables_within_def example_network_def dht_NewNode_def)
qed

lemma example_store:
  "IterativeStore live (\<lambda>_. []) (Some (example_table 20)) (Some (findNode live)) (Some (storeValue live)) ''k'' [5]
     \<lparr>K = 20, Alpha = 3, MaxRounds = 20\<rparr> example_network =
   (\<lparr>nodes = [1 # replicate 19 0 \<mapsto> StoreLocal (dht_NewNode (1 # replicate 19 0) ''a'' 20) ''k'' [5]]\<rparr>,
    [\<lparr>ID = 1 # replicate 19 0, Addr = ''a'', LastSeen = 7\<rparr>], None)"
proof -
  let ?p = "\<lparr>ID = 1 # replicate 19 0, Addr = ''a'', LastSeen = 7\<rparr>"
  have two: "(20 :: nat) = Suc (Suc 18)" by simp
  have "allPeers (NewRoutingTable i n) = []" for i n
    by (simp add: allPeers_def NewRoutingTable_def NewBucket_def Let_def)
  then have ans: "findNode live example_network ?p t = (example_network, Inr [])" for t
    by (simp add: findNode_def example_network_def HandleFindNode_def dht_NewNode_def GetClosestPeers_eq)
  have rounds: "findRounds live (\<lambda>_. []) (findNode live) t 20 3 (Suc (Suc n)) example_network {} [?p] =
      (example_network, {ID ?p}, Inr [?p])" for n t
    by (simp add: ans nextUnqueried_def Let_def mergePeers_def sortPeersByDistance_eq trimPeers_def)
  have "findRounds live (\<lambda>_. []) (findNode live) t 20 3 20 example_network {} [?p] =
      (example_network, {ID ?p}, Inr [?p])" for t
    using rounds [of t 18] by (simp only: two)
  then have "IterativeFindNode live (\<lambda>_. []) (Some (example_table 20)) (Some (findNode live)) (KeyToID ''k'')
      \<lparr>K = 20, Alpha = 3, MaxRounds = 20\<rparr> example_network = (example_network, Inr [?p])"
    by (simp add: IterativeFindNode_def example_options GetClosestPeers_eq allPeers_example Let_def
        sortPeersByDistance_eq trimPeers_def)
  then show ?thesis
    by (simp add: IterativeStore_def storeValue_def HandleStore_def example_network_def)
qed

theorem IterativeStore_stores_witness:
  "value_at \<lparr>nodes = [1 # replicate 19 0 \<mapsto> StoreLocal (dht_NewNode (1 # replicate 19 0) ''a'' 20) ''k'' [5]]\<rparr>
     (1 # replicate 19 0) ''k'' = Some [5]"
  using IterativeStore_stores [OF example_store] by simp

theorem store_then_find_witness:
  "IterativeFindValue live (\<lambda>_. []) (Some (example_table 20)) (Some (findValue live)) ''k''
     \<lparr>K = 20, Alpha = 3, MaxRounds = 20\<rparr>
     \<lparr>nodes = [1 # replicate 19 0 \<mapsto> StoreLocal (dht_NewNode (1 # replicate 19 0) ''a'' 20) ''k'' [5]]\<rparr> =
   (\<lparr>nodes = [1 # replicate 19 0 \<mapsto> StoreLocal (dht_NewNode (1 # replicate 19 0) ''a'' 20) ''k'' [5]]\<rparr>,
    [5], [], None)"
  by (rule store_then_find [OF example_network_ok(1) example_table_ok example_options example_network_ok(2)
        _ _ _ _ example_store])
    (simp_all add: allPeers_example value_at_def example_network_def dht_NewNode_def)

end
