(* ===== verification/Float64.thy ===== *)
theory Float64
  imports Complex_Main "HOL-Library.Log_Nat"
begin

text \<open>
  The type \<open>float64\<close> of Go: the finite values of the IEEE binary64 format as rational numbers, the
  infinities and NaN, with every operation rounded to the nearest value, ties to even. The two zeros are
  one value here: no operation that the sources use tells them apart. Rounding is monotone and
  exact on small integers, which is what the bounds of the sensor code rest on.
\<close>

section \<open>Rounding\<close>

text \<open>The exponent of the power of two at or below a positive number.\<close>

definition binade :: "rat \<Rightarrow> int" where
  "binade q = (let (a, b) = quotient_of q; d = bitlen a - bitlen b in if 2 powi d \<le> q then d else d - 1)"

text \<open>To the nearest integer, ties to even.\<close>

definition rne :: "rat \<Rightarrow> int" where
  "rne q =
     (let f = \<lfloor>q\<rfloor>; r = q - of_int f
      in if r < 1 / 2 then f else if 1 / 2 < r then f + 1 else if even f then f else f + 1)"

text \<open>The distance of neighbours near a positive number is \<open>2 powi (ulp_exp q)\<close>.\<close>

definition ulp_exp :: "rat \<Rightarrow> int" where
  "ulp_exp q = max (binade q - 52) (- 1074)"

definition near_pos :: "rat \<Rightarrow> rat" where
  "near_pos q = (let u = 2 powi ulp_exp q in of_int (rne (q / u)) * u)"

definition near :: "rat \<Rightarrow> rat" where
  "near q = (if q = 0 then 0 else if q < 0 then - near_pos (- q) else near_pos q)"

lemma powi_pos [simp]: "0 < (2 :: rat) powi k"
  by (simp add: zero_less_power_int)

lemma powi_nonneg [simp]: "0 \<le> (2 :: rat) powi k"
  by (simp add: order_less_imp_le)

lemma powi_add: "(2 :: rat) powi (j + k) = 2 powi j * 2 powi k"
  by (simp add: power_int_add)

lemma powi_nat: "0 \<le> k \<Longrightarrow> (2 :: rat) powi k = of_int (2 ^ nat k)"
  by (simp add: power_int_def)

lemma powi_less_iff: "(2 :: rat) powi j < 2 powi k \<longleftrightarrow> j < k"
proof
  show "(2 :: rat) powi j < 2 powi k" if "j < k" using that by (intro power_int_strict_increasing) simp_all
  show "j < k" if "(2 :: rat) powi j < 2 powi k"
    using that power_int_increasing [of k j "2 :: rat"] by (force simp: not_le [symmetric])
qed

lemma powi_le_iff: "(2 :: rat) powi j \<le> 2 powi k \<longleftrightarrow> j \<le> k"
  using powi_less_iff [of k j] by (simp add: not_less [symmetric])

lemma binade_bounds:
  assumes "0 < q"
  shows "2 powi binade q \<le> q" and "q < 2 powi (binade q + 1)"
proof -
  obtain a b where ab: "quotient_of q = (a, b)" by fastforce
  have b: "0 < b" by (rule quotient_of_denom_pos [OF ab])
  have q: "q = of_int a / of_int b" by (rule quotient_of_div [OF ab])
  then have a: "0 < a" using assms b by (simp add: zero_less_divide_iff)
  define d where "d = bitlen a - bitlen b"
  have up: "of_int x < (2 :: rat) powi bitlen x" and lo: "2 powi (bitlen x - 1) \<le> (of_int x :: rat)" if "0 < x" for x
    using bitlen_bounds [OF that] that bitlen_ge_iff_power [of 1 x]
    by (simp_all add: powi_nat of_int_less_iff [symmetric] del: of_int_less_iff of_int_power)
  have "q < 2 powi bitlen a / 2 powi (bitlen b - 1)"
    unfolding q using up [OF a] lo [OF b] b by (intro frac_less) (use a in simp_all)
  also have "\<dots> = 2 powi (d + 1)"
    by (simp add: d_def powi_add [symmetric] field_simps)
  finally have upper: "q < 2 powi (d + 1)" .
  have "2 powi (bitlen a - 1) / 2 powi bitlen b < q"
    unfolding q using lo [OF a] up [OF b] b by (intro frac_less2) (use a in simp_all)
  also have "2 powi (bitlen a - 1) / 2 powi bitlen b = (2 powi (d - 1) :: rat)"
    by (simp add: d_def powi_add [symmetric] field_simps)
  finally have "2 powi (d - 1) < q" .
  then show "2 powi binade q \<le> q" and "q < 2 powi (binade q + 1)"
    using upper by (auto simp: binade_def ab d_def Let_def)
qed

lemma rne_cases: "rne q = \<lfloor>q\<rfloor> \<or> rne q = \<lfloor>q\<rfloor> + 1"
  by (auto simp: rne_def Let_def)

lemma rne_int [simp]: "rne (of_int n) = n"
  by (simp add: rne_def)

lemma rne_mono:
  assumes "x \<le> y"
  shows "rne x \<le> rne y"
proof (cases "\<lfloor>x\<rfloor> = \<lfloor>y\<rfloor>")
  case True
  then show ?thesis using assms by (auto simp: rne_def Let_def)
next
  case False
  then have "\<lfloor>x\<rfloor> + 1 \<le> \<lfloor>y\<rfloor>" using floor_mono [OF assms] by simp
  then show ?thesis using rne_cases [of x] rne_cases [of y] by auto
qed

lemma near_pos_nonneg: "0 < q \<Longrightarrow> 0 \<le> near_pos q"
  using rne_mono [of 0 "q / 2 powi ulp_exp q"] rne_int [of 0] by (simp add: near_pos_def Let_def)

lemma binade_mono:
  assumes "0 < x" and "x \<le> y"
  shows "binade x \<le> binade y"
proof -
  have "(2 :: rat) powi binade x < 2 powi (binade y + 1)"
    using binade_bounds(1) [OF assms(1)] binade_bounds(2) [of y] assms by linarith
  then show ?thesis by (simp add: powi_less_iff)
qed

lemma near_pos_le: "q \<le> of_int m * 2 powi ulp_exp q \<Longrightarrow> near_pos q \<le> of_int m * 2 powi ulp_exp q"
  and near_pos_ge: "of_int m * 2 powi ulp_exp q \<le> q \<Longrightarrow> of_int m * 2 powi ulp_exp q \<le> near_pos q"
proof -
  assume "q \<le> of_int m * 2 powi ulp_exp q"
  then have "q / 2 powi ulp_exp q \<le> of_int m" by (simp add: pos_divide_le_eq)
  then have "rne (q / 2 powi ulp_exp q) \<le> m" using rne_mono rne_int by metis
  then show "near_pos q \<le> of_int m * 2 powi ulp_exp q"
    unfolding near_pos_def Let_def by (intro mult_right_mono) simp_all
next
  assume "of_int m * 2 powi ulp_exp q \<le> q"
  then have "of_int m \<le> q / 2 powi ulp_exp q" by (simp add: pos_le_divide_eq)
  then have "m \<le> rne (q / 2 powi ulp_exp q)" using rne_mono rne_int by metis
  then show "of_int m * 2 powi ulp_exp q \<le> near_pos q"
    unfolding near_pos_def Let_def by (intro mult_right_mono) simp_all
qed

lemma near_pos_mono:
  assumes "0 < x" and "x \<le> y"
  shows "near_pos x \<le> near_pos y"
proof (cases "ulp_exp x = ulp_exp y")
  case True
  have "rne (x / 2 powi ulp_exp y) \<le> rne (y / 2 powi ulp_exp y)"
    by (rule rne_mono) (simp add: assms divide_right_mono order_less_imp_le)
  then show ?thesis using True by (simp add: near_pos_def Let_def)
next
  case False
  have pos: "0 < y" using assms by simp
  have b: "binade x \<le> binade y" by (rule binade_mono [OF assms])
  then have e: "ulp_exp x < ulp_exp y" "ulp_exp y = binade y - 52" "binade x < binade y"
    using False by (auto simp: ulp_exp_def)
  have split: "2 powi binade y = (of_int (2 ^ nat (binade y - j)) :: rat) * 2 powi j" if "j \<le> binade y" for j
    using that powi_add [of "binade y - j" j] powi_nat [of "binade y - j"] by simp
  have "x < 2 powi (binade x + 1)" by (rule binade_bounds(2) [OF assms(1)])
  also have "\<dots> \<le> 2 powi binade y" using e(3) by (simp add: powi_le_iff)
  finally have "near_pos x \<le> 2 powi binade y"
    using e split [of "ulp_exp x"] near_pos_le [of x "2 ^ nat (binade y - ulp_exp x)"] by simp
  also have "\<dots> \<le> near_pos y"
    using e(2) binade_bounds(1) [OF pos] split [of "ulp_exp y"] near_pos_ge [of "2 ^ nat (binade y - ulp_exp y)" y] by simp
  finally show ?thesis .
qed

lemma near_pos: "0 < q \<Longrightarrow> near q = near_pos q"
  by (simp add: near_def)

lemma near_mono: "x \<le> y \<Longrightarrow> near x \<le> near y"
proof -
  assume le: "x \<le> y"
  consider "0 < x" | "y < 0" | "x \<le> 0" "0 \<le> y" by linarith
  then show "near x \<le> near y"
  proof cases
    case 1
    then show ?thesis using le near_pos_mono by (simp add: near_def)
  next
    case 2
    then show ?thesis using le near_pos_mono [of "- y" "- x"] by (simp add: near_def)
  next
    case 3
    then show ?thesis using near_pos_nonneg [of y] near_pos_nonneg [of "- x"] by (auto simp: near_def)
  qed
qed

text \<open>Powers of two and integers up to \<open>2 ^ 53\<close> are values of the format.\<close>

lemma near_pos_exact:
  assumes "q / 2 powi ulp_exp q = of_int m"
  shows "near_pos q = q"
proof -
  have "q = of_int m * 2 powi ulp_exp q" using assms by (simp add: field_simps)
  then show ?thesis using assms by (simp add: near_pos_def Let_def)
qed

lemma near_pos_multiple:
  assumes "0 < q" and "q = of_int m * 2 powi j" and "ulp_exp q \<le> j"
  shows "near_pos q = q"
proof (rule near_pos_exact)
  have "q / 2 powi ulp_exp q = of_int m * 2 powi (j - ulp_exp q)" using assms(2) by (simp add: powi_add [symmetric] field_simps)
  also have "\<dots> = of_int (m * 2 ^ nat (j - ulp_exp q))" using assms(3) by (simp add: powi_nat)
  finally show "q / 2 powi ulp_exp q = of_int (m * 2 ^ nat (j - ulp_exp q))" .
qed

lemma binade_power: "binade (2 powi k) = k"
proof -
  have "binade (2 powi k) \<le> k" "k < binade (2 powi k) + 1"
    using binade_bounds [of "2 powi k"] by (simp_all add: powi_le_iff powi_less_iff)
  then show ?thesis by simp
qed

lemma near_power: "- 1074 \<le> k \<Longrightarrow> near (2 powi k) = 2 powi k"
  using near_pos_multiple [of "2 powi k" 1 k] by (simp add: near_pos ulp_exp_def binade_power)

lemma near_pos_int:
  assumes "0 < n" and "n \<le> 2 ^ 53"
  shows "near_pos (of_int n) = of_int n"
proof (cases "n = 2 ^ 53")
  case True
  have "(2 :: rat) powi 53 = of_int n" by (simp add: True power_int_def)
  then show ?thesis using near_power [of 53] assms(1) by (simp add: near_pos)
next
  case False
  then have "(of_int n :: rat) < of_int (2 ^ 53)" using assms(2) by (simp only: of_int_less_iff)
  also have "(of_int (2 ^ 53) :: rat) = 2 powi 53" by (simp add: power_int_def)
  finally have "(2 :: rat) powi binade (of_int n) < 2 powi 53" using binade_bounds(1) [of "of_int n"] assms(1) by simp
  then have "binade (of_int n) < 53" by (simp only: powi_less_iff)
  then have "ulp_exp (of_int n) \<le> 0" by (simp add: ulp_exp_def)
  then show ?thesis using assms(1) by (intro near_pos_multiple [of _ n 0]) simp_all
qed

lemma near_int: "\<bar>n\<bar> \<le> 2 ^ 53 \<Longrightarrow> near (of_int n) = of_int n"
  using near_pos_int [of n] near_pos_int [of "- n"] by (auto simp: near_def)

section \<open>Values and operations\<close>

datatype float64 = Fin rat | PInf | NInf | NaN

definition float_limit :: rat where
  "float_limit = 2 ^ 1024"

definition round64 :: "rat \<Rightarrow> float64" where
  "round64 q =
     (let r = near q in if float_limit \<le> r then PInf else if r \<le> - float_limit then NInf else Fin r)"

definition float_of_int :: "int \<Rightarrow> float64" where
  "float_of_int n = round64 (of_int n)"

fun fneg :: "float64 \<Rightarrow> float64" where
  "fneg (Fin a) = Fin (- a)"
| "fneg PInf = NInf"
| "fneg NInf = PInf"
| "fneg NaN = NaN"

fun fadd :: "float64 \<Rightarrow> float64 \<Rightarrow> float64" where
  "fadd (Fin a) (Fin b) = round64 (a + b)"
| "fadd NaN _ = NaN"
| "fadd _ NaN = NaN"
| "fadd PInf NInf = NaN"
| "fadd NInf PInf = NaN"
| "fadd PInf _ = PInf"
| "fadd NInf _ = NInf"
| "fadd (Fin a) y = y"

definition fsub :: "float64 \<Rightarrow> float64 \<Rightarrow> float64" where
  "fsub x y = fadd x (fneg y)"

fun is_neg :: "float64 \<Rightarrow> bool" where
  "is_neg (Fin a) = (a < 0)"
| "is_neg x = (x = NInf)"

definition finf :: "bool \<Rightarrow> float64" where
  "finf negative = (if negative then NInf else PInf)"

definition fmul :: "float64 \<Rightarrow> float64 \<Rightarrow> float64" where
  "fmul x y =
     (case (x, y) of
        (Fin a, Fin b) \<Rightarrow> round64 (a * b)
      | _ \<Rightarrow> if x = NaN \<or> y = NaN \<or> x = Fin 0 \<or> y = Fin 0 then NaN else finf (is_neg x \<noteq> is_neg y))"

text \<open>A divisor that is zero counts as positive.\<close>

definition fdiv :: "float64 \<Rightarrow> float64 \<Rightarrow> float64" where
  "fdiv x y =
     (case (x, y) of
        (Fin a, Fin b) \<Rightarrow> if b = 0 then (if a = 0 then NaN else finf (a < 0)) else round64 (a / b)
      | (Fin a, _) \<Rightarrow> if y = NaN then NaN else Fin 0
      | (_, Fin b) \<Rightarrow> if x = NaN then NaN else finf (is_neg x \<noteq> is_neg y)
      | _ \<Rightarrow> NaN)"

fun fle :: "float64 \<Rightarrow> float64 \<Rightarrow> bool" where
  "fle (Fin a) (Fin b) = (a \<le> b)"
| "fle NaN _ = False"
| "fle _ NaN = False"
| "fle NInf _ = True"
| "fle _ PInf = True"
| "fle _ _ = False"

fun flt :: "float64 \<Rightarrow> float64 \<Rightarrow> bool" where
  "flt (Fin a) (Fin b) = (a < b)"
| "flt NaN _ = False"
| "flt _ NaN = False"
| "flt NInf y = (y \<noteq> NInf)"
| "flt x PInf = (x \<noteq> PInf)"
| "flt _ _ = False"

text \<open>\<^verbatim>\<open>math.Ceil\<close>, and the conversion to an integer of a value in range.\<close>

fun fceil :: "float64 \<Rightarrow> float64" where
  "fceil (Fin a) = Fin (of_int \<lceil>a\<rceil>)"
| "fceil x = x"

fun int_of_float :: "float64 \<Rightarrow> int option" where
  "int_of_float (Fin a) =
     (let n = (if a < 0 then \<lceil>a\<rceil> else \<lfloor>a\<rfloor>) in if - (2 ^ 63) \<le> n \<and> n < 2 ^ 63 then Some n else None)"
| "int_of_float _ = None"

subsection \<open>Rounding between values\<close>

lemma near_between:
  assumes "near l = l" and "near h = h" and "l \<le> q" and "q \<le> h"
  shows "l \<le> near q \<and> near q \<le> h"
  using near_mono [OF assms(3)] near_mono [OF assms(4)] assms(1,2) by simp

lemma round64_between:
  assumes "near l = l" and "near h = h" and "l \<le> q" and "q \<le> h" and "- float_limit < l" and "h < float_limit"
  shows "round64 q = Fin (near q)" and "l \<le> near q" and "near q \<le> h"
proof -
  show b: "l \<le> near q" "near q \<le> h" using near_between [OF assms(1-4)] by simp_all
  have "\<not> float_limit \<le> near q" "\<not> near q \<le> - float_limit" using b assms(5,6) by linarith+
  then show "round64 q = Fin (near q)" by (simp only: round64_def Let_def if_False)
qed

lemma small_power: "2 ^ 53 < float_limit"
  unfolding float_limit_def by (intro power_strict_increasing) simp_all

lemma round64_ints:
  assumes "of_int m \<le> q" and "q \<le> of_int n" and "\<bar>m\<bar> \<le> 2 ^ 53" and "\<bar>n\<bar> \<le> 2 ^ 53"
  shows "round64 q = Fin (near q)" and "of_int m \<le> near q" and "near q \<le> of_int n"
proof -
  have "- (2 ^ 53) \<le> m" "n \<le> 2 ^ 53" using assms(3,4) by linarith+
  then have "of_int (- (2 ^ 53)) \<le> (of_int m :: rat)" "(of_int n :: rat) \<le> of_int (2 ^ 53)"
    by (simp_all only: of_int_le_iff)
  then have "- (2 ^ 53) \<le> (of_int m :: rat)" "(of_int n :: rat) \<le> 2 ^ 53" by simp_all
  then have "- float_limit < of_int m" "of_int n < float_limit" using small_power by linarith+
  from round64_between [OF near_int [OF assms(3)] near_int [OF assms(4)] assms(1,2) this]
  show "round64 q = Fin (near q)" and "of_int m \<le> near q" and "near q \<le> of_int n" by simp_all
qed

lemma float_of_int_exact: "\<bar>n\<bar> \<le> 2 ^ 53 \<Longrightarrow> float_of_int n = Fin (of_int n)"
  using round64_ints(1) [of n "of_int n" n] near_int [of n] by (simp add: float_of_int_def)

end
