(* ===== verification/GoText.thy ===== *)
theory GoText
  imports GoStrings
begin

text \<open>
  More of the Go standard library on byte strings: \<open>strings.Split\<close>, \<open>strings.SplitN\<close>,
  \<open>strings.Join\<close>, \<open>strings.ToUpper\<close>, \<open>strconv.Itoa\<close>, \<open>strconv.Atoi\<close> and the standard
  encoding of \<open>encoding/base64\<close>.
\<close>

section \<open>Bytes and strings\<close>

definition bytes_of :: "string \<Rightarrow> byte list" where
  "bytes_of s = map of_char s"

definition string_of :: "byte list \<Rightarrow> string" where
  "string_of bs = map (\<lambda>b. char_of (unat b)) bs"

lemma unat_of_char: "unat (of_char c :: byte) = of_char c"
proof -
  have "(of_char c :: byte) = word_of_nat (of_char c)" by (simp add: of_nat_of_char)
  then show ?thesis using nat_of_char_less_256 [of c] by (simp add: unat_of_nat)
qed

lemma string_of_bytes [simp]: "string_of (bytes_of s) = s"
  by (induction s) (simp_all add: bytes_of_def string_of_def unat_of_char)

lemma of_char_byte: "of_char (char_of (unat (b :: byte))) = b"
proof -
  have "(of_char (char_of (unat b)) :: byte) = word_of_nat (of_char (char_of (unat b)))" by (simp only: of_nat_of_char)
  also have "\<dots> = word_of_nat (unat b)" by (simp add: of_char_of)
  finally show ?thesis by simp
qed

lemma bytes_of_string [simp]: "bytes_of (string_of bs) = bs"
  by (induction bs) (simp_all add: bytes_of_def string_of_def of_char_byte)

lemma bytes_of_Nil [simp]: "bytes_of s = [] \<longleftrightarrow> s = []" "bytes_of [] = []"
  by (simp_all add: bytes_of_def)

lemma length_bytes_of [simp]: "length (bytes_of s) = length s"
  by (simp add: bytes_of_def)

section \<open>Splitting and joining\<close>

fun Split :: "string \<Rightarrow> char \<Rightarrow> string list" where
  "Split [] sep = [[]]"
| "Split (c # s) sep =
     (if c = sep then [] # Split s sep
      else (case Split s sep of p # ps \<Rightarrow> (c # p) # ps | [] \<Rightarrow> [[c]]))"

definition SplitN2 :: "string \<Rightarrow> char \<Rightarrow> string list" where
  "SplitN2 s sep =
     (case dropWhile (\<lambda>c. c \<noteq> sep) s of
        [] \<Rightarrow> [s]
      | _ # rest \<Rightarrow> [takeWhile (\<lambda>c. c \<noteq> sep) s, rest])"

fun Join :: "string list \<Rightarrow> string \<Rightarrow> string" where
  "Join [] sep = []"
| "Join [s] sep = s"
| "Join (s # t # ts) sep = s @ sep @ Join (t # ts) sep"

lemma Split_nonempty [simp]: "Split s sep \<noteq> []"
  by (induction s) (auto split: list.splits)

lemma Split_none: "sep \<notin> set s \<Longrightarrow> Split s sep = [s]"
  by (induction s) auto

lemma Split_at: "sep \<notin> set s \<Longrightarrow> Split (s @ sep # t) sep = s # Split t sep"
  by (induction s) auto

lemma Split_Join:
  "ss \<noteq> [] \<Longrightarrow> (\<And>s. s \<in> set ss \<Longrightarrow> sep \<notin> set s) \<Longrightarrow> Split (Join ss [sep]) sep = ss"
proof (induction ss "[sep]" rule: Join.induct)
  case (3 s t ts)
  then show ?case by (simp add: Split_at)
qed (simp_all add: Split_none)

lemma Split_parts: "p \<in> set (Split s sep) \<Longrightarrow> sep \<notin> set p \<and> set p \<subseteq> set s"
proof (induction s arbitrary: p)
  case (Cons c s)
  then show ?case by (cases "Split s sep") (fastforce split: if_splits)+
qed simp

lemma Join_Split: "Join (Split s sep) [sep] = s"
proof (induction s)
  case (Cons c s)
  obtain p ps where "Split s sep = p # ps" by (cases "Split s sep") simp_all
  then show ?case using Cons by (cases ps) auto
qed simp

section \<open>Upper case\<close>

text \<open>
  On ASCII strings \<open>strings.ToUpper\<close> maps letter by letter; \<open>unicode\<close> stands for the mapping of the
  others by the Unicode tables.
\<close>

definition upper_char :: "char \<Rightarrow> char" where
  "upper_char c = (let n = of_char c :: nat in if 97 \<le> n \<and> n \<le> 122 then char_of (n - 32) else c)"

definition ToUpper :: "(string \<Rightarrow> string) \<Rightarrow> string \<Rightarrow> string" where
  "ToUpper unicode s = (if list_all (\<lambda>c. (of_char c :: nat) < 128) s then map upper_char s else unicode s)"

section \<open>Decimal numbers\<close>

fun digits :: "nat \<Rightarrow> string" where
  "digits n = (if n < 10 then [char_of (48 + n)] else digits (n div 10) @ [char_of (48 + n mod 10)])"

declare digits.simps [simp del]

definition Itoa :: "int \<Rightarrow> string" where
  "Itoa i = (if i < 0 then CHR ''-'' # digits (nat (- i)) else digits (nat i))"

definition is_digit :: "char \<Rightarrow> bool" where
  "is_digit c \<longleftrightarrow> 48 \<le> (of_char c :: nat) \<and> (of_char c :: nat) \<le> 57"

definition decimal :: "string \<Rightarrow> nat" where
  "decimal s = foldl (\<lambda>n c. n * 10 + (of_char c - 48)) 0 s"

definition Atoi :: "string \<Rightarrow> int option" where
  "Atoi s =
     (let (neg, ds) = (case s of
          c # cs \<Rightarrow> if c = CHR ''-'' then (True, cs) else if c = CHR ''+'' then (False, cs) else (False, s)
        | [] \<Rightarrow> (False, []));
          n = (if neg then - int (decimal ds) else int (decimal ds))
      in if ds \<noteq> [] \<and> list_all is_digit ds \<and> int64 n then Some n else None)"

lemma digit_char: "n < 10 \<Longrightarrow> (of_char (char_of (48 + n :: nat)) :: nat) = 48 + n"
  by (simp add: of_char_of)

lemma digits_ok: "list_all is_digit (digits n) \<and> digits n \<noteq> [] \<and> decimal (digits n) = n"
proof (induction n rule: digits.induct)
  case (1 n)
  show ?case
  proof (cases "n < 10")
    case True
    then show ?thesis by (simp add: digits.simps [of n] is_digit_def decimal_def digit_char)
  next
    case False
    have "is_digit (char_of (48 + n mod 10))" by (simp add: is_digit_def digit_char)
    moreover have "decimal (digits (n div 10) @ [char_of (48 + n mod 10)]) = n div 10 * 10 + n mod 10"
      using 1 False by (simp add: decimal_def digit_char)
    ultimately show ?thesis using 1 False by (subst (1 2 3) digits.simps) simp
  qed
qed

lemma digits_Cons: obtains c cs where "digits n = c # cs" "c \<noteq> CHR ''-''" "c \<noteq> CHR ''+''"
proof -
  obtain c cs where c: "digits n = c # cs" using digits_ok by (cases "digits n") blast+
  then have "is_digit c" using digits_ok [of n] by simp
  then have "c \<noteq> CHR ''-''" "c \<noteq> CHR ''+''" by (auto simp: is_digit_def)
  then show ?thesis using that c by blast
qed

lemma Atoi_Itoa: "int64 i \<Longrightarrow> Atoi (Itoa i) = Some i"
proof (cases "i < 0")
  case True
  assume "int64 i"
  then show ?thesis using True digits_ok [of "nat (- i)"] by (simp add: Atoi_def Itoa_def)
next
  case False
  assume "int64 i"
  moreover obtain c cs where "digits (nat i) = c # cs" "c \<noteq> CHR ''-''" "c \<noteq> CHR ''+''" by (rule digits_Cons)
  ultimately show ?thesis using False digits_ok [of "nat i"] by (simp add: Atoi_def Itoa_def)
qed

lemma Itoa_chars: "c \<in> set (Itoa i) \<Longrightarrow> is_digit c \<or> c = CHR ''-''"
  using digits_ok [of "nat i"] digits_ok [of "nat (- i)"]
  by (auto simp: Itoa_def list_all_iff split: if_splits)

section \<open>Package encoding/base64\<close>

definition base64_alphabet :: string where
  "base64_alphabet = ''ABCDEFGHIJKLMNOPQRSTUVWXYZabcdefghijklmnopqrstuvwxyz0123456789+/''"

text \<open>Three bytes, and the four indices into the alphabet that stand for them.\<close>

definition octets :: "nat \<Rightarrow> nat \<Rightarrow> nat \<Rightarrow> nat" where
  "octets a b c = a * 2 ^ 16 + b * 2 ^ 8 + c"

definition sextet :: "nat \<Rightarrow> nat \<Rightarrow> nat" where
  "sextet i v = v div 64 ^ i mod 64"

definition base64_char :: "nat \<Rightarrow> nat \<Rightarrow> char" where
  "base64_char i v = base64_alphabet ! sextet i v"

fun base64_encode :: "byte list \<Rightarrow> string" where
  "base64_encode [] = []"
| "base64_encode [a] =
     (let v = octets (unat a) 0 0 in [base64_char 3 v, base64_char 2 v, CHR ''='', CHR ''=''])"
| "base64_encode [a, b] =
     (let v = octets (unat a) (unat b) 0 in [base64_char 3 v, base64_char 2 v, base64_char 1 v, CHR ''=''])"
| "base64_encode (a # b # c # bs) =
     (let v = octets (unat a) (unat b) (unat c)
      in [base64_char 3 v, base64_char 2 v, base64_char 1 v, base64_char 0 v] @ base64_encode bs)"

definition sextets :: "nat \<Rightarrow> nat \<Rightarrow> nat \<Rightarrow> nat \<Rightarrow> nat" where
  "sextets i j k l = i * 2 ^ 18 + j * 2 ^ 12 + k * 2 ^ 6 + l"

definition octet :: "nat \<Rightarrow> nat \<Rightarrow> byte" where
  "octet i v = word_of_nat (v div 256 ^ i)"

fun index_in :: "'a list \<Rightarrow> 'a \<Rightarrow> nat option" where
  "index_in [] x = None"
| "index_in (y # ys) x = (if y = x then Some 0 else map_option Suc (index_in ys x))"

definition base64_index :: "char \<Rightarrow> nat option" where
  "base64_index c = index_in base64_alphabet c"

text \<open>
  The decoder skips line ends, allows padding only at the end, and ignores the spare bits of a padded
  group.
\<close>

fun base64_groups :: "string \<Rightarrow> byte list option" where
  "base64_groups [] = Some []"
| "base64_groups (w # x # y # z # s) =
     (case (base64_index w, base64_index x) of
        (Some i, Some j) \<Rightarrow>
          if z = CHR ''='' then
            if s \<noteq> [] then None
            else if y = CHR ''='' then Some [octet 2 (sextets i j 0 0)]
            else (case base64_index y of
                    None \<Rightarrow> None
                  | Some k \<Rightarrow>
                      let v = sextets i j k 0 in Some [octet 2 v, octet 1 v])
          else
            (case (base64_index y, base64_index z, base64_groups s) of
               (Some k, Some l, Some bs) \<Rightarrow>
                 let v = sextets i j k l in Some (octet 2 v # octet 1 v # octet 0 v # bs)
             | _ \<Rightarrow> None)
      | _ \<Rightarrow> None)"
| "base64_groups _ = None"

definition base64_decode :: "string \<Rightarrow> byte list option" where
  "base64_decode s = base64_groups (filter (\<lambda>c. c \<noteq> CHR 0x0A \<and> c \<noteq> CHR 0x0D) s)"

lemma index_in_nth: "distinct xs \<Longrightarrow> n < length xs \<Longrightarrow> index_in xs (xs ! n) = Some n"
  by (induction xs arbitrary: n) (auto simp: nth_Cons split: nat.splits)

lemma base64_table:
  assumes "n < 64"
  shows "base64_index (base64_alphabet ! n) = Some n" "graphic (base64_alphabet ! n)"
    "base64_alphabet ! n \<noteq> CHR ''=''" "base64_alphabet ! n \<noteq> CHR ''|''"
proof -
  have "distinct base64_alphabet" by (simp add: base64_alphabet_def)
  moreover have len: "n < length base64_alphabet" using assms by (simp add: base64_alphabet_def)
  ultimately show "base64_index (base64_alphabet ! n) = Some n" unfolding base64_index_def by (rule index_in_nth)
  have "list_all (\<lambda>c. graphic c \<and> c \<noteq> CHR ''='' \<and> c \<noteq> CHR ''|'') base64_alphabet"
    by (simp add: base64_alphabet_def graphic_def)
  then show "graphic (base64_alphabet ! n)" "base64_alphabet ! n \<noteq> CHR ''=''" "base64_alphabet ! n \<noteq> CHR ''|''"
    using len by (simp_all add: list_all_length)
qed

lemma base64_char_simps [simp]:
  "base64_index (base64_char i v) = Some (sextet i v)" "base64_char i v \<noteq> CHR ''=''" "graphic (base64_char i v)"
  "base64_char i v \<noteq> CHR ''|''"
  by (simp_all add: base64_char_def base64_table sextet_def)

lemma base64_encode_chars: "c \<in> set (base64_encode bs) \<Longrightarrow> graphic c \<and> c \<noteq> CHR ''|''"
  by (induction bs rule: base64_encode.induct) (auto simp: Let_def graphic_def [of "CHR ''=''"])

lemma sextets_sextet:
  assumes "v < 2 ^ 24"
  shows "sextets (sextet 3 v) (sextet 2 v) (sextet 1 v) (sextet 0 v) = v"
proof -
  define p q r where "p = v div 64" and "q = p div 64" and "r = q div 64"
  have "v div 64 ^ 1 = p" "v div 64 ^ 2 = q" "v div 64 ^ 3 = r"
    unfolding p_def q_def r_def by (simp_all add: power_numeral_reduce flip: div_mult2_eq)
  moreover have "r < 64" unfolding p_def q_def r_def using assms by (simp add: div_less_iff_less_mult flip: div_mult2_eq)
  moreover have "v = 64 * p + v mod 64" "p = 64 * q + p mod 64" "q = 64 * r + q mod 64"
    unfolding p_def q_def r_def by simp_all
  ultimately show ?thesis by (simp add: sextets_def sextet_def)
qed

lemma octets_octet:
  fixes a b c :: byte
  defines "v \<equiv> octets (unat a) (unat b) (unat c)"
  shows "octet 2 v = a" "octet 1 v = b" "octet 0 v = c" "v < 2 ^ 24"
proof -
  have "(256 :: byte) = 0" by code_simp
  then have "x * 256 = 0" for x :: byte by (simp only: mult_zero_right)
  then have w: "word_of_nat (x * 256 + unat y) = y" for x and y :: byte by simp
  have v: "v = (unat a * 256 + unat b) * 256 + unat c" by (simp add: v_def octets_def)
  have d: "(x * 256 + unat y) div 256 = x" for x and y :: byte using unat_byte_less [of y] by simp
  have 1: "v div 256 = unat a * 256 + unat b" unfolding v by (rule d)
  have 2: "v div 256 div 256 = unat a" unfolding 1 by (rule d)
  show "octet 0 v = c" unfolding octet_def power_0 div_by_1 v by (rule w)
  show "octet 1 v = b" unfolding octet_def power_one_right 1 by (rule w)
  show "octet 2 v = a" unfolding octet_def power2_eq_square div_mult2_eq 2 by simp
  have "unat x \<le> 255" for x :: byte using unat_byte_less [of x] by linarith
  from this [of a] this [of b] this [of c] have
    "65536 * unat a + 256 * unat b + unat c < 16777216" by linarith
  then show "v < 2 ^ 24" by (simp add: v_def octets_def)
qed

lemma sextet_zero: "sextet 0 (octets a b 0) = 0" "sextet 1 (octets a 0 0) = 0" "sextet 0 (octets a 0 0) = 0"
proof -
  have "octets a b 0 = 64 * (a * 1024 + b * 4)" "octets a 0 0 = 64 * (64 * (16 * a))" by (simp_all add: octets_def)
  then show "sextet 0 (octets a b 0) = 0" "sextet 1 (octets a 0 0) = 0" "sextet 0 (octets a 0 0) = 0"
    by (simp_all add: sextet_def)
qed

lemma base64_groups_encode: "base64_groups (base64_encode bs) = Some bs"
proof (induction bs rule: base64_encode.induct)
  case (2 a)
  show ?case
    using sextets_sextet [OF octets_octet(4), of a 0 0] octets_octet(1) [of a 0 0]
    by (simp add: Let_def sextet_zero sextet_zero(2) [unfolded One_nat_def])
next
  case (3 a b)
  show ?case
    using sextets_sextet [OF octets_octet(4), of a b 0] octets_octet(1,2) [of a b 0] by (simp add: Let_def sextet_zero)
next
  case (4 a b c bs)
  then show ?case
    using sextets_sextet [OF octets_octet(4), of a b c] octets_octet(1-3) [of a b c] by (simp add: Let_def)
qed simp

lemma base64_decode_encode: "base64_decode (base64_encode bs) = Some bs"
proof -
  have "filter (\<lambda>c. c \<noteq> CHR 0x0A \<and> c \<noteq> CHR 0x0D) (base64_encode bs) = base64_encode bs"
    using base64_encode_chars by (intro filter_True) (force simp: graphic_def)
  then show ?thesis by (simp add: base64_decode_def base64_groups_encode)
qed

end
