(* ===== verification/Sensor.thy ===== *)
theory Sensor
  imports Float64 Sha256 GoText
begin

text \<open>
  Sensor readings (\<^verbatim>\<open>pkg/sensor\<close>): the generator of synthetic readings, the location that a name
  stands for, distances on the earth, and the averages of a region. The pseudo-random numbers and the
  functions of \<^verbatim>\<open>math\<close> that are not exactly rounded are arguments. A product that is added is
  rounded before the addition, as on amd64.
\<close>

section \<open>Readings\<close>

record Location =
  Latitude :: float64
  Longitude :: float64

text \<open>The timestamp counts nanoseconds since the epoch.\<close>

record Reading =
  rd_NodeID :: string
  rd_TemperatureC :: float64
  rd_Location :: Location
  rd_Timestamp :: int

definition minTempC :: float64 where
  "minTempC = Fin (- 10)"

definition maxTempC :: float64 where
  "maxTempC = Fin 45"

definition clamp :: "float64 \<Rightarrow> float64 \<Rightarrow> float64 \<Rightarrow> float64" where
  "clamp val lo hi = (if flt val lo then lo else if flt hi val then hi else val)"

definition BigEndian_Uint64 :: "byte list \<Rightarrow> u64" where
  "BigEndian_Uint64 bs = word_of_nat (be_nat bs)"

definition seedFromString :: "string \<Rightarrow> int" where
  "seedFromString val = sint (BigEndian_Uint64 (take 8 (Sum256 (bytes_of val))))"

definition scaleUint64 :: "u64 \<Rightarrow> float64 \<Rightarrow> float64 \<Rightarrow> float64" where
  "scaleUint64 val lo hi =
     (if fle hi lo then lo
      else let fraction = fdiv (float_of_int (uint val)) (float_of_int (2 ^ 64 - 1))
           in fadd lo (fmul fraction (fsub hi lo)))"

definition LocationFromSeed :: "string \<Rightarrow> Location" where
  "LocationFromSeed seed =
     (let hash = Sum256 (bytes_of seed);
          latBits = BigEndian_Uint64 (take 8 hash);
          lonBits = BigEndian_Uint64 (take 8 (drop 8 hash))
      in \<lparr>Latitude = scaleUint64 latBits (Fin (- 90)) (Fin 90), Longitude = scaleUint64 lonBits (Fin (- 180)) (Fin 180)\<rparr>)"

text \<open>
  The generator keeps the state \<open>'r\<close> of its random numbers; \<open>NewSource\<close>, \<open>Float64\<close> and
  \<open>NormFloat64\<close> stand for \<^verbatim>\<open>math/rand\<close>.
\<close>

record 'r Generator =
  gen_nodeID :: string
  gen_location :: Location
  gen_rng :: 'r
  gen_baseTemp :: float64
  gen_jitter :: float64

definition NewGenerator :: "(int \<Rightarrow> 'r) \<Rightarrow> ('r \<Rightarrow> 'r \<times> float64) \<Rightarrow> string \<Rightarrow> Location \<Rightarrow> 'r Generator" where
  "NewGenerator NewSource Float64 nodeID location =
     (let (rng, f) = Float64 (NewSource (seedFromString nodeID))
      in \<lparr>gen_nodeID = nodeID, gen_location = location, gen_rng = rng,
          gen_baseTemp = fadd (Fin 18) (fmul f (Fin 10)), gen_jitter = round64 (8 / 10)\<rparr>)"

definition Generator_Next :: "('r \<Rightarrow> 'r \<times> float64) \<Rightarrow> int \<Rightarrow> 'r Generator \<Rightarrow> 'r Generator \<times> Reading" where
  "Generator_Next NormFloat64 now g =
     (let (rng, f) = NormFloat64 (gen_rng g);
          noise = fmul f (gen_jitter g);
          val = clamp (fadd (gen_baseTemp g) noise) minTempC maxTempC
      in (g\<lparr>gen_rng := rng\<rparr>,
          \<lparr>rd_NodeID = gen_nodeID g, rd_TemperatureC = val, rd_Location = gen_location g, rd_Timestamp = now\<rparr>))"

section \<open>Regions\<close>

record math_lib =
  Sin :: "float64 \<Rightarrow> float64"
  Cos :: "float64 \<Rightarrow> float64"
  Asin :: "float64 \<Rightarrow> float64"
  Sqrt :: "float64 \<Rightarrow> float64"

definition mathPi :: float64 where
  "mathPi = round64 (314159265358979323846264338327950288419716939937510582097494459 / 10 ^ 62)"

definition degreesToRadians :: "float64 \<Rightarrow> float64" where
  "degreesToRadians deg = fdiv (fmul deg mathPi) (Fin 180)"

definition DistanceKm :: "math_lib \<Rightarrow> Location \<Rightarrow> Location \<Rightarrow> float64" where
  "DistanceKm m a b =
     (let lat1 = degreesToRadians (Latitude a);
          lat2 = degreesToRadians (Latitude b);
          deltaLat = degreesToRadians (fsub (Latitude b) (Latitude a));
          deltaLon = degreesToRadians (fsub (Longitude b) (Longitude a));
          sinLat = Sin m (fdiv deltaLat (Fin 2));
          sinLon = Sin m (fdiv deltaLon (Fin 2));
          h = fadd (fmul sinLat sinLat) (fmul (fmul (fmul (Cos m lat1) (Cos m lat2)) sinLon) sinLon)
      in fmul (Fin (2 * 6371)) (Asin m (Sqrt m h)))"

fun selectWithin :: "math_lib \<Rightarrow> Location \<Rightarrow> float64 \<Rightarrow> Reading list \<Rightarrow> Reading list" where
  "selectWithin m center radiusKm [] = []"
| "selectWithin m center radiusKm (reading # readings) =
     (if fle (DistanceKm m center (rd_Location reading)) radiusKm
      then reading # selectWithin m center radiusKm readings
      else selectWithin m center radiusKm readings)"

definition FilterByRadius :: "math_lib \<Rightarrow> Reading list \<Rightarrow> Location \<Rightarrow> float64 \<Rightarrow> Reading list" where
  "FilterByRadius m readings center radiusKm =
     (if fle radiusKm (Fin 0) then [] else selectWithin m center radiusKm readings)"

fun sumTemperatures :: "float64 \<Rightarrow> Reading list \<Rightarrow> float64" where
  "sumTemperatures s [] = s"
| "sumTemperatures s (reading # readings) = sumTemperatures (fadd s (rd_TemperatureC reading)) readings"

definition AverageTemperature :: "Reading list \<Rightarrow> string + float64" where
  "AverageTemperature readings =
     (if readings = [] then Inl ''no readings provided''
      else Inr (fdiv (sumTemperatures (Fin 0) readings) (float_of_int (int (length readings)))))"

definition AverageTemperatureInRadius :: "math_lib \<Rightarrow> Reading list \<Rightarrow> Location \<Rightarrow> float64 \<Rightarrow> string + float64 \<times> int" where
  "AverageTemperatureInRadius m readings center radiusKm =
     (let matched = FilterByRadius m readings center radiusKm
      in if matched = [] then Inl ''no readings in radius''
         else case AverageTemperature matched of
                Inl err \<Rightarrow> Inl err
              | Inr avg \<Rightarrow> Inr (avg, int (length matched)))"

section \<open>What readings look like\<close>

text \<open>A finite value between two integers.\<close>

definition between :: "int \<Rightarrow> float64 \<Rightarrow> int \<Rightarrow> bool" where
  "between l x h \<longleftrightarrow> (case x of Fin r \<Rightarrow> of_int l \<le> r \<and> r \<le> of_int h | _ \<Rightarrow> False)"

lemma between_Fin [simp]: "between l (Fin r) h \<longleftrightarrow> of_int l \<le> r \<and> r \<le> of_int h"
  by (simp add: between_def)

lemma betweenE:
  assumes "between l x h" obtains r where "x = Fin r" and "of_int l \<le> r" and "r \<le> of_int h"
  using assms that by (cases x) (auto simp: between_def)

lemma between_round:
  assumes "of_int l \<le> q" and "q \<le> of_int h" and "\<bar>l\<bar> \<le> 2 ^ 53" and "\<bar>h\<bar> \<le> 2 ^ 53"
  shows "between l (round64 q) h"
  using round64_ints [OF assms] by simp

lemma round64_0 [simp]: "round64 0 = Fin 0"
  using round64_ints(1) [of 0 0 0] by (simp add: near_def)

lemma round64_int: "\<bar>n\<bar> \<le> 2 ^ 53 \<Longrightarrow> round64 (of_int n) = Fin (of_int n)"
  using float_of_int_exact [of n] by (simp add: float_of_int_def)

lemma clamp_between:
  assumes "x \<noteq> NaN" and "l \<le> h"
  shows "between l (clamp x (Fin (of_int l)) (Fin (of_int h))) h"
  using assms by (cases x) (auto simp: clamp_def)

lemma fraction_between: "between 0 (fdiv (float_of_int (uint v)) (float_of_int (2 ^ 64 - 1))) 1" for v :: u64
proof -
  have p: "near (2 powi 64) = 2 powi 64" by (rule near_power) simp
  have p64: "(2 :: rat) powi 64 = 2 ^ 64" by (simp add: power_int_def)
  have lim: "(2 :: rat) powi 64 < float_limit" "- float_limit < 0"
    unfolding p64 float_limit_def by (intro power_strict_increasing) simp_all
  have r: "float_of_int n = Fin (near (of_int n))" "0 \<le> near (of_int n)" "near (of_int n) \<le> 2 powi 64"
    if "0 \<le> n" "n \<le> 2 ^ 64" for n
  proof -
    have "(of_int n :: rat) \<le> of_int (2 ^ 64)" using that(2) by (simp only: of_int_le_iff)
    then have v: "0 \<le> (of_int n :: rat)" "(of_int n :: rat) \<le> 2 powi 64" using that(1) by (simp_all add: p64)
    from round64_between [OF _ p v lim(2,1)]
    show "float_of_int n = Fin (near (of_int n))" "0 \<le> near (of_int n)" "near (of_int n) \<le> 2 powi 64"
      by (simp_all add: near_def [of 0] float_of_int_def)
  qed
  have "uint v \<le> 2 ^ 64" using uint_lt2p [of v] by simp
  note 1 = r [OF uint_ge_0 this]
  have "near (of_int (2 ^ 64 - 1)) = 2 ^ 64" by code_simp
  then have 2: "float_of_int (2 ^ 64 - 1) = Fin (2 ^ 64)" using r(1) [of "2 ^ 64 - 1"] by simp
  show ?thesis
    unfolding 1(1) 2 fdiv_def using 1(2,3) by (simp add: p64) (intro between_round; simp add: field_simps)
qed

lemma scaleUint64_between:
  assumes "l < h" and "\<bar>l\<bar> \<le> 2 ^ 52" and "\<bar>h\<bar> \<le> 2 ^ 52"
  shows "between l (scaleUint64 v (Fin (of_int l)) (Fin (of_int h))) h"
proof -
  obtain r where r: "fdiv (float_of_int (uint v)) (float_of_int (2 ^ 64 - 1)) = Fin r" "0 \<le> r" "r \<le> 1"
    using fraction_between [of v] by (auto elim: betweenE)
  have d: "fsub (Fin (of_int h)) (Fin (of_int l)) = Fin (of_int (h - l))"
    using round64_int [of "h - l"] assms by (simp add: fsub_def)
  have "between 0 (fmul (Fin r) (Fin (of_int (h - l)))) (h - l)"
    unfolding fmul_def using r(2,3) assms
    by (simp only: prod.case float64.case) (intro between_round, simp_all add: mult_left_le_one_le)
  then obtain x where x: "fmul (Fin r) (Fin (of_int (h - l))) = Fin x" "0 \<le> x" "x \<le> of_int (h - l)"
    by (auto elim: betweenE)
  have "between l (fadd (Fin (of_int l)) (Fin x)) h"
    using x(2,3) assms by (simp only: fadd.simps) (intro between_round, simp_all)
  moreover have "\<not> fle (Fin (of_int h)) (Fin (of_int l))" using assms(1) by simp
  ultimately show ?thesis unfolding scaleUint64_def Let_def r(1) d x(1) by (simp only: if_False)
qed

lemma LocationFromSeed_between:
  "between (- 90) (Latitude (LocationFromSeed seed)) 90" "between (- 180) (Longitude (LocationFromSeed seed)) 180"
  using scaleUint64_between [of "- 90" 90] scaleUint64_between [of "- 180" 180]
  by (simp_all add: LocationFromSeed_def Let_def)

lemma fadd_not_NaN: "y \<noteq> NaN \<Longrightarrow> fadd (Fin a) y \<noteq> NaN"
  by (cases y) (simp_all add: round64_def Let_def)

lemma base_between:
  assumes "between 0 f 1"
  shows "between 18 (fadd (Fin 18) (fmul f (Fin 10))) 28"
proof -
  obtain r where r: "f = Fin r" "0 \<le> r" "r \<le> 1" using assms by (auto elim: betweenE)
  have "between 0 (fmul f (Fin 10)) 10" unfolding r(1) fmul_def using r(2,3) by simp (intro between_round, simp_all)
  then obtain x where x: "fmul f (Fin 10) = Fin x" "0 \<le> x" "x \<le> 10" by (auto elim: betweenE)
  show ?thesis unfolding x(1) fadd.simps using x(2,3) by (intro between_round) simp_all
qed

text \<open>The state of a generator between readings.\<close>

definition gen_ok :: "string \<Rightarrow> 'r Generator \<Rightarrow> bool" where
  "gen_ok name g \<longleftrightarrow> gen_nodeID g = name \<and> gen_location g = LocationFromSeed name \<and>
     between 18 (gen_baseTemp g) 28 \<and> (\<exists>j. gen_jitter g = Fin j)"

lemma NewGenerator_ok:
  assumes "\<And>s. between 0 (snd (Float64 s)) 1"
  shows "gen_ok name (NewGenerator NewSource Float64 name (LocationFromSeed name))"
proof -
  have "\<exists>j. round64 (8 / 10) = Fin j" using between_round [of 0 "8 / 10" 1] by (auto elim: betweenE)
  then show ?thesis
    using base_between [OF assms] by (simp add: gen_ok_def NewGenerator_def Let_def case_prod_beta)
qed

lemma Generator_Next_ok:
  assumes "gen_ok name g" and "\<And>s. \<exists>r. snd (NormFloat64 s) = Fin r"
    and "Generator_Next NormFloat64 now g = (g', reading)"
  shows "gen_ok name g'" and "rd_NodeID reading = name" and "between (- 10) (rd_TemperatureC reading) 45"
    and "rd_Location reading = LocationFromSeed name" and "rd_Timestamp reading = now"
proof -
  obtain rng f where f: "NormFloat64 (gen_rng g) = (rng, f)" by fastforce
  obtain r j b where rj: "f = Fin r" "gen_jitter g = Fin j" "gen_baseTemp g = Fin b"
    using assms(1) assms(2) [of "gen_rng g"] f by (auto simp: gen_ok_def elim: betweenE)
  have "fmul (Fin r) (Fin j) \<noteq> NaN" by (simp add: fmul_def round64_def Let_def)
  then have "fadd (gen_baseTemp g) (fmul f (gen_jitter g)) \<noteq> NaN" unfolding rj by (rule fadd_not_NaN)
  from clamp_between [OF this, of "- 10" 45] show "between (- 10) (rd_TemperatureC reading) 45"
    using assms(3) f by (auto simp: Generator_Next_def minTempC_def maxTempC_def)
  show "gen_ok name g'" "rd_NodeID reading = name" "rd_Location reading = LocationFromSeed name" "rd_Timestamp reading = now"
    using assms(1,3) f by (auto simp: Generator_Next_def gen_ok_def Let_def)
qed

text \<open>The readings that a generator gives at the given times.\<close>

fun Generator_readings :: "('r \<Rightarrow> 'r \<times> float64) \<Rightarrow> int list \<Rightarrow> 'r Generator \<Rightarrow> Reading list" where
  "Generator_readings NormFloat64 [] g = []"
| "Generator_readings NormFloat64 (now # nows) g =
     (let (g', reading) = Generator_Next NormFloat64 now g in reading # Generator_readings NormFloat64 nows g')"

lemma Generator_readings_ok:
  assumes "gen_ok name g" and "\<And>s. \<exists>r. snd (NormFloat64 s) = Fin r" and "x \<in> set (Generator_readings NormFloat64 nows g)"
  shows "rd_NodeID x = name \<and> between (- 10) (rd_TemperatureC x) 45 \<and> rd_Location x = LocationFromSeed name"
  using assms(1,3)
proof (induction nows arbitrary: g)
  case (Cons now nows)
  obtain g' reading where n: "Generator_Next NormFloat64 now g = (g', reading)" by fastforce
  note ok = Generator_Next_ok [OF Cons.prems(1) assms(2) n]
  show ?case using Cons.prems(2) Cons.IH [OF ok(1)] ok n by auto
qed simp

text \<open>
  C22: sensor readings are plausible. Whatever the random numbers are, as long as \<^verbatim>\<open>Float64\<close> gives a value from 0
  to 1 and \<^verbatim>\<open>NormFloat64\<close> a finite value, all the readings of the generator that a program builds for a
  node name carry this name, a temperature from -10 to 45 degrees, and a location with a latitude from -90 to 90
  and a longitude from -180 to 180 degrees.
\<close>

theorem Generator_plausible:
  assumes "\<And>s. between 0 (snd (Float64 s)) 1" and "\<And>s. \<exists>r. snd (NormFloat64 s) = Fin r"
    and "x \<in> set (Generator_readings NormFloat64 nows (NewGenerator NewSource Float64 name (LocationFromSeed name)))"
  shows "rd_NodeID x = name \<and> between (- 10) (rd_TemperatureC x) 45 \<and>
    between (- 90) (Latitude (rd_Location x)) 90 \<and> between (- 180) (Longitude (rd_Location x)) 180"
  using Generator_readings_ok [OF NewGenerator_ok [OF assms(1)] assms(2,3)] LocationFromSeed_between [of name] by simp

theorem Generator_plausible_witness:
  "\<exists>x \<in> set (Generator_readings (\<lambda>s :: unit. (s, Fin 3)) [7] (NewGenerator (\<lambda>_. ()) (\<lambda>s. (s, Fin 0)) ''a'' (LocationFromSeed ''a''))).
     rd_NodeID x = ''a'' \<and> between (- 10) (rd_TemperatureC x) 45 \<and> between (- 90) (Latitude (rd_Location x)) 90"
proof -
  let ?xs = "Generator_readings (\<lambda>s :: unit. (s, Fin 3)) [7] (NewGenerator (\<lambda>_. ()) (\<lambda>s. (s, Fin 0)) ''a'' (LocationFromSeed ''a''))"
  obtain x where x: "x \<in> set ?xs" by (auto simp: Let_def case_prod_beta)
  then show ?thesis
    using Generator_plausible [of "\<lambda>s. (s, Fin 0)" "\<lambda>s. (s, Fin 3)" x "[7]" "\<lambda>_. ()" "''a''"] by auto
qed

section \<open>Averages\<close>

definition temp_ok :: "Reading \<Rightarrow> bool" where
  "temp_ok x \<longleftrightarrow> between (- 10) (rd_TemperatureC x) 45"

lemma sum_between:
  assumes "\<And>x. x \<in> set xs \<Longrightarrow> temp_ok x" and "k + length xs \<le> 2 ^ 40"
    and "between (- 10 * int k) s (45 * int k)"
  shows "between (- 10 * int (k + length xs)) (sumTemperatures s xs) (45 * int (k + length xs))"
  using assms
proof (induction xs arbitrary: s k)
  case (Cons x xs)
  obtain r where r: "s = Fin r" "of_int (- 10 * int k) \<le> r" "r \<le> of_int (45 * int k)" using Cons.prems(3) by (rule betweenE)
  have "temp_ok x" using Cons.prems(1) by simp
  then obtain t where t: "rd_TemperatureC x = Fin t" "- 10 \<le> t" "t \<le> 45" by (auto simp: temp_ok_def elim: betweenE)
  have "between (- 10 * int (Suc k)) (fadd s (rd_TemperatureC x)) (45 * int (Suc k))"
    unfolding r(1) t(1) fadd.simps using r(2,3) t(2,3) Cons.prems(2) by (intro between_round) simp_all
  from Cons.IH [OF _ _ this] show ?case using Cons.prems(1,2) by simp
qed simp

lemma Average_between:
  assumes "\<And>x. x \<in> set xs \<Longrightarrow> temp_ok x" and "length xs \<le> 2 ^ 40" and "xs \<noteq> []"
  obtains avg where "AverageTemperature xs = Inr avg" and "between (- 10) avg 45"
proof -
  define n where "n = int (length xs)"
  have n: "0 < n" "n \<le> 2 ^ 40" using assms(2,3) by (simp_all add: n_def)
  obtain r where r: "sumTemperatures (Fin 0) xs = Fin r" "of_int (- 10 * n) \<le> r" "r \<le> of_int (45 * n)"
    using sum_between [of xs 0 "Fin 0"] assms(1,2) by (auto simp: n_def elim: betweenE)
  have "float_of_int n = Fin (of_int n)" using n by (intro float_of_int_exact) simp
  moreover have "between (- 10) (fdiv (Fin r) (Fin (of_int n))) 45"
    unfolding fdiv_def using n r(2,3) by simp (intro between_round; simp add: field_simps)
  ultimately show ?thesis using that assms(3) r(1) by (auto simp: AverageTemperature_def n_def)
qed

lemma selectWithin_filter:
  "selectWithin m center radiusKm xs = filter (\<lambda>x. fle (DistanceKm m center (rd_Location x)) radiusKm) xs"
  by (induction xs) simp_all

text \<open>What the region query needs of the functions of \<^verbatim>\<open>math\<close>: their values at zero, and that a cosine is finite.\<close>

definition math_ok :: "math_lib \<Rightarrow> bool" where
  "math_ok m \<longleftrightarrow> Sin m (Fin 0) = Fin 0 \<and> Asin m (Fin 0) = Fin 0 \<and> Sqrt m (Fin 0) = Fin 0 \<and>
     (\<forall>r. between (- 1) (Cos m (Fin r)) 1)"

definition loc_ok :: "Location \<Rightarrow> bool" where
  "loc_ok a \<longleftrightarrow> between (- 90) (Latitude a) 90 \<and> between (- 180) (Longitude a) 180"

lemma fmul_0 [simp]: "fmul (Fin r) (Fin 0) = Fin 0" "fmul (Fin 0) (Fin r) = Fin 0"
  by (simp_all add: fmul_def)

lemma fdiv_0: "0 < r \<Longrightarrow> fdiv (Fin 0) (Fin r) = Fin 0"
  by (simp add: fdiv_def)

lemma fsub_self: "between l x h \<Longrightarrow> fsub x x = Fin 0"
  by (auto simp: fsub_def elim: betweenE)

lemma mathPi_between: "between 3 mathPi 4"
  unfolding mathPi_def by (intro between_round) simp_all

lemma radians_finite:
  assumes "between (- 180) x 180"
  obtains r where "degreesToRadians x = Fin r"
proof -
  obtain p where p: "mathPi = Fin p" "3 \<le> p" "p \<le> 4" using mathPi_between by (auto elim: betweenE)
  obtain d where d: "x = Fin d" "- 180 \<le> d" "d \<le> 180" using assms by (auto elim: betweenE)
  have "\<bar>d * p\<bar> \<le> 180 * 4" unfolding abs_mult using d p by (intro mult_mono) auto
  then have "between (- 720) (fmul x mathPi) 720" unfolding d(1) p(1) fmul_def by simp (intro between_round; simp)
  then obtain q where q: "fmul x mathPi = Fin q" "- 720 \<le> q" "q \<le> 720" by (auto elim: betweenE)
  have "between (- 720) (degreesToRadians x) 720"
    unfolding degreesToRadians_def q(1) fdiv_def using q(2,3) by simp (intro between_round; simp)
  then show ?thesis using that by (auto elim: betweenE)
qed

lemma DistanceKm_self:
  assumes "math_ok m" and "loc_ok a"
  shows "DistanceKm m a a = Fin 0"
proof -
  obtain p where p: "mathPi = Fin p" using mathPi_between by (auto elim: betweenE)
  have z: "degreesToRadians (Fin 0) = Fin 0" unfolding degreesToRadians_def p by (simp add: fdiv_0)
  obtain r where r: "degreesToRadians (Latitude a) = Fin r"
    using assms(2) by (auto simp: loc_ok_def elim!: betweenE intro: radians_finite [of "Latitude a"])
  obtain c where c: "Cos m (Fin r) = Fin c" "- 1 \<le> c" "c \<le> 1"
    using assms(1) by (auto simp: math_ok_def elim!: allE [of _ r] betweenE)
  have "\<bar>c * c\<bar> \<le> 1 * 1" unfolding abs_mult using c(2,3) by (intro mult_mono) auto
  then have "- 1 \<le> c * c" "c * c \<le> 1" unfolding abs_le_iff by linarith+
  then have "between (- 1) (fmul (Fin c) (Fin c)) 1" unfolding fmul_def by simp (intro between_round; simp)
  then obtain d where d: "fmul (Fin c) (Fin c) = Fin d" by (auto elim: betweenE)
  have s: "fsub (Latitude a) (Latitude a) = Fin 0" "fsub (Longitude a) (Longitude a) = Fin 0"
    using assms(2) fsub_self unfolding loc_ok_def by blast+
  show ?thesis using assms(1) by (simp add: DistanceKm_def Let_def s z r c(1) d fdiv_0 math_ok_def)
qed

text \<open>
  C21: a region query around a sensor succeeds. When the temperatures are from -10 to 45 degrees and there are at most \<open>2 ^ 40\<close> readings, the query for the average temperature within
  a positive radius of the location of one of them, which has a latitude and a longitude in their ranges, returns the number of the readings whose distance is at
  most the radius, at least one, and an average from -10 to 45 degrees, in spite of the
  rounding of every addition.
\<close>

theorem region_query_succeeds:
  assumes "math_ok m" and "\<And>x. x \<in> set xs \<Longrightarrow> between (- 10) (rd_TemperatureC x) 45" and "length xs \<le> 2 ^ 40"
    and "y \<in> set xs" and "loc_ok (rd_Location y)" and "flt (Fin 0) radiusKm"
  shows "\<exists>avg. AverageTemperatureInRadius m xs (rd_Location y) radiusKm =
      Inr (avg, int (length (filter (\<lambda>x. fle (DistanceKm m (rd_Location y) (rd_Location x)) radiusKm) xs))) \<and>
    between (- 10) avg 45 \<and>
    0 < length (filter (\<lambda>x. fle (DistanceKm m (rd_Location y) (rd_Location x)) radiusKm) xs)"
proof -
  let ?ys = "filter (\<lambda>x. fle (DistanceKm m (rd_Location y) (rd_Location x)) radiusKm) xs"
  have r: "\<not> fle radiusKm (Fin 0)" "fle (Fin 0) radiusKm" using assms(6) by (cases radiusKm; simp)+
  have "y \<in> set ?ys" using assms(4) r(2) DistanceKm_self [OF assms(1,5)] by simp
  then have ne: "?ys \<noteq> []" by (metis empty_iff empty_set)
  have len: "length ?ys \<le> 2 ^ 40" using length_filter_le assms(3) by (rule order_trans)
  have "temp_ok x" if "x \<in> set ?ys" for x using assms(2) that by (simp add: temp_ok_def)
  then obtain avg where "AverageTemperature ?ys = Inr avg" "between (- 10) avg 45"
    by (rule Average_between [OF _ len ne])
  then show ?thesis
    using r(1) ne by (auto simp: AverageTemperatureInRadius_def FilterByRadius_def selectWithin_filter)
qed

definition example_math :: math_lib where
  "example_math = \<lparr>Sin = (\<lambda>x. x), Cos = (\<lambda>_. Fin 1), Asin = (\<lambda>x. x), Sqrt = (\<lambda>x. x)\<rparr>"

definition example_reading :: Reading where
  "example_reading = \<lparr>rd_NodeID = ''a'', rd_TemperatureC = Fin 20, rd_Location = \<lparr>Latitude = Fin 10, Longitude = Fin 20\<rparr>,
     rd_Timestamp = 0\<rparr>"

theorem region_query_succeeds_witness:
  "math_ok example_math \<and> loc_ok (rd_Location example_reading) \<and>
   (\<exists>avg n. AverageTemperatureInRadius example_math [example_reading] (rd_Location example_reading) (Fin 5) = Inr (avg, int n) \<and>
      between (- 10) avg 45 \<and> 0 < n)"
proof -
  have m: "math_ok example_math" by (simp add: math_ok_def example_math_def)
  have l: "loc_ok (rd_Location example_reading)" by (simp add: loc_ok_def example_reading_def)
  have "between (- 10) (rd_TemperatureC example_reading) 45" by (simp add: example_reading_def)
  then show ?thesis using region_query_succeeds [of example_math "[example_reading]" example_reading "Fin 5"] m l by auto
qed

section \<open>Serialized readings\<close>

text \<open>\<^verbatim>\<open>json.Marshal\<close> and \<^verbatim>\<open>json.Unmarshal\<close> on readings are arguments.\<close>

definition EncodeReading :: "(Reading \<Rightarrow> string + byte list) \<Rightarrow> Reading \<Rightarrow> string + byte list" where
  "EncodeReading Marshal reading = Marshal reading"

definition DecodeReading :: "(byte list \<Rightarrow> string + Reading) \<Rightarrow> byte list \<Rightarrow> string + Reading" where
  "DecodeReading Unmarshal payload = Unmarshal payload"

section \<open>Stores of readings\<close>

text \<open>
  What the sensor nodes and the coordinator expect of a store of readings: it files a reading
  under the node that took it. Then it holds the latest reading of each node.
\<close>

locale reading_store =
  fixes get :: "'s \<Rightarrow> string \<rightharpoonup> Reading" and put :: "'t \<Rightarrow> Reading \<Rightarrow> 's \<Rightarrow> 's"
  assumes get_put: "get (put t r s) = (get s)(rd_NodeID r \<mapsto> r)"
begin

lemma get_fold: "get (fold (\<lambda>(t, r). put t r) trs s) = get s ++ map_of (rev (map (\<lambda>(t, r). (rd_NodeID r, r)) trs))"
  by (induction trs arbitrary: s) (auto simp: get_put)

lemma dom_fold: "dom (get (fold (\<lambda>(t, r). put t r) trs s)) = dom (get s) \<union> (\<lambda>(t, r). rd_NodeID r) ` set trs"
  by (induction trs arbitrary: s) (auto simp: get_put)

lemma put_filed: "(\<forall>k r. get s k = Some r \<longrightarrow> rd_NodeID r = k) \<Longrightarrow> get (put t r' s) k = Some r \<Longrightarrow> rd_NodeID r = k"
  by (auto simp: get_put split: if_splits)

end

end
