(* ===== verification/GossipSim.thy ===== *)
theory GossipSim
  imports Float64 Prelude
begin

text \<open>
  The simulator of an epidemic broadcast (\<^verbatim>\<open>pkg/gossip/gossip.go\<close>). The state of the random numbers is an
  argument, with \<open>Perm\<close> for \<^verbatim>\<open>rng.Perm\<close>; the order in which the map of the infected nodes is iterated is
  given by a list of choices for each step. A map from strings to booleans is the list of its keys.
\<close>

section \<open>The simulation\<close>

record GossipNode =
  gs_ID :: string
  gs_Peers :: "string list"

record SimResult =
  Steps :: int
  ReachedCount :: int
  ReachedRatio :: float64
  Total :: int

datatype sim_error =
    SimulatorIsNil
  | NoNodes
  | FanoutNotPositive
  | BadTargetRatio
  | MaxStepsNotPositive
  | InitialNotFound
  | TargetNotReached

definition noResult :: SimResult where
  "noResult = \<lparr>Steps = 0, ReachedCount = 0, ReachedRatio = Fin 0, Total = 0\<rparr>"

definition selectRandomPeers :: "('r \<Rightarrow> nat \<Rightarrow> 'r \<times> nat list) \<Rightarrow> string list \<Rightarrow> int \<Rightarrow> 'r \<Rightarrow> 'r \<times> string list" where
  "selectRandomPeers Perm peers fanout rng =
     (if peers = [] then (rng, [])
      else if int (length peers) \<le> fanout then (rng, peers)
      else let (rng', indices) = Perm rng (length peers)
           in (rng', map (\<lambda>i. peers ! (indices ! i)) [0..<nat fanout]))"

fun infectPeers :: "string list \<Rightarrow> string list \<Rightarrow> string list \<Rightarrow> string list" where
  "infectPeers infected newly [] = newly"
| "infectPeers infected newly (peerID # selected) =
     (if peerID \<in> set infected then infectPeers infected newly selected
      else infectPeers infected (List.insert peerID newly) selected)"

text \<open>A key that is not in the map reads as the empty list.\<close>

definition peersOf :: "(string \<rightharpoonup> string list) \<Rightarrow> string \<Rightarrow> string list" where
  "peersOf m y = (case m y of None \<Rightarrow> [] | Some ps \<Rightarrow> ps)"

fun infectFrom :: "('r \<Rightarrow> nat \<Rightarrow> 'r \<times> nat list) \<Rightarrow> (string \<rightharpoonup> string list) \<Rightarrow> int \<Rightarrow> string list \<Rightarrow> 'r \<Rightarrow> string list \<Rightarrow>
    string list \<Rightarrow> 'r \<times> string list" where
  "infectFrom Perm peersByID fanout infected rng newly [] = (rng, newly)"
| "infectFrom Perm peersByID fanout infected rng newly (nodeID # nodeIDs) =
     (let peers = peersOf peersByID nodeID;
          (rng', selected) = selectRandomPeers Perm peers fanout rng
      in infectFrom Perm peersByID fanout infected rng' (infectPeers infected newly selected) nodeIDs)"

definition simRatio :: "nat \<Rightarrow> nat \<Rightarrow> float64" where
  "simRatio reached n_all = fdiv (float_of_int (int reached)) (float_of_int (int n_all))"

text \<open>The loop over the steps, with the number of steps that are left.\<close>

fun simSteps :: "('r \<Rightarrow> nat \<Rightarrow> 'r \<times> nat list) \<Rightarrow> (int \<Rightarrow> nat list) \<Rightarrow> (string \<rightharpoonup> string list) \<Rightarrow> int \<Rightarrow> float64 \<Rightarrow> nat \<Rightarrow>
    nat \<Rightarrow> int \<Rightarrow> 'r \<Rightarrow> string list \<Rightarrow> SimResult \<times> sim_error option" where
  "simSteps Perm orders peersByID fanout targetRatio n_all 0 step rng infected =
     (let reached = length infected
      in (\<lparr>Steps = step - 1, ReachedCount = int reached, ReachedRatio = simRatio reached n_all, Total = int n_all\<rparr>,
          Some TargetNotReached))"
| "simSteps Perm orders peersByID fanout targetRatio n_all (Suc left) step rng infected =
     (let (rng', newly) = infectFrom Perm peersByID fanout infected rng [] (shuffle (orders step) infected);
          infected' = infected @ newly;
          reached = length infected'; reachedRatio = simRatio reached n_all
      in if fle targetRatio reachedRatio
         then (\<lparr>Steps = step, ReachedCount = int reached, ReachedRatio = reachedRatio, Total = int n_all\<rparr>, None)
         else simSteps Perm orders peersByID fanout targetRatio n_all left (step + 1) rng' infected')"

definition peersMap :: "GossipNode list \<Rightarrow> string \<rightharpoonup> string list" where
  "peersMap nodes = foldl (\<lambda>m node. m(gs_ID node \<mapsto> gs_Peers node)) Map.empty nodes"

text \<open>A simulator is its generator.\<close>

definition NewSimulator :: "(int \<Rightarrow> 'r) \<Rightarrow> int \<Rightarrow> 'r option" where
  "NewSimulator NewSource seed = Some (NewSource seed)"

definition SimulatePropagation :: "('r \<Rightarrow> nat \<Rightarrow> 'r \<times> nat list) \<Rightarrow> (int \<Rightarrow> nat list) \<Rightarrow> 'r option \<Rightarrow> GossipNode list \<Rightarrow> string \<Rightarrow> int \<Rightarrow>
    float64 \<Rightarrow> int \<Rightarrow> SimResult \<times> sim_error option" where
  "SimulatePropagation Perm orders s nodes initialID fanout targetRatio maxSteps =
     (case s of
        None \<Rightarrow> (noResult, Some SimulatorIsNil)
      | Some rng \<Rightarrow>
          if nodes = [] then (noResult, Some NoNodes)
          else if fanout \<le> 0 then (noResult, Some FanoutNotPositive)
          else if fle targetRatio (Fin 0) \<or> flt (Fin 1) targetRatio then (noResult, Some BadTargetRatio)
          else if maxSteps \<le> 0 then (noResult, Some MaxStepsNotPositive)
          else
            let peersByID = peersMap nodes
            in if peersByID initialID = None then (noResult, Some InitialNotFound)
               else simSteps Perm orders peersByID fanout targetRatio (length nodes) (nat maxSteps) 1 rng [initialID])"

section \<open>The spread\<close>

text \<open>The nodes within \<open>k\<close> hops.\<close>

fun ball :: "(string \<rightharpoonup> string list) \<Rightarrow> string \<Rightarrow> nat \<Rightarrow> string set" where
  "ball m x 0 = {x}"
| "ball m x (Suc k) = ball m x k \<union> (\<Union>y \<in> ball m x k. set (peersOf m y))"

lemma finite_ball [simp]: "finite (ball m x k)"
  by (induction k) auto

text \<open>What \<^verbatim>\<open>rng.Perm\<close> promises.\<close>

definition draws_perm :: "('r \<Rightarrow> nat \<Rightarrow> 'r \<times> nat list) \<Rightarrow> bool" where
  "draws_perm Perm \<longleftrightarrow> (\<forall>rng n. mset (snd (Perm rng n)) = mset [0..<n])"

lemma selectRandomPeers_set:
  assumes "draws_perm Perm"
  shows "set (snd (selectRandomPeers Perm peers fanout rng)) \<subseteq> set peers"
    and "length (snd (selectRandomPeers Perm peers fanout rng)) \<le> nat fanout"
    and "int (length peers) \<le> fanout \<Longrightarrow> set (snd (selectRandomPeers Perm peers fanout rng)) = set peers"
proof -
  have m: "mset (snd (Perm rng (length peers))) = mset [0..<length peers]" using assms by (simp add: draws_perm_def)
  have len: "length (snd (Perm rng (length peers))) = length peers" using mset_eq_length [OF m] by simp
  have "set (snd (Perm rng (length peers))) = {0..<length peers}" using mset_eq_setD [OF m] by simp
  then have "snd (Perm rng (length peers)) ! i < length peers" if "i < length peers" for i
    using nth_mem [of i "snd (Perm rng (length peers))"] that len by auto
  then show "set (snd (selectRandomPeers Perm peers fanout rng)) \<subseteq> set peers"
    by (auto simp: selectRandomPeers_def Let_def case_prod_beta intro!: nth_mem)
  show "length (snd (selectRandomPeers Perm peers fanout rng)) \<le> nat fanout"
    by (auto simp: selectRandomPeers_def Let_def case_prod_beta)
  show "int (length peers) \<le> fanout \<Longrightarrow> set (snd (selectRandomPeers Perm peers fanout rng)) = set peers"
    by (simp add: selectRandomPeers_def)
qed

lemma infectPeers_set:
  "set (infectPeers infected newly selected) = set newly \<union> (set selected - set infected)"
  "distinct newly \<Longrightarrow> distinct (infectPeers infected newly selected)"
  "length (infectPeers infected newly selected) \<le> length newly + length selected"
proof -
  show "set (infectPeers infected newly selected) = set newly \<union> (set selected - set infected)"
    by (induction selected arbitrary: newly) auto
  show "distinct newly \<Longrightarrow> distinct (infectPeers infected newly selected)"
    by (induction selected arbitrary: newly) auto
  show "length (infectPeers infected newly selected) \<le> length newly + length selected"
  proof (induction selected arbitrary: newly)
    case (Cons p ps)
    have "length (List.insert p newly) \<le> Suc (length newly)" by (simp add: List.insert_def)
    then show ?case using Cons [of newly] Cons [of "List.insert p newly"] by auto
  qed simp
qed

lemma infectFrom_set:
  assumes perm: "draws_perm Perm"
    and run: "infectFrom Perm m fanout infected rng newly ids = (rng', newly')" and "distinct newly"
  shows "distinct newly' \<and>
    set newly' \<subseteq> set newly \<union> ((\<Union>y \<in> set ids. set (peersOf m y)) - set infected) \<and>
    length newly' \<le> length newly + nat fanout * length ids \<and>
    ((\<forall>y. int (length (peersOf m y)) \<le> fanout) \<longrightarrow>
      set newly' = set newly \<union> ((\<Union>y \<in> set ids. set (peersOf m y)) - set infected))"
  using run assms(3)
proof (induction ids arbitrary: rng newly)
  case (Cons y ids)
  obtain rng1 sel where sel: "selectRandomPeers Perm (peersOf m y) fanout rng = (rng1, sel)" by fastforce
  note s = selectRandomPeers_set [OF perm, of "peersOf m y" fanout rng, unfolded sel snd_conv]
  let ?newly = "infectPeers infected newly sel"
  have rest: "infectFrom Perm m fanout infected rng1 ?newly ids = (rng', newly')"
    using Cons.prems(1) sel by (simp add: Let_def)
  have d: "distinct ?newly" by (rule infectPeers_set(2) [OF Cons.prems(2)])
  note ih = Cons.IH [OF rest d]
  have "length ?newly \<le> length newly + nat fanout" using infectPeers_set(3) s(2) by (meson add_left_mono le_trans)
  then have "length newly' \<le> length newly + nat fanout * length (y # ids)" using ih by simp
  moreover have "set newly' \<subseteq> set newly \<union> ((\<Union>y \<in> set (y # ids). set (peersOf m y)) - set infected)"
    using ih s(1) unfolding infectPeers_set(1) by auto
  moreover have "set newly' = set newly \<union> ((\<Union>y \<in> set (y # ids). set (peersOf m y)) - set infected)"
    if "\<forall>y. int (length (peersOf m y)) \<le> fanout"
  proof -
    have "set sel = set (peersOf m y)" using s(3) that by blast
    then show ?thesis using ih that unfolding infectPeers_set(1) by auto
  qed
  ultimately show ?case using ih by blast
qed simp

text \<open>What is infected after a number of steps: distinct nodes within as many hops, at most \<open>1 + fanout\<close> times as many in
  each step, and all of them if the fanout is no restriction.\<close>

definition spread_ok :: "(string \<rightharpoonup> string list) \<Rightarrow> string \<Rightarrow> int \<Rightarrow> nat \<Rightarrow> string list \<Rightarrow> bool" where
  "spread_ok m x fanout k infected \<longleftrightarrow> distinct infected \<and> x \<in> set infected \<and> set infected \<subseteq> ball m x k \<and>
     length infected \<le> (1 + nat fanout) ^ k \<and>
     ((\<forall>y. int (length (peersOf m y)) \<le> fanout) \<longrightarrow> set infected = ball m x k)"

lemma spread_ok_step:
  assumes perm: "draws_perm Perm" and ok: "spread_ok m x fanout k infected"
    and run: "infectFrom Perm m fanout infected rng [] (shuffle order infected) = (rng', newly)"
  shows "spread_ok m x fanout (Suc k) (infected @ newly)"
proof -
  have len: "length (shuffle order infected) = length infected" using mset_eq_length [OF mset_shuffle] .
  note f = infectFrom_set [OF perm run distinct.simps(1) [THEN iffD2, OF TrueI], unfolded set_shuffle len]
  have "length (infected @ newly) \<le> length infected * (1 + nat fanout)" using f by (simp add: algebra_simps)
  also have "\<dots> \<le> (1 + nat fanout) ^ k * (1 + nat fanout)" using ok by (intro mult_le_mono1) (simp add: spread_ok_def)
  finally have "length (infected @ newly) \<le> (1 + nat fanout) ^ Suc k" by (simp add: mult.commute)
  moreover have "set (infected @ newly) = ball m x (Suc k)" if "\<forall>y. int (length (peersOf m y)) \<le> fanout"
    using f ok that unfolding spread_ok_def by auto
  ultimately show ?thesis using f ok unfolding spread_ok_def by auto
qed

section \<open>Results\<close>

definition sim_result :: "nat \<Rightarrow> nat \<Rightarrow> nat \<Rightarrow> SimResult" where
  "sim_result k reached n_all = \<lparr>Steps = int k, ReachedCount = int reached, ReachedRatio = simRatio reached n_all, Total = int n_all\<rparr>"

lemma simSteps_Suc:
  assumes "infectFrom Perm m fanout infected rng [] (shuffle (orders (int k + 1)) infected) = (rng', newly)"
  shows "simSteps Perm orders m fanout target n_all (Suc left) (int k + 1) rng infected =
    (if fle target (simRatio (length (infected @ newly)) n_all) then (sim_result (Suc k) (length (infected @ newly)) n_all, None)
     else simSteps Perm orders m fanout target n_all left (int (Suc k) + 1) rng' (infected @ newly))"
  using assms by (simp add: sim_result_def Let_def add.commute add.left_commute)

lemma simSteps_result:
  assumes "draws_perm Perm" and "spread_ok m x fanout k infected"
  shows "\<exists>j A err. simSteps Perm orders m fanout target n_all left (int k + 1) rng infected = (sim_result j (length A) n_all, err) \<and>
    k \<le> j \<and> j \<le> k + left \<and> spread_ok m x fanout j A \<and> (j = k \<longrightarrow> A = infected) \<and>
    (err = None \<and> k < j \<and> fle target (simRatio (length A) n_all) \<or>
     err = Some TargetNotReached \<and> j = k + left \<and> (k < j \<longrightarrow> \<not> fle target (simRatio (length A) n_all)))"
  using assms(2)
proof (induction left arbitrary: k rng infected)
  case 0
  then show ?case by (intro exI [of _ k] exI [of _ infected]) (simp add: sim_result_def Let_def)
next
  case (Suc left)
  obtain rng' newly where run: "infectFrom Perm m fanout infected rng [] (shuffle (orders (int k + 1)) infected) = (rng', newly)"
    by fastforce
  have ok: "spread_ok m x fanout (Suc k) (infected @ newly)" by (rule spread_ok_step [OF assms(1) Suc.prems run])
  show ?case
  proof (cases "fle target (simRatio (length (infected @ newly)) n_all)")
    case True
    then show ?thesis
      unfolding simSteps_Suc [where orders = orders, OF run] using ok
      by (intro exI [of _ "Suc k"] exI [of _ "infected @ newly"] exI [of _ None]) simp
  next
    case False
    obtain j A err where j: "simSteps Perm orders m fanout target n_all left (int (Suc k) + 1) rng' (infected @ newly) = (sim_result j (length A) n_all, err)"
      "Suc k \<le> j" "j \<le> Suc k + left" "spread_ok m x fanout j A" "j = Suc k \<longrightarrow> A = infected @ newly"
      "err = None \<and> Suc k < j \<and> fle target (simRatio (length A) n_all) \<or>
        err = Some TargetNotReached \<and> j = Suc k + left \<and> (Suc k < j \<longrightarrow> \<not> fle target (simRatio (length A) n_all))"
      using Suc.IH [OF ok] by metis
    then show ?thesis
      unfolding simSteps_Suc [where orders = orders, OF run] using False by (intro exI [of _ j] exI [of _ A] exI [of _ err]) auto
  qed
qed

text \<open>The first number of steps, from \<open>k + 1\<close> on, after which enough of the nodes are within as many hops.\<close>

definition first_reach :: "(string \<rightharpoonup> string list) \<Rightarrow> string \<Rightarrow> float64 \<Rightarrow> nat \<Rightarrow> nat \<Rightarrow> nat \<Rightarrow> nat option" where
  "first_reach m x target n_all k left =
     List.find (\<lambda>j. fle target (simRatio (card (ball m x j)) n_all)) [Suc k..<Suc k + left]"

lemma simSteps_flood:
  assumes "draws_perm Perm" and "\<forall>y. int (length (peersOf m y)) \<le> fanout" and "spread_ok m x fanout k infected"
  shows "simSteps Perm orders m fanout target n_all left (int k + 1) rng infected =
    (case first_reach m x target n_all k left of
       Some j \<Rightarrow> (sim_result j (card (ball m x j)) n_all, None)
     | None \<Rightarrow> (sim_result (k + left) (card (ball m x (k + left))) n_all, Some TargetNotReached))"
  using assms(3)
proof (induction left arbitrary: k rng infected)
  case 0
  then have "length infected = card (ball m x k)" using assms(2) distinct_card [of infected] by (simp add: spread_ok_def)
  then show ?case by (simp add: first_reach_def sim_result_def Let_def)
next
  case (Suc left)
  obtain rng' newly where run: "infectFrom Perm m fanout infected rng [] (shuffle (orders (int k + 1)) infected) = (rng', newly)"
    by fastforce
  have ok: "spread_ok m x fanout (Suc k) (infected @ newly)" by (rule spread_ok_step [OF assms(1) Suc.prems run])
  then have len: "length (infected @ newly) = card (ball m x (Suc k))"
    using assms(2) distinct_card [of "infected @ newly"] unfolding spread_ok_def by metis
  have "[Suc k..<Suc k + Suc left] = Suc k # [Suc (Suc k)..<Suc (Suc k) + left]" by (simp add: upt_rec)
  then show ?case
    unfolding simSteps_Suc [where orders = orders, OF run] len using Suc.IH [OF ok, of rng', unfolded add_Suc_shift [of k left]]
    by (simp add: first_reach_def del: ball.simps upt_Suc add_Suc add_Suc_right)
qed

lemma peersMap_set: "peersMap nodes y = Some ps \<Longrightarrow> \<exists>node \<in> set nodes. gs_Peers node = ps"
proof -
  have "foldl (\<lambda>m node. m(gs_ID node \<mapsto> gs_Peers node)) m0 nodes y = Some ps \<Longrightarrow> m0 y = Some ps \<or> (\<exists>node \<in> set nodes. gs_Peers node = ps)" for m0
    by (induction nodes arbitrary: m0) (fastforce split: if_splits)+
  then show "peersMap nodes y = Some ps \<Longrightarrow> \<exists>node \<in> set nodes. gs_Peers node = ps" unfolding peersMap_def by fastforce
qed

lemma spread_ok_start: "0 < fanout \<Longrightarrow> spread_ok m x fanout 0 [x]"
  by (simp add: spread_ok_def)

text \<open>
  C12: the simulator against its reference. When the fanout is at least the number of peers of every node, the simulation
  does not depend on the random numbers or on the order of iteration: it returns the smallest number of steps, up
  to the maximum, within which the nodes that are as many hops away from the initial node at most
  make up the target ratio, with their number and ratio; if there is no such number, it returns the
  maximum and the error.
\<close>

theorem SimulatePropagation_flood:
  assumes "draws_perm Perm" and "nodes \<noteq> []" and "0 < fanout" and "flt (Fin 0) target" and "fle target (Fin 1)" and "0 < maxSteps"
    and "peersMap nodes x \<noteq> None" and "\<And>node. node \<in> set nodes \<Longrightarrow> int (length (gs_Peers node)) \<le> fanout"
  shows "SimulatePropagation Perm orders (Some rng) nodes x fanout target maxSteps =
    (case first_reach (peersMap nodes) x target (length nodes) 0 (nat maxSteps) of
       Some k \<Rightarrow> (sim_result k (card (ball (peersMap nodes) x k)) (length nodes), None)
     | None \<Rightarrow> (sim_result (nat maxSteps) (card (ball (peersMap nodes) x (nat maxSteps))) (length nodes), Some TargetNotReached))"
proof -
  have "\<not> fle target (Fin 0)" "\<not> flt (Fin 1) target" using assms(4,5) by (cases target; simp)+
  moreover have "\<forall>y. int (length (peersOf (peersMap nodes) y)) \<le> fanout"
    using peersMap_set assms(3,8) by (fastforce simp: peersOf_def split: option.splits)
  ultimately show ?thesis
    using assms simSteps_flood [OF assms(1) _ spread_ok_start [OF assms(3)], where m = "peersMap nodes" and x = x and orders = orders and target = target
        and n_all = "length nodes" and left = "nat maxSteps" and rng = rng, unfolded add_0]
    by (auto simp: SimulatePropagation_def Let_def simp del: ball.simps)
qed

text \<open>
  Bounds of the simulation: whatever the fanout is, a simulation that starts ends after at most the maximal number of
  steps; the nodes that are reached in \<open>k\<close> steps are within \<open>k\<close> hops of the initial node and at
  most \<open>(1 + fanout) ^ k\<close>; and there is an error if and only if the reached ratio is below the target.
\<close>

lemma SimulatePropagation_bounds:
  assumes "draws_perm Perm" and "SimulatePropagation Perm orders (Some rng) nodes x fanout target maxSteps = (res, err)"
    and "err = None \<or> err = Some TargetNotReached"
  shows "1 \<le> Steps res \<and> Steps res \<le> maxSteps \<and> 1 \<le> ReachedCount res \<and>
    ReachedCount res \<le> int (card (ball (peersMap nodes) x (nat (Steps res)))) \<and> ReachedCount res \<le> (1 + fanout) ^ nat (Steps res) \<and>
    ReachedRatio res = simRatio (nat (ReachedCount res)) (length nodes) \<and> (err = None \<longleftrightarrow> fle target (ReachedRatio res))"
proof -
  have valid: "0 < fanout" "0 < maxSteps" and
    run: "simSteps Perm orders (peersMap nodes) fanout target (length nodes) (nat maxSteps) (int 0 + 1) rng [x] = (res, err)"
    using assms(2,3) by (auto simp: SimulatePropagation_def Let_def split: if_splits)
  obtain j A where j: "res = sim_result j (length A) (length nodes)" "j \<le> nat maxSteps" "spread_ok (peersMap nodes) x fanout j A"
    "err = None \<and> 0 < j \<and> fle target (simRatio (length A) (length nodes)) \<or>
     err = Some TargetNotReached \<and> j = nat maxSteps \<and> (0 < j \<longrightarrow> \<not> fle target (simRatio (length A) (length nodes)))"
    using simSteps_result [OF assms(1) spread_ok_start [OF valid(1)], where m = "peersMap nodes" and x = x and orders = orders and target = target
        and n_all = "length nodes" and left = "nat maxSteps" and rng = rng]
    unfolding run add_0 by (elim exE conjE Pair_inject) (rule that; simp)
  have A: "distinct A" "x \<in> set A" "set A \<subseteq> ball (peersMap nodes) x j" "length A \<le> (1 + nat fanout) ^ j" using j(3) by (simp_all add: spread_ok_def)
  have "length A \<le> card (ball (peersMap nodes) x j)" using card_mono [OF finite_ball A(3)] distinct_card [OF A(1)] by simp
  moreover have "int (length A) \<le> (1 + fanout) ^ j"
    using A(4) [folded of_nat_le_iff [where 'a = int]] valid(1) by simp
  moreover have "Suc 0 \<le> length A" using A(2) by (cases A) auto
  ultimately show ?thesis using j(1,2,4) valid by (auto simp: sim_result_def)
qed

text \<open>Four nodes: \<open>b\<close> is linked to each of the others.\<close>

definition example_star :: "GossipNode list" where
  "example_star = [\<lparr>gs_ID = ''a'', gs_Peers = [''b'']\<rparr>, \<lparr>gs_ID = ''b'', gs_Peers = [''a'', ''c'', ''d'']\<rparr>,
     \<lparr>gs_ID = ''c'', gs_Peers = [''b'']\<rparr>, \<lparr>gs_ID = ''d'', gs_Peers = [''b'']\<rparr>]"

lemma example_star_map: "peersMap example_star = [''a'' \<mapsto> [''b''], ''b'' \<mapsto> [''a'', ''c'', ''d''], ''c'' \<mapsto> [''b''], ''d'' \<mapsto> [''b'']]"
  by (simp add: peersMap_def example_star_def)

lemma example_star_ball: "ball (peersMap example_star) ''a'' 1 = {''a'', ''b''}" "ball (peersMap example_star) ''a'' 2 = {''a'', ''b'', ''c'', ''d''}"
proof -
  show one: "ball (peersMap example_star) ''a'' 1 = {''a'', ''b''}" by (auto simp: example_star_map peersOf_def)
  have "ball (peersMap example_star) ''a'' 2 = ball (peersMap example_star) ''a'' 1 \<union> (\<Union>y \<in> ball (peersMap example_star) ''a'' 1. set (peersOf (peersMap example_star) y))"
    by (simp add: numeral_2_eq_2)
  then show "ball (peersMap example_star) ''a'' 2 = {''a'', ''b'', ''c'', ''d''}"
    unfolding one by (auto simp: example_star_map peersOf_def)
qed

lemma example_ratio: "simRatio 2 4 = Fin (1 / 2)" "simRatio 4 4 = Fin 1"
  using near_power [of "- 1"] near_power [of 0] small_power
  by (simp_all add: simRatio_def float_of_int_exact fdiv_def round64_def power_int_minus)

lemma example_draws: "draws_perm (\<lambda>_ n. ((), [0..<n]))"
  by (simp add: draws_perm_def)

theorem SimulatePropagation_flood_witness:
  "SimulatePropagation (\<lambda>_ n. ((), [0..<n])) (\<lambda>_. []) (Some ()) example_star ''a'' 3 (Fin 1) 5 =
     (\<lparr>Steps = 2, ReachedCount = 4, ReachedRatio = Fin 1, Total = 4\<rparr>, None)"
proof -
  have "card (ball (peersMap example_star) ''a'' 1) = 2" "card (ball (peersMap example_star) ''a'' 2) = 4" "length example_star = 4"
    unfolding example_star_ball by (simp_all add: example_star_def)
  moreover have "first_reach (peersMap example_star) ''a'' (Fin 1) 4 0 5 = Some 2"
  proof -
    have "[Suc 0..<Suc 0 + 5] = [1, 2, 3, 4, 5 :: nat]" by (simp add: upt_rec)
    then show ?thesis unfolding first_reach_def using calculation by (simp add: example_ratio del: ball.simps One_nat_def)
  qed
  moreover have "int (length (gs_Peers node)) \<le> 3" if "node \<in> set example_star" for node using that by (auto simp: example_star_def)
  moreover have "example_star \<noteq> []" "peersMap example_star ''a'' \<noteq> None" by (simp add: example_star_def) (simp add: example_star_map)
  ultimately show ?thesis
    using SimulatePropagation_flood [OF example_draws, of example_star 3 "Fin 1" 5 "''a''" "\<lambda>_. []" "()"]
    by (simp add: sim_result_def example_ratio del: ball.simps)
qed

end
