(* ===== verification/DhtFlow.thy ===== *)
theory DhtFlow
  imports Dhtsim Sensor GossipSim
begin

text \<open>
  The program of the simulation (\<^verbatim>\<open>cmd/dhtsim/main.go\<close>, \<^verbatim>\<open>api.go\<close>): it builds a network, publishes a reading of every
  node, looks all of them up again, and runs a region query and a gossip simulation. The order in which a map is
  iterated is a list of its keys; the random numbers, the elementary functions and the JSON encoder are collected in a
  record. \<open>None\<close> is a panic.
\<close>

section \<open>The program\<close>

record 'r sim_env =
  se_NewSource :: "int \<Rightarrow> 'r"
  se_Float64 :: "'r \<Rightarrow> 'r \<times> float64"
  se_NormFloat64 :: "'r \<Rightarrow> 'r \<times> float64"
  se_Perm :: "'r \<Rightarrow> nat \<Rightarrow> 'r \<times> nat list"
  se_math :: math_lib
  se_Marshal :: "Reading \<Rightarrow> string + byte list"
  se_Unmarshal :: "byte list \<Rightarrow> string + Reading"

definition sim_peerCount :: nat where
  "sim_peerCount = 20"

definition nodeName :: "nat \<Rightarrow> string" where
  "nodeName i = ''node-'' @ Itoa (int (i + 1))"

text \<open>The first loop, with the numbers that are left.\<close>

fun buildNodes :: "nat list \<Rightarrow> (NodeID \<rightharpoonup> DhtNode) \<Rightarrow> Peer list \<Rightarrow> (NodeID \<rightharpoonup> DhtNode) \<times> Peer list" where
  "buildNodes [] ns ps = (ns, ps)"
| "buildNodes (i # is) ns ps =
     (let name = nodeName i;
          nid = KeyToID name;
          node = dht_NewNode nid name bucketK
      in buildNodes is (ns(nid \<mapsto> node)) (ps @ [dn_peer node]))"

text \<open>The second loop; \<open>clock\<close> gives the time of each call of \<^verbatim>\<open>AddPeer\<close> on a node.\<close>

fun addAll :: "(nat \<Rightarrow> int) \<Rightarrow> DhtNode \<Rightarrow> nat \<Rightarrow> Peer list \<Rightarrow> DhtNode option" where
  "addAll clock node k [] = Some node"
| "addAll clock node k (peer # ps) =
     (if ID peer = ID (dn_peer node) then addAll clock node (Suc k) ps
      else case AddPeer (clock k) (dn_rt node) peer of
             None \<Rightarrow> None
           | Some (rt, _) \<Rightarrow> addAll clock (node\<lparr>dn_rt := rt\<rparr>) (Suc k) ps)"

fun linkNodes :: "(NodeID \<Rightarrow> nat \<Rightarrow> int) \<Rightarrow> Peer list \<Rightarrow> NodeID list \<Rightarrow> (NodeID \<rightharpoonup> DhtNode) \<Rightarrow> (NodeID \<rightharpoonup> DhtNode) option" where
  "linkNodes clock ps [] ns = Some ns"
| "linkNodes clock ps (i # iter) ns =
     (case ns i of
        None \<Rightarrow> linkNodes clock ps iter ns
      | Some node \<Rightarrow>
          (case addAll (clock i) node 0 ps of
             None \<Rightarrow> None
           | Some node' \<Rightarrow> linkNodes clock ps iter (ns(i \<mapsto> node'))))"

definition buildNetwork :: "(NodeID \<Rightarrow> nat \<Rightarrow> int) \<Rightarrow> NodeID list \<Rightarrow> nat \<Rightarrow> simNetwork option" where
  "buildNetwork clock iter cnt =
     (let (ns, ps) = buildNodes [0..<cnt] Map.empty []
      in map_option (\<lambda>ns. \<lparr>nodes = ns\<rparr>) (linkNodes clock ps iter ns))"

datatype sim_failure =
    EncodeReadingFailed string
  | IterativeStoreFailed lookup_error
  | NoNodesInNetwork
  | FindValueFailed lookup_error
  | DecodeReadingFailed string
  | UnexpectedNodeID string
  | NoReadingsToQuery
  | RegionQueryFailed string
  | NoNodesForGossip
  | PropagationFailed sim_error
  | GossipTargetMissed int

definition simOptions :: FindNodeOptions where
  "simOptions = \<lparr>K = bucketK, Alpha = 3, MaxRounds = 20\<rparr>"

text \<open>The reading that a node publishes.\<close>

definition nodeReading :: "'r sim_env \<Rightarrow> int \<Rightarrow> string \<Rightarrow> Reading" where
  "nodeReading env now addr =
     (let generator = NewGenerator (se_NewSource env) (se_Float64 env) addr (LocationFromSeed addr)
      in snd (Generator_Next (se_NormFloat64 env) now generator))"

fun publishSensorReadings :: "'r sim_env \<Rightarrow> (simNetwork \<Rightarrow> string option) \<Rightarrow> (simNetwork \<Rightarrow> nat list) \<Rightarrow> (NodeID \<Rightarrow> int) \<Rightarrow> NodeID list \<Rightarrow>
    simNetwork \<Rightarrow> simNetwork \<times> sim_failure option" where
  "publishSensorReadings env ctx order clock [] network = (network, None)"
| "publishSensorReadings env ctx order clock (i # iter) network =
     (case nodes network i of
        None \<Rightarrow> publishSensorReadings env ctx order clock iter network
      | Some node \<Rightarrow>
          let peer = dn_peer node;
              reading = nodeReading env (clock i) (Addr peer)
          in case EncodeReading (se_Marshal env) reading of
               Inl err \<Rightarrow> (network, Some (EncodeReadingFailed err))
             | Inr payload \<Rightarrow>
                 (case IterativeStore ctx order (Some (dn_rt node)) (Some (findNode ctx)) (Some (storeValue ctx))
                         (sensorKey (Addr peer)) payload simOptions network of
                    (network', _, Some err) \<Rightarrow> (network', Some (IterativeStoreFailed err))
                  | (network', _, None) \<Rightarrow> publishSensorReadings env ctx order clock iter network'))"

fun queryReadings :: "'r sim_env \<Rightarrow> (simNetwork \<Rightarrow> string option) \<Rightarrow> (simNetwork \<Rightarrow> nat list) \<Rightarrow> DhtNode \<Rightarrow> NodeID list \<Rightarrow>
    simNetwork \<Rightarrow> Reading list \<Rightarrow> sim_failure + Reading list" where
  "queryReadings env ctx order anchor [] network readings = Inr readings"
| "queryReadings env ctx order anchor (i # iter) network readings =
     (case nodes network i of
        None \<Rightarrow> queryReadings env ctx order anchor iter network readings
      | Some node \<Rightarrow>
          let peer = dn_peer node
          in case IterativeFindValue ctx order (Some (dn_rt anchor)) (Some (findValue ctx)) (sensorKey (Addr peer)) simOptions network of
               (_, _, _, Some err) \<Rightarrow> Inl (FindValueFailed err)
             | (network', val, _, None) \<Rightarrow>
                 (case DecodeReading (se_Unmarshal env) val of
                    Inl err \<Rightarrow> Inl (DecodeReadingFailed err)
                  | Inr reading \<Rightarrow>
                      if rd_NodeID reading \<noteq> Addr peer then Inl (UnexpectedNodeID (rd_NodeID reading))
                      else queryReadings env ctx order anchor iter network' (readings @ [reading])))"

text \<open>The anchor is the first node of one iteration of the map; then the map is iterated again.\<close>

definition verifySensorQueries :: "'r sim_env \<Rightarrow> (simNetwork \<Rightarrow> string option) \<Rightarrow> (simNetwork \<Rightarrow> nat list) \<Rightarrow> NodeID list \<Rightarrow> NodeID list \<Rightarrow>
    simNetwork \<Rightarrow> sim_failure + Reading list" where
  "verifySensorQueries env ctx order iter0 iter network =
     (case iter0 of
        [] \<Rightarrow> Inl NoNodesInNetwork
      | i # _ \<Rightarrow>
          (case nodes network i of
             None \<Rightarrow> Inl NoNodesInNetwork
           | Some anchor \<Rightarrow> queryReadings env ctx order anchor iter network []))"

definition QueryAPI_AverageTemperatureInRadius :: "math_lib \<Rightarrow> Reading list \<Rightarrow> Location \<Rightarrow> float64 \<Rightarrow> string + float64 \<times> int" where
  "QueryAPI_AverageTemperatureInRadius m readings center radiusKm =
     (case AverageTemperatureInRadius m readings center radiusKm of
        Inl err \<Rightarrow> Inl (''average temperature in radius: '' @ err)
      | Inr (avg, cnt) \<Rightarrow> Inr (avg, cnt))"

text \<open>What is logged: the average, the number of samples, and the matching readings.\<close>

definition runRegionQuery :: "'r sim_env \<Rightarrow> Reading list \<Rightarrow> sim_failure + float64 \<times> int \<times> Reading list" where
  "runRegionQuery env readings =
     (case readings of
        [] \<Rightarrow> Inl NoReadingsToQuery
      | reading # _ \<Rightarrow>
          let center = rd_Location reading; radiusKm = Fin 10
          in case QueryAPI_AverageTemperatureInRadius (se_math env) readings center radiusKm of
               Inl err \<Rightarrow> Inl (RegionQueryFailed err)
             | Inr (avgTemp, sampleCount) \<Rightarrow>
                 Inr (avgTemp, sampleCount, FilterByRadius (se_math env) readings center radiusKm))"

definition gossipNodes :: "simNetwork \<Rightarrow> NodeID list \<Rightarrow> GossipNode list" where
  "gossipNodes network iter =
     concat (map (\<lambda>i. case nodes network i of
        None \<Rightarrow> []
      | Some node \<Rightarrow>
          let peer = dn_peer node; ps = GetClosestPeers (dn_rt node) (ID peer) bucketK
          in [\<lparr>gs_ID = Addr peer, gs_Peers = map Addr ps\<rparr>]) iter)"

definition runGossipSimulation :: "'r sim_env \<Rightarrow> (int \<Rightarrow> nat list) \<Rightarrow> NodeID list \<Rightarrow> simNetwork \<Rightarrow> sim_failure + SimResult" where
  "runGossipSimulation env orders iter network =
     (case gossipNodes network iter of
        [] \<Rightarrow> Inl NoNodesForGossip
      | node # rest \<Rightarrow>
          (case SimulatePropagation (se_Perm env) orders (NewSimulator (se_NewSource env) 42) (node # rest) (gs_ID node) 3 (round64 (9 / 10)) 20 of
             (_, Some err) \<Rightarrow> Inl (PropagationFailed err)
           | (result, None) \<Rightarrow>
               let tick = 100 * 1000000; duration = wrap64 (Steps result * tick)
               in if duration > 2 * 1000000000 then Inl (GossipTargetMissed duration) else Inr result))"

text \<open>
  The program: \<open>None\<close> is a panic, \<open>Some None\<close> the normal end and \<open>Some (Some e)\<close> the end with status 1 after the error \<open>e\<close>. The map of the
  nodes is iterated five times, the \<open>k\<close>-th time in the order \<open>iters k\<close>.
\<close>

definition dhtsim_main :: "'r sim_env \<Rightarrow> (simNetwork \<Rightarrow> string option) \<Rightarrow> (simNetwork \<Rightarrow> nat list) \<Rightarrow> (simNetwork \<Rightarrow> nat list) \<Rightarrow> (NodeID \<Rightarrow> nat \<Rightarrow> int) \<Rightarrow>
    (NodeID \<Rightarrow> int) \<Rightarrow> (nat \<Rightarrow> NodeID list) \<Rightarrow> (int \<Rightarrow> nat list) \<Rightarrow> sim_failure option option" where
  "dhtsim_main env ctx order order' seen clock iters orders =
     (case buildNetwork seen (iters 0) sim_peerCount of
        None \<Rightarrow> None
      | Some network \<Rightarrow>
          (case publishSensorReadings env ctx order clock (iters 1) network of
             (_, Some err) \<Rightarrow> Some (Some err)
           | (network', None) \<Rightarrow>
               (case verifySensorQueries env ctx order' (iters 2) (iters 3) network' of
                  Inl err \<Rightarrow> Some (Some err)
                | Inr readings \<Rightarrow>
                    (case runRegionQuery env readings of
                       Inl err \<Rightarrow> Some (Some err)
                     | Inr _ \<Rightarrow>
                         (case runGossipSimulation env orders (iters 4) network' of
                            Inl err \<Rightarrow> Some (Some err)
                          | Inr _ \<Rightarrow> Some None)))))"

section \<open>Complete networks\<close>

text \<open>A network of at most 20 nodes in which each node knows all the others.\<close>

definition complete :: "simNetwork \<Rightarrow> bool" where
  "complete net \<longleftrightarrow> finite (dom (nodes net)) \<and> card (dom (nodes net)) \<le> 20 \<and> zeroID \<notin> dom (nodes net) \<and>
     (\<forall>i n. nodes net i = Some n \<longrightarrow> wf_id i \<and> rt_ok (dn_rt n) \<and> ID (dn_peer n) = i \<and> set (ids (allPeers (dn_rt n))) = dom (nodes net) - {i})"

lemma completeD:
  assumes "complete net" and "nodes net i = Some n"
  shows "wf_id i" and "rt_ok (dn_rt n)" and "ID (dn_peer n) = i" and "set (ids (allPeers (dn_rt n))) = dom (nodes net) - {i}"
    and "length (allPeers (dn_rt n)) \<le> 20"
proof -
  show "wf_id i" "ID (dn_peer n) = i" using assms unfolding complete_def by blast+
  show ok: "rt_ok (dn_rt n)" and ids: "set (ids (allPeers (dn_rt n))) = dom (nodes net) - {i}" using assms unfolding complete_def by blast+
  have "length (allPeers (dn_rt n)) = card (dom (nodes net) - {i})" using distinct_card [OF distinct_allPeers [OF ok]] ids by simp
  also have "\<dots> \<le> card (dom (nodes net))" using assms(1) by (intro card_mono) (auto simp: complete_def)
  finally show "length (allPeers (dn_rt n)) \<le> 20" using assms(1) by (simp add: complete_def)
qed

lemma GetClosestPeers_all:
  assumes "length (allPeers rt) \<le> 20"
  shows "set (GetClosestPeers rt t bucketK) = set (allPeers rt)"
  using assms by (simp add: GetClosestPeers_eq bucketK_def)

lemma findNode_complete:
  assumes "complete net"
  shows "heard [(p, snd (findNode live net p t))] = (if ID p \<in> dom (nodes net) then dom (nodes net) - {ID p} else {})"
proof (cases "nodes net (ID p)")
  case (Some n)
  note c = completeD [OF assms Some]
  have "set (ids (GetClosestPeers (dn_rt n) t bucketK)) = dom (nodes net) - {ID p}"
    using GetClosestPeers_all [OF c(5), of t] c(4) by simp
  moreover have "zeroID \<notin> dom (nodes net)" using assms by (simp add: complete_def)
  ultimately show ?thesis using Some by (auto simp: findNode_def HandleFindNode_def)
qed (auto simp: findNode_def dom_def)

text \<open>The requests of a lookup and their answers.\<close>

definition complete_log :: "simNetwork \<Rightarrow> simNetwork \<times> history \<Rightarrow> bool" where
  "complete_log net s \<longleftrightarrow> complete net \<and> fst s = net \<and>
     (\<forall>x \<in> set (snd s). heard [x] = (if ID (fst x) \<in> dom (nodes net) then dom (nodes net) - {ID (fst x)} else {}))"

lemma sim_ok_complete: "complete net \<Longrightarrow> sim_ok net"
  by (auto simp: complete_def sim_ok_def)

interpretation full: node_requests "logged (findNode live)" snd "complete_log net" for net
proof
  fix s :: "simNetwork \<times> history" and p t
  let ?r = "snd (findNode live (fst s) p t)"
  have log: "logged (findNode live) s p t = ((fst s, snd s @ [(p, ?r)]), ?r)" by (simp add: logged_def findNode_def)
  show "snd (fst (logged (findNode live) s p t)) = snd s @ [(p, snd (logged (findNode live) s p t))]" by (simp add: log)
  assume ok: "complete_log net s"
  then show "complete_log net (fst (logged (findNode live) s p t))"
    using findNode_complete [of net p t] unfolding complete_log_def log by (simp add: ball_Un)
  have "sim_ok (fst s)" using ok sim_ok_complete by (simp add: complete_log_def)
  moreover have "findNode live (fst s) p t = (fst s, ?r)" by (simp add: findNode_def)
  ultimately show "\<forall>q \<in> set r. wf_id (ID q)" if "snd (logged (findNode live) s p t) = Inr r" for r
    using answers_wfD(2) [OF answers_wf_findNode] that by (simp add: log)
qed

lemma heard_Union: "heard h = (\<Union>x \<in> set h. heard [x])"
  unfolding heard_def by auto

lemma complete_log_heard:
  assumes "complete_log net (net, h)"
  shows "heard h \<subseteq> dom (nodes net)" and "j \<in> set (asked h) \<Longrightarrow> j \<in> dom (nodes net) \<Longrightarrow> dom (nodes net) - {j} \<subseteq> heard h"
proof -
  have x: "heard [x] = (if ID (fst x) \<in> dom (nodes net) then dom (nodes net) - {ID (fst x)} else {})" if "x \<in> set h" for x
    using conjunct2 [OF conjunct2 [OF assms [unfolded complete_log_def snd_conv]]] that by (rule bspec)
  have "heard [x] \<subseteq> dom (nodes net)" if "x \<in> set h" for x
    unfolding x [OF that] by (cases "ID (fst x) \<in> dom (nodes net)") (simp_all only: if_True if_False Diff_subset empty_subsetI)
  then show "heard h \<subseteq> dom (nodes net)" unfolding heard_Union [of h] by (rule UN_least)
  assume "j \<in> set (asked h)" and j: "j \<in> dom (nodes net)"
  then obtain p r where p: "(p, r) \<in> set h" "ID p = j" unfolding asked_def by auto
  then have "heard [(p, r)] = dom (nodes net) - {j}" using x [OF p(1)] j unfolding fst_conv p(2) by (simp only: if_True)
  then show "dom (nodes net) - {j} \<subseteq> heard h" using UN_upper [OF p(1), of "\<lambda>x. heard [x]"] unfolding heard_Union [of h] by simp
qed

lemma findRounds_live: "findRounds (\<lambda>_. None) order requester t k alpha n w q s = (w', q', r) \<Longrightarrow> \<exists>s'. r = Inr s'"
proof (induction n arbitrary: w q s)
  case (Suc n)
  obtain v q2 m where "queryBatch order requester t w q s (nextUnqueried s q alpha) = (v, q2, m)" using prod_cases3 by blast
  then show ?case using Suc by (auto simp: Let_def split: if_splits)
qed auto

lemma simOptions_normal: "normalizeFindNodeOptions simOptions = (20, 3, 20)"
  by (simp add: normalizeFindNodeOptions_def simOptions_def bucketK_def)

lemma lookup_complete:
  assumes "complete net" and "nodes net i = Some n" and "dom (nodes net) \<noteq> {i}" and "wf_id t"
  obtains ps where "IterativeFindNode live order (Some (dn_rt n)) (Some (findNode live)) t simOptions net = (net, Inr ps)"
    and "set (ids ps) = dom (nodes net)"
proof -
  note c = completeD [OF assms(1,2)]
  let ?rt = "dn_rt n" and ?D = "dom (nodes net)"
  let ?A = "set (ids (allPeers ?rt))" and ?s = "sortPeersByDistance t (GetClosestPeers ?rt t 20)"
  have D: "finite ?D" "card ?D \<le> 20" "i \<in> ?D" using assms(1,2) by (auto simp: complete_def)
  have A: "?A = ?D - {i}" "?A \<noteq> {}" using c(4) assms(3) D(3) by auto
  have "shortlist_ok t 20 (?A \<union> heard []) ?s"
    using shortlist_ok_perm [OF shortlist_ok_closest [OF c(2) assms(4)], of ?s 20] by (simp add: sortPeersByDistance_eq)
  then have init: "search_ok t (nat 20) ?A (snd (net, [])) {} ?s" unfolding search_ok_def by (simp add: sortPeersByDistance_eq)
  have log0: "complete_log net (net, [])" using assms(1) by (simp add: complete_log_def)
  obtain v h q r where run: "findRounds (live \<circ> fst) (order \<circ> fst) (logged (findNode live)) t 20 3 20 (net, []) {} ?s = ((v, h), q, r)"
    by (metis prod.collapse)
  have plain: "findRounds live order (findNode live) t 20 3 20 net {} ?s = (v, q, r)" by (rule findRounds_logged [OF run])
  note fin = full.findRounds_ok [OF assms(4) _ _ log0 init run]
  obtain s where s: "r = Inr s" "search_ok t 20 ?A h q s" "set (ids s) \<subseteq> q \<or> 20 \<le> length h" and log: "complete_log net (v, h)"
    using fin findRounds_live [OF plain] by auto
  have v: "v = net" using log by (simp add: complete_log_def)
  note heard = complete_log_heard [OF log [unfolded v]]
  have L: "?A \<union> heard h \<subseteq> ?D" using A(1) heard(1) by auto
  then have card: "card (?A \<union> heard h) \<le> 20" using card_mono [OF D(1) L] D(2) by simp
  have conv: "set (ids s) \<subseteq> q" by (rule search_converged [OF s(2,3) card])
  have ok: "shortlist_ok t 20 (?A \<union> heard h) s" "sorted (map (\<lambda>p. xorDistance t (ID p)) s)" "q = set (asked h)"
    using s(2) by (simp_all add: search_ok_def)
  have few: "card {j \<in> ?A \<union> heard h. xorDistance t j < xorDistance t k} < 20" if "k \<in> ?A \<union> heard h" for k
  proof -
    have "card {j \<in> ?A \<union> heard h. xorDistance t j < xorDistance t k} < card (?A \<union> heard h)"
      using that finite_subset [OF L D(1)] by (intro psubset_card_mono) auto
    then show ?thesis using card by simp
  qed
  have all: "set (ids (take 20 s)) = ?A \<union> heard h" unfolding shortlist_closest [OF ok(1) assms(4) ok(2)] using few by blast
  obtain j where j: "j \<in> ?A" using A(2) unfolding ex_in_conv [symmetric] by (elim exE)
  then have "j \<in> set (asked h)" using all conv ok(3) by (auto dest: in_set_takeD)
  then have "?D - {j} \<subseteq> heard h" using heard(2) j A(1) by blast
  then have "?A \<union> heard h = ?D" using L A(1) j D(3) by blast
  moreover have "GetClosestPeers ?rt t 20 \<noteq> []"
    using GetClosestPeers_all [OF c(5), of t] A(2) by (auto simp: bucketK_def)
  then have "IterativeFindNode live order (Some ?rt) (Some (findNode live)) t simOptions net = (net, Inr (take 20 s))"
    using plain s(1) v by (simp add: IterativeFindNode_def simOptions_normal Let_def trimPeers_eq)
  ultimately show ?thesis using that all by simp
qed

section \<open>Publishing and finding in a complete network\<close>

text \<open>Storing changes neither the peers of the nodes nor their tables.\<close>

definition node_view :: "simNetwork \<Rightarrow> NodeID \<rightharpoonup> Peer \<times> RoutingTable" where
  "node_view net i = map_option (\<lambda>n. (dn_peer n, dn_rt n)) (nodes net i)"

lemma node_view_None: "node_view net i = None \<longleftrightarrow> nodes net i = None"
  by (simp add: node_view_def)

lemma node_view_dom: "node_view net' = node_view net \<Longrightarrow> dom (nodes net') = dom (nodes net)"
  unfolding dom_def node_view_None [symmetric] by (simp only:)

lemma node_view_node:
  assumes "node_view net' = node_view net" and "nodes net' i = Some n'"
  obtains n where "nodes net i = Some n" and "dn_peer n = dn_peer n'" and "dn_rt n = dn_rt n'"
proof -
  have "map_option (\<lambda>n. (dn_peer n, dn_rt n)) (nodes net i) = Some (dn_peer n', dn_rt n')"
    using fun_cong [OF assms(1), of i] assms(2) by (simp add: node_view_def)
  then show ?thesis using that by auto
qed

lemma complete_view:
  assumes "node_view net' = node_view net" and "complete net"
  shows "complete net'"
proof -
  note d = node_view_dom [OF assms(1)]
  have "wf_id i \<and> rt_ok (dn_rt n) \<and> ID (dn_peer n) = i \<and> set (ids (allPeers (dn_rt n))) = dom (nodes net) - {i}" if "nodes net' i = Some n" for i n
    using node_view_node [OF assms(1) that] completeD(1-4) [OF assms(2)] by metis
  then show ?thesis using assms(2) unfolding complete_def d by blast
qed

lemma storeAt_succeeds:
  "set (ids ps) \<subseteq> dom (nodes net) \<Longrightarrow> \<exists>net'. storeAt (storeValue live) key val net ps = (net', None)"
proof (induction ps arbitrary: net)
  case (Cons p ps)
  obtain n where n: "nodes net (ID p) = Some n" using Cons.prems by auto
  let ?net = "net\<lparr>nodes := (nodes net)(ID p \<mapsto> StoreLocal n key val)\<rparr>"
  have "storeValue live net p key val = (?net, None)" using n by (simp add: storeValue_def HandleStore_def)
  moreover have "\<exists>net'. storeAt (storeValue live) key val ?net ps = (net', None)" using Cons.prems by (intro Cons.IH) auto
  ultimately show ?case by simp
qed simp

lemma storeAt_view:
  assumes "storeAt (storeValue live) key val net ps = (net', None)"
  shows "node_view net' = node_view net"
  using storeAt_network [OF assms] by (auto simp: node_view_def fun_eq_iff StoreLocal_eq option.map_comp comp_def)

lemma store_complete:
  assumes "complete net" and "nodes net i = Some n" and "dom (nodes net) \<noteq> {i}"
  obtains net' ps where "IterativeStore live order (Some (dn_rt n)) (Some (findNode live)) (Some (storeValue live)) key val simOptions net =
      (net', ps, None)"
    and "node_view net' = node_view net"
    and "\<And>j k. value_at net' j k = (if k = key \<and> j \<in> dom (nodes net) then Some val else value_at net j k)"
proof -
  obtain ps where ps: "IterativeFindNode live order (Some (dn_rt n)) (Some (findNode live)) (KeyToID key) simOptions net = (net, Inr ps)"
    "set (ids ps) = dom (nodes net)"
    by (rule lookup_complete [OF assms wf_KeyToID])
  then obtain net' where s: "storeAt (storeValue live) key val net ps = (net', None)" using storeAt_succeeds [of ps net key val] by blast
  have "IterativeStore live order (Some (dn_rt n)) (Some (findNode live)) (Some (storeValue live)) key val simOptions net = (net', ps, None)"
    using ps(1) s by (simp add: IterativeStore_def)
  then show ?thesis using storeAt_view [OF s] store_network(2) [OF s] unfolding ps(2) by (rule that)
qed

lemma find_complete:
  assumes "complete net" and "nodes net i = Some n" and "dom (nodes net) \<noteq> {i}"
    and "\<And>j. j \<in> dom (nodes net) \<Longrightarrow> value_at net j key = Some v"
  shows "IterativeFindValue live order (Some (dn_rt n)) (Some (findValue live)) key simOptions net = (net, v, [], None)"
proof -
  note c = completeD [OF assms(1,2)]
  let ?t = "KeyToID key"
  let ?c = "GetClosestPeers (dn_rt n) ?t 20" and ?s = "sortPeersByDistance ?t (GetClosestPeers (dn_rt n) ?t 20)"
  have set_c: "set (ids ?c) = dom (nodes net) - {i}" using GetClosestPeers_all [OF c(5), of ?t] c(4) by (simp add: bucketK_def)
  have "i \<in> dom (nodes net)" using assms(2) by blast
  then have ne: "?c \<noteq> []" using set_c assms(3) by auto
  have "distinct (ids ?c)" using shortlist_ok_closest [OF c(2) wf_KeyToID, of key 20] by (simp add: shortlist_ok_def)
  then have "distinct (ids ?s)" by (simp add: sortPeersByDistance_eq distinct_map)
  note b = nextUnqueried_batch(1,5) [OF _ this, of 3 "{}"]
  have "nextUnqueried ?s {} 3 \<noteq> []" using b(2) ne by (simp add: sortPeersByDistance_eq)
  then obtain p ps where p: "nextUnqueried ?s {} 3 = p # ps" by (cases "nextUnqueried ?s {} 3") auto
  have "ID p \<in> dom (nodes net)" using b(1) p set_c by (auto simp: sortPeersByDistance_eq)
  from findValue_hit [OF assms(4) [OF this]]
  have "findValueRounds live order (findValue live) key ?t 20 3 (Suc m) net {} ?s = (net, {ID p}, Found v)" for m
    using p by simp
  from this [of 19] show ?thesis using ne by (simp add: IterativeFindValue_def simOptions_normal Let_def)
qed

definition addr_of :: "simNetwork \<Rightarrow> NodeID \<Rightarrow> string" where
  "addr_of net i = (case node_view net i of None \<Rightarrow> [] | Some (p, rt) \<Rightarrow> Addr p)"

lemma addr_of_node: "nodes net i = Some n \<Longrightarrow> addr_of net i = Addr (dn_peer n)"
  by (simp add: addr_of_def node_view_def)

lemma addr_of_view: "node_view net' = node_view net \<Longrightarrow> addr_of net' = addr_of net"
  by (simp add: addr_of_def fun_eq_iff)

lemma sensorKey_inj [simp]: "sensorKey a = sensorKey b \<longleftrightarrow> a = b"
  by (simp add: sensorKey_def)

text \<open>What the network holds after publishing for the nodes of a list.\<close>

lemma publish_complete:
  assumes "complete net" and "\<And>i. dom (nodes net) \<noteq> {i}" and "inj_on (addr_of net) (dom (nodes net))"
    and "distinct iter" and "set iter \<subseteq> dom (nodes net)"
    and "\<And>i. i \<in> set iter \<Longrightarrow> se_Marshal env (nodeReading env (clock i) (addr_of net i)) = Inr (pay i)"
  shows "\<exists>net'. publishSensorReadings env live order clock iter net = (net', None) \<and> node_view net' = node_view net \<and>
    (\<forall>j \<in> dom (nodes net). (\<forall>i \<in> set iter. value_at net' j (sensorKey (addr_of net i)) = Some (pay i)) \<and>
      (\<forall>k. k \<notin> (\<lambda>i. sensorKey (addr_of net i)) ` set iter \<longrightarrow> value_at net' j k = value_at net j k))"
  using assms
proof (induction iter arbitrary: net)
  case (Cons i iter)
  obtain n where n: "nodes net i = Some n" using Cons.prems(5) by auto
  obtain net1 ps where s: "IterativeStore live order (Some (dn_rt n)) (Some (findNode live)) (Some (storeValue live))
      (sensorKey (addr_of net i)) (pay i) simOptions net = (net1, ps, None)" and view: "node_view net1 = node_view net"
    and val: "\<And>j k. value_at net1 j k = (if k = sensorKey (addr_of net i) \<and> j \<in> dom (nodes net) then Some (pay i) else value_at net j k)"
    by (rule store_complete [OF Cons.prems(1) n Cons.prems(2), where order = order and key = "sensorKey (addr_of net i)" and val = "pay i"])
      (rule that)
  note same = node_view_dom [OF view] addr_of_view [OF view]
  have fresh: "addr_of net i' \<noteq> addr_of net i" if "i' \<in> set iter" for i'
    using that Cons.prems(3-5) by (auto dest: inj_onD)
  obtain net' where net': "publishSensorReadings env live order clock iter net1 = (net', None)" "node_view net' = node_view net1"
    "\<forall>j \<in> dom (nodes net). (\<forall>i \<in> set iter. value_at net' j (sensorKey (addr_of net i)) = Some (pay i)) \<and>
      (\<forall>k. k \<notin> (\<lambda>i. sensorKey (addr_of net i)) ` set iter \<longrightarrow> value_at net' j k = value_at net1 j k)"
    using Cons.IH [of net1, unfolded same] complete_view [OF view Cons.prems(1)] Cons.prems(2-6) by auto
  have "publishSensorReadings env live order clock (i # iter) net = (net', None)"
    using Cons.prems(6) [of i] s net'(1) by (simp add: n addr_of_node EncodeReading_def Let_def)
  moreover have "value_at net' j (sensorKey (addr_of net i)) = Some (pay i)" if "j \<in> dom (nodes net)" for j
  proof -
    have "sensorKey (addr_of net i) \<notin> (\<lambda>i. sensorKey (addr_of net i)) ` set iter" using fresh by (metis imageE sensorKey_inj)
    then show ?thesis using net'(3) that val by simp
  qed
  moreover have "value_at net' j k = value_at net j k"
    if "j \<in> dom (nodes net)" "k \<notin> (\<lambda>i. sensorKey (addr_of net i)) ` set (i # iter)" for j k
    using net'(3) that val by simp
  ultimately show ?case using net'(2,3) view by auto
qed simp

lemma query_complete:
  assumes "complete net" and "nodes net a = Some anchor" and "dom (nodes net) \<noteq> {a}" and "set iter \<subseteq> dom (nodes net)"
    and "\<And>i j. i \<in> set iter \<Longrightarrow> j \<in> dom (nodes net) \<Longrightarrow> value_at net j (sensorKey (addr_of net i)) = Some (pay i)"
    and "\<And>i. i \<in> set iter \<Longrightarrow> se_Unmarshal env (pay i) = Inr (rd i)" and "\<And>i. i \<in> set iter \<Longrightarrow> rd_NodeID (rd i) = addr_of net i"
  shows "queryReadings env live order anchor iter net readings = Inr (readings @ map rd iter)"
  using assms(4-7)
proof (induction iter arbitrary: readings)
  case (Cons i iter)
  obtain n where n: "nodes net i = Some n" using Cons.prems(1) by auto
  have "IterativeFindValue live order (Some (dn_rt anchor)) (Some (findValue live)) (sensorKey (addr_of net i)) simOptions net = (net, pay i, [], None)"
    using Cons.prems(2) by (intro find_complete [OF assms(1-3)]) simp
  then have "queryReadings env live order anchor (i # iter) net readings = queryReadings env live order anchor iter net (readings @ [rd i])"
    using Cons.prems(3,4) [of i] by (simp add: n addr_of_node DecodeReading_def)
  then show ?case using Cons.IH [of "readings @ [rd i]"] Cons.prems by simp
qed simp

section \<open>Building the network\<close>

text \<open>A table whose buckets hold 20 peers each does not evict one as long as it knows no more.\<close>

definition roomy :: "RoutingTable \<Rightarrow> bool" where
  "roomy rt \<longleftrightarrow> (\<forall>b \<in> set (buckets rt). maxSize b = 20)"

lemma lru_add_ids: "ID p \<in> set (ids ps) \<or> length ps < cap \<Longrightarrow> set (ids (fst (lru_add cap p ps))) = insert (ID p) (set (ids ps))"
  by (auto simp: lru_add_def)

lemma allPeers_ids: "set (ids (allPeers rt)) = (\<Union>j < length (buckets rt). set (ids (peers (buckets rt ! j))))"
proof -
  have "set (allPeers rt) = (\<Union>j < length (buckets rt). set (peers (buckets rt ! j)))" by (auto simp: in_allPeers)
  then show ?thesis by (simp add: image_UN)
qed

lemma bucket_length:
  assumes "rt_ok rt" and "j < length (buckets rt)"
  shows "length (peers (buckets rt ! j)) \<le> length (allPeers rt)"
proof -
  have "distinct (ids (peers (buckets rt ! j)))" using assms by (simp add: rt_ok_def bucket_ok_def)
  moreover have "set (ids (peers (buckets rt ! j))) \<subseteq> set (ids (allPeers rt))"
    unfolding allPeers_ids using assms(2) by blast
  ultimately have "length (ids (peers (buckets rt ! j))) \<le> card (set (ids (allPeers rt)))"
    using distinct_card card_mono [OF finite_set] by metis
  also have "\<dots> \<le> length (ids (allPeers rt))" by (rule card_length)
  finally show ?thesis by simp
qed

lemma UN_insert_at: "i < n \<Longrightarrow> (\<Union>j < n. if j = i then insert x (f j) else f j) = insert x (\<Union>j < n. f j)" for n :: nat
  by (auto split: if_splits)

lemma AddPeer_room:
  assumes ok: "rt_ok rt" and room: "roomy rt" and p: "wf_id (ID p)" "Addr p \<noteq> ''''" "ID p \<noteq> localID rt"
    and few: "ID p \<in> set (ids (allPeers rt)) \<or> length (allPeers rt) < 20"
  obtains rt' err where "AddPeer now rt p = Some (rt', err)" and "rt_ok rt'" and "roomy rt'" and "localID rt' = localID rt"
    and "set (ids (allPeers rt')) = set (ids (allPeers rt)) \<union> ({ID p} - {zeroID})"
proof (cases "ID p = zeroID")
  case True
  then show ?thesis using that [of rt] AddPeer_rejects [of p rt now] ok room by auto
next
  case False
  let ?i = "bucketIndex (localID rt) (ID p)" and ?q = "p\<lparr>LastSeen := now\<rparr>"
  have good: "good_peer (localID rt) p" using False p by (simp add: good_peer_def)
  obtain b' ev where add: "AddPeer now rt p = Some (rt\<lparr>buckets := (buckets rt)[?i := b']\<rparr>, None)"
    "Bucket_Add (buckets rt ! ?i) ?q = Some (b', ev)" "?i < length (buckets rt)"
    by (rule AddPeer_accepts [OF ok good])
  let ?b = "buckets rt ! ?i" and ?rt = "rt\<lparr>buckets := (buckets rt)[?i := b']\<rparr>"
  have b: "bucket_ok ?b" "maxSize ?b = 20" using ok room add(3) by (auto simp: rt_ok_def roomy_def)
  have b': "b' = ?b\<lparr>peers := fst (lru_add 20 ?q (peers ?b))\<rparr>" using Add_lru [OF b(1), of ?q] add(2) b(2) by simp
  have "ID p \<in> set (ids (peers ?b)) \<or> length (peers ?b) < 20"
  proof (cases "ID p \<in> set (ids (allPeers rt))")
    case True
    then obtain q where "q \<in> set (allPeers rt)" "ID q = ID p" by auto
    moreover from this have "q \<in> set (peers ?b)" using in_allPeers_bucket [OF ok, of q] p(1) by simp
    ultimately show ?thesis by (metis image_eqI list.set_map)
  qed (use few bucket_length [OF ok add(3)] in simp)
  then have ids: "set (ids (peers b')) = insert (ID p) (set (ids (peers ?b)))" unfolding b' using lru_add_ids [of ?q "peers ?b" 20] by simp
  have "set (ids (peers ((buckets rt)[?i := b'] ! j))) =
      (if j = ?i then insert (ID p) (set (ids (peers (buckets rt ! j)))) else set (ids (peers (buckets rt ! j))))" for j
    using add(3) ids by (cases "j = ?i") simp_all
  moreover have "buckets ?rt = (buckets rt)[?i := b']" by simp
  ultimately have "set (ids (allPeers ?rt)) = insert (ID p) (set (ids (allPeers rt)))"
    unfolding allPeers_ids by (simp only: length_list_update UN_insert_at [OF add(3)])
  then have "set (ids (allPeers ?rt)) = set (ids (allPeers rt)) \<union> ({ID p} - {zeroID})" using False by simp
  moreover have "roomy ?rt" using room b(2) b' by (auto simp: roomy_def dest!: set_update_subset_insert [THEN subsetD])
  ultimately show ?thesis using that add(1) AddPeer_ok [OF ok p(1) add(1)] by blast
qed

lemma addAll_tables:
  assumes "rt_ok (dn_rt node)" and "roomy (dn_rt node)" and "localID (dn_rt node) = ID (dn_peer node)"
    and "\<And>p. p \<in> set ps \<Longrightarrow> wf_id (ID p) \<and> Addr p \<noteq> ''''"
    and "finite U" and "card U \<le> 20" and "set (ids (allPeers (dn_rt node))) \<union> set (ids ps) \<subseteq> U"
  shows "\<exists>rt. addAll clock node k ps = Some (node\<lparr>dn_rt := rt\<rparr>) \<and> rt_ok rt \<and>
    set (ids (allPeers rt)) = set (ids (allPeers (dn_rt node))) \<union> (set (ids ps) - {ID (dn_peer node), zeroID})"
  using assms
proof (induction ps arbitrary: node k)
  case Nil
  then show ?case by (auto intro!: exI [of _ "dn_rt node"])
next
  case (Cons p ps)
  show ?case
  proof (cases "ID p = ID (dn_peer node)")
    case True
    then show ?thesis using Cons.IH [of node "Suc k"] Cons.prems by auto
  next
    case False
    let ?ids = "set (ids (allPeers (dn_rt node)))"
    have "ID p \<in> ?ids \<or> length (allPeers (dn_rt node)) < 20"
    proof (cases "ID p \<in> ?ids")
      case False
      have "card (insert (ID p) ?ids) \<le> card U" using Cons.prems(5,7) by (intro card_mono) auto
      then show ?thesis using False Cons.prems(6) distinct_card [OF distinct_allPeers [OF Cons.prems(1)]] by simp
    qed simp
    then obtain rt err where rt: "AddPeer (clock k) (dn_rt node) p = Some (rt, err)" "rt_ok rt" "roomy rt" "localID rt = localID (dn_rt node)"
      "set (ids (allPeers rt)) = ?ids \<union> ({ID p} - {zeroID})"
      using AddPeer_room [OF Cons.prems(1,2), of p "clock k"] Cons.prems(3,4) False by (metis list.set_intros(1))
    have "set (ids (allPeers rt)) \<union> set (ids ps) \<subseteq> U" unfolding rt(5) using Cons.prems(7) by auto
    then obtain rt' where "addAll clock (node\<lparr>dn_rt := rt\<rparr>) (Suc k) ps = Some (node\<lparr>dn_rt := rt'\<rparr>)" "rt_ok rt'"
      "set (ids (allPeers rt')) = set (ids (allPeers rt)) \<union> (set (ids ps) - {ID (dn_peer node), zeroID})"
      using Cons.IH [of "node\<lparr>dn_rt := rt\<rparr>" "Suc k"] rt(2-4) Cons.prems(3-6) by auto
    then show ?thesis using rt(1,5) False by (auto intro!: exI [of _ rt'])
  qed
qed

lemma NewNode_fresh [simp]:
  "ID (dn_peer (dht_NewNode i addr n)) = i" "Addr (dn_peer (dht_NewNode i addr n)) = addr" "dn_store (dht_NewNode i addr n) = Map.empty"
  "localID (dn_rt (dht_NewNode i addr n)) = i" "roomy (dn_rt (dht_NewNode i addr bucketK))" "allPeers (dn_rt (dht_NewNode i addr n)) = []"
  "wf_id i \<Longrightarrow> rt_ok (dn_rt (dht_NewNode i addr n))"
proof -
  show "wf_id i \<Longrightarrow> rt_ok (dn_rt (dht_NewNode i addr n))" by (simp add: dht_NewNode_def rt_ok_New)
qed (simp_all add: dht_NewNode_def NewRoutingTable_def bucketK_def roomy_def NewBucket_def allPeers_def Let_def)

definition newNode :: "nat \<Rightarrow> DhtNode" where
  "newNode k = dht_NewNode (KeyToID (nodeName k)) (nodeName k) bucketK"

lemma newNode_simps [simp]:
  "ID (dn_peer (newNode k)) = KeyToID (nodeName k)" "Addr (dn_peer (newNode k)) = nodeName k" "dn_store (newNode k) = Map.empty"
  "localID (dn_rt (newNode k)) = KeyToID (nodeName k)" "rt_ok (dn_rt (newNode k))" "roomy (dn_rt (newNode k))"
  "allPeers (dn_rt (newNode k)) = []"
  by (simp_all add: newNode_def)

lemma buildNodes_Cons:
  "buildNodes (k # ks) ns ps = buildNodes ks (ns(KeyToID (nodeName k) \<mapsto> newNode k)) (ps @ [dn_peer (newNode k)])"
  by (simp add: newNode_def Let_def)

lemma buildNodes_result:
  "snd (buildNodes ks ns ps) = ps @ map (\<lambda>k. dn_peer (newNode k)) ks"
  "dom (fst (buildNodes ks ns ps)) = dom ns \<union> (\<lambda>k. KeyToID (nodeName k)) ` set ks"
  by (induction ks arbitrary: ns ps) (auto simp: buildNodes_Cons simp del: buildNodes.simps(2))

lemma buildNodes_node:
  "fst (buildNodes ks ns ps) i = Some n \<Longrightarrow> ns i = Some n \<or> (\<exists>k \<in> set ks. i = KeyToID (nodeName k) \<and> n = newNode k)"
proof (induction ks arbitrary: ns ps)
  case (Cons k ks)
  from Cons.IH [OF Cons.prems [unfolded buildNodes_Cons]] show ?case by (auto split: if_splits)
qed simp

lemma linkNodes_result:
  assumes "distinct iter" and "\<And>i n. i \<in> set iter \<Longrightarrow> ns i = Some n \<Longrightarrow> addAll (clock i) n 0 ps \<noteq> None"
  shows "linkNodes clock ps iter ns = Some (\<lambda>i. if i \<in> set iter then Option.bind (ns i) (\<lambda>n. addAll (clock i) n 0 ps) else ns i)"
  using assms
proof (induction iter arbitrary: ns)
  case (Cons i iter)
  show ?case
  proof (cases "ns i")
    case None
    then show ?thesis using Cons.IH [of ns] Cons.prems by (auto simp: fun_eq_iff)
  next
    case (Some n)
    then obtain n' where n': "addAll (clock i) n 0 ps = Some n'" using Cons.prems(2) [of i n] by auto
    have "linkNodes clock ps iter (ns(i \<mapsto> n')) =
        Some (\<lambda>j. if j \<in> set iter then Option.bind ((ns(i \<mapsto> n')) j) (\<lambda>n. addAll (clock j) n 0 ps) else (ns(i \<mapsto> n')) j)"
      using Cons.prems by (intro Cons.IH) (auto split: if_splits)
    then show ?thesis using Some n' Cons.prems(1) by (auto simp: fun_eq_iff)
  qed
qed simp

lemma nodeName_nonempty [simp]: "nodeName k \<noteq> ''''"
  by (simp add: nodeName_def)

lemma buildNetwork_tables:
  assumes "cnt \<le> 20" and "distinct iter" and "set iter = (\<lambda>k. KeyToID (nodeName k)) ` {0..<cnt}"
  shows "\<exists>net. buildNetwork clock iter cnt = Some net \<and> dom (nodes net) = set iter \<and>
    (\<forall>i n. nodes net i = Some n \<longrightarrow> rt_ok (dn_rt n) \<and> ID (dn_peer n) = i \<and> KeyToID (Addr (dn_peer n)) = i \<and> dn_store n = Map.empty \<and>
       set (ids (allPeers (dn_rt n))) = set iter - {i, zeroID})"
proof -
  obtain ns ps where b: "buildNodes [0..<cnt] Map.empty [] = (ns, ps)" by fastforce
  have ps: "ps = map (\<lambda>k. dn_peer (newNode k)) [0..<cnt]" and dom: "dom ns = set iter"
    using buildNodes_result(1,2) [of "[0..<cnt]" Map.empty "[]"] b assms(3) by simp_all
  have new: "\<exists>k < cnt. i = KeyToID (nodeName k) \<and> n = newNode k" if "ns i = Some n" for i n
    using buildNodes_node [of "[0..<cnt]" Map.empty "[]" i n] b that by auto
  have ids: "set (ids ps) = set iter" by (simp add: ps assms(3) image_image)
  have "card (set iter) \<le> 20" unfolding assms(3) using card_image_le [of "{0..<cnt}" "\<lambda>k. KeyToID (nodeName k)"] assms(1) by simp
  then have add: "\<exists>rt. addAll (clock i) n 0 ps = Some (n\<lparr>dn_rt := rt\<rparr>) \<and> rt_ok rt \<and> set (ids (allPeers rt)) = set iter - {i, zeroID} \<and>
      ID (dn_peer n) = i \<and> KeyToID (Addr (dn_peer n)) = i \<and> dn_store n = Map.empty"
    if i: "ns i = Some n" for i n
  proof -
    obtain k where k: "i = KeyToID (nodeName k)" "n = newNode k" using new [OF i] by blast
    have "wf_id (ID p) \<and> Addr p \<noteq> ''''" if "p \<in> set ps" for p using that by (auto simp: ps)
    then show ?thesis using addAll_tables [of "newNode k" ps "set iter" "clock i" 0] ids \<open>card (set iter) \<le> 20\<close> by (simp add: k)
  qed
  let ?ns = "\<lambda>i. if i \<in> set iter then Option.bind (ns i) (\<lambda>n. addAll (clock i) n 0 ps) else ns i"
  have link: "linkNodes clock ps iter ns = Some ?ns"
  proof (rule linkNodes_result [OF assms(2)])
    show "addAll (clock i) n 0 ps \<noteq> None" if "ns i = Some n" for i n using add [OF that] by (elim exE conjE) simp
  qed
  have in_dom: "i \<in> set iter \<longleftrightarrow> ns i \<noteq> None" for i unfolding dom [symmetric] by (simp only: domIff)
  have node: "rt_ok (dn_rt n) \<and> ID (dn_peer n) = i \<and> KeyToID (Addr (dn_peer n)) = i \<and> dn_store n = Map.empty \<and>
      set (ids (allPeers (dn_rt n))) = set iter - {i, zeroID}" if "?ns i = Some n" for i n
  proof (cases "ns i")
    case (Some n0)
    then have "addAll (clock i) n0 0 ps = Some n" using that in_dom [of i] by simp
    then obtain rt where "n = n0\<lparr>dn_rt := rt\<rparr>" "rt_ok rt" "set (ids (allPeers rt)) = set iter - {i, zeroID}"
      "ID (dn_peer n0) = i" "KeyToID (Addr (dn_peer n0)) = i" "dn_store n0 = Map.empty"
      using add [OF Some] by (metis option.inject)
    then show ?thesis by simp
  qed (use that in_dom [of i] in simp)
  have "?ns i \<noteq> None \<longleftrightarrow> i \<in> set iter" for i
  proof (cases "ns i")
    case (Some n0)
    then show ?thesis using in_dom [of i] add [OF Some] by (elim exE conjE) simp
  qed (use in_dom [of i] in simp)
  then have "dom ?ns = set iter" unfolding dom_def by (simp only: Collect_mem_eq)
  then show ?thesis
    using b link node by (intro exI [of _ "\<lparr>nodes = ?ns\<rparr>"]) (simp only: buildNetwork_def Let_def prod.case option.map simNetwork.select_convs, simp)
qed

text \<open>
  C14: the network that is built. With at most 20 nodes no call panics and no bucket evicts a peer: the network has a node for each of the
  identifiers of the names, and each node is filed under its identifier, has the address from which it is computed, has
  nothing stored, and knows all the other nodes, except one with the zero identifier.
\<close>

theorem buildNetwork_complete:
  assumes "cnt \<le> 20" and "distinct iter" and "set iter = (\<lambda>k. KeyToID (nodeName k)) ` {0..<cnt}"
  shows "\<exists>net. buildNetwork clock iter cnt = Some net \<and> dom (nodes net) = set iter \<and>
    (\<forall>i n. nodes net i = Some n \<longrightarrow> rt_ok (dn_rt n) \<and> ID (dn_peer n) = i \<and> KeyToID (Addr (dn_peer n)) = i \<and> dn_store n = Map.empty \<and>
       set (ids (allPeers (dn_rt n))) = set iter - {i, zeroID})"
  by (rule buildNetwork_tables [OF assms])

theorem buildNetwork_complete_witness:
  "\<exists>net. buildNetwork (\<lambda>_ _. 7) (remdups (map (\<lambda>k. KeyToID (nodeName k)) [0..<sim_peerCount])) sim_peerCount = Some net \<and>
     KeyToID ''node-1'' \<in> dom (nodes net)"
proof -
  have "char_of (49 :: nat) = CHR ''1''" by code_simp
  then have "nodeName 0 = ''node-1''" by (simp add: nodeName_def Itoa_def digits.simps)
  then have "KeyToID ''node-1'' \<in> (\<lambda>k. KeyToID (nodeName k)) ` {0..<sim_peerCount}"
    by (intro image_eqI [of _ _ 0]) (simp_all add: sim_peerCount_def)
  then show ?thesis
    using buildNetwork_complete [of sim_peerCount "remdups (map (\<lambda>k. KeyToID (nodeName k)) [0..<sim_peerCount])" "\<lambda>_ _. 7"]
    by (auto simp: sim_peerCount_def)
qed

section \<open>The whole run\<close>

lemma nodeReading_plausible:
  assumes "\<And>s. between 0 (snd (se_Float64 env s)) 1" and "\<And>s. \<exists>r. snd (se_NormFloat64 env s) = Fin r"
  shows "rd_NodeID (nodeReading env now addr) = addr" and "temp_ok (nodeReading env now addr)" and "loc_ok (rd_Location (nodeReading env now addr))"
proof -
  let ?g = "NewGenerator (se_NewSource env) (se_Float64 env) addr (LocationFromSeed addr)"
  obtain g r where n: "Generator_Next (se_NormFloat64 env) now ?g = (g, r)" by fastforce
  have r: "nodeReading env now addr = r" by (simp add: nodeReading_def n)
  note ok = Generator_Next_ok [OF NewGenerator_ok [OF assms(1)] assms(2) n]
  show "rd_NodeID (nodeReading env now addr) = addr" "temp_ok (nodeReading env now addr)" using ok by (simp_all add: r temp_ok_def)
  show "loc_ok (rd_Location (nodeReading env now addr))" using ok(4) LocationFromSeed_between [of addr] by (simp add: r loc_ok_def)
qed

lemma runRegionQuery_succeeds:
  assumes "math_ok (se_math env)" and "\<And>x. x \<in> set xs \<Longrightarrow> temp_ok x \<and> loc_ok (rd_Location x)" and "xs \<noteq> []" and "length xs \<le> 2 ^ 40"
  shows "\<exists>avg matched. runRegionQuery env xs = Inr (avg, int (length matched), matched) \<and> matched \<noteq> [] \<and> set matched \<subseteq> set xs \<and> between (- 10) avg 45"
proof -
  obtain y ys where y: "xs = y # ys" using assms(3) by (cases xs) auto
  define ms where "ms = FilterByRadius (se_math env) xs (rd_Location y) (Fin 10)"
  have ms: "ms = filter (\<lambda>x. fle (DistanceKm (se_math env) (rd_Location y) (rd_Location x)) (Fin 10)) xs"
    by (simp add: ms_def FilterByRadius_def selectWithin_filter)
  have "y \<in> set ms" using DistanceKm_self [OF assms(1), of "rd_Location y"] assms(2) [of y] y by (simp add: ms)
  then have ne: "ms \<noteq> []" by auto
  have len: "length ms \<le> 2 ^ 40" unfolding ms by (rule order_trans [OF length_filter_le assms(4)])
  have sub: "set ms \<subseteq> set xs" unfolding ms by (rule filter_is_subset)
  then have "temp_ok x" if "x \<in> set ms" for x using assms(2) that by blast
  then obtain avg where "AverageTemperature ms = Inr avg" "between (- 10) avg 45" by (rule Average_between [OF _ len ne])
  then have "runRegionQuery env xs = Inr (avg, int (length ms), ms)"
    using ne by (simp add: runRegionQuery_def y QueryAPI_AverageTemperatureInRadius_def AverageTemperatureInRadius_def ms_def [unfolded y, symmetric])
  then show ?thesis using ne sub \<open>between (- 10) avg 45\<close> by blast
qed

lemma flow_complete:
  assumes "complete net" and "2 \<le> card (dom (nodes net))" and "inj_on (addr_of net) (dom (nodes net))"
    and "distinct iter" and "set iter = dom (nodes net)" and "set iter0 = dom (nodes net)"
    and "distinct iter2" and "set iter2 = dom (nodes net)"
    and "\<And>s. between 0 (snd (se_Float64 env s)) 1" and "\<And>s. \<exists>r. snd (se_NormFloat64 env s) = Fin r" and "math_ok (se_math env)"
    and codec: "\<And>i. i \<in> dom (nodes net) \<Longrightarrow> \<exists>p. se_Marshal env (nodeReading env (clock i) (addr_of net i)) = Inr p \<and>
      se_Unmarshal env p = Inr (nodeReading env (clock i) (addr_of net i))"
  shows "\<exists>net' avg matched. publishSensorReadings env live order clock iter net = (net', None) \<and> node_view net' = node_view net \<and>
    verifySensorQueries env live order' iter0 iter2 net' = Inr (map (\<lambda>i. nodeReading env (clock i) (addr_of net i)) iter2) \<and>
    runRegionQuery env (map (\<lambda>i. nodeReading env (clock i) (addr_of net i)) iter2) = Inr (avg, int (length matched), matched) \<and>
    matched \<noteq> [] \<and> between (- 10) avg 45"
proof -
  let ?rd = "\<lambda>i. nodeReading env (clock i) (addr_of net i)"
  have two: "dom (nodes net) \<noteq> {i}" for i using assms(2) by auto
  obtain pay where pay: "\<And>i. i \<in> dom (nodes net) \<Longrightarrow> se_Marshal env (?rd i) = Inr (pay i)"
    "\<And>i. i \<in> dom (nodes net) \<Longrightarrow> se_Unmarshal env (pay i) = Inr (?rd i)"
    using codec by metis
  obtain net' where net': "publishSensorReadings env live order clock iter net = (net', None)" "node_view net' = node_view net"
    and val: "\<And>i j. i \<in> dom (nodes net) \<Longrightarrow> j \<in> dom (nodes net) \<Longrightarrow> value_at net' j (sensorKey (addr_of net i)) = Some (pay i)"
    using publish_complete [OF assms(1) two assms(3,4), of env clock pay order] assms(5) pay(1) by auto
  note same = node_view_dom [OF net'(2)] addr_of_view [OF net'(2)]
  obtain a rest where a: "iter0 = a # rest" using assms(2,6) by (cases iter0) auto
  then obtain anchor where anchor: "nodes net' a = Some anchor" using assms(6) same(1) by (metis domD list.set_intros(1))
  have "queryReadings env live order' anchor iter2 net' [] = Inr ([] @ map ?rd iter2)"
    by (rule query_complete [OF complete_view [OF net'(2) assms(1)] anchor])
      (use two val pay(2) nodeReading_plausible(1) [OF assms(9,10)] in \<open>simp_all add: same assms(8)\<close>)
  then have "verifySensorQueries env live order' iter0 iter2 net' = Inr (map ?rd iter2)" by (simp add: verifySensorQueries_def a anchor)
  moreover have "iter2 \<noteq> []" using assms(2,8) by auto
  moreover have "length iter2 \<le> 2 ^ 40" using distinct_card [OF assms(7)] assms(1,8) by (simp add: complete_def)
  moreover have "temp_ok x \<and> loc_ok (rd_Location x)" if "x \<in> set (map ?rd iter2)" for x
    using that nodeReading_plausible(2,3) [OF assms(9,10)] by auto
  ultimately show ?thesis using net' runRegionQuery_succeeds [OF assms(11), of "map ?rd iter2"] by auto
qed

text \<open>
  C9: the data path of the simulation, end to end. In a network of 2 to 20 nodes that know each other and have different addresses, whatever the
  iteration orders, the clock and the seeds are: every node publishes its reading; then every reading is found again from an
  arbitrary anchor, decoded to exactly the reading that was published and attributed to its node; and the region query over the
  readings succeeds, counts at least one of them and gives an average between -10 and 45 degrees. The generators, the elementary functions and the encoder
  do what their documentation says, and the context is not done.
\<close>

theorem simulation_finds_readings:
  assumes "complete net" and "2 \<le> card (dom (nodes net))" and "inj_on (addr_of net) (dom (nodes net))"
    and "distinct iter" and "set iter = dom (nodes net)" and "set iter0 = dom (nodes net)"
    and "distinct iter2" and "set iter2 = dom (nodes net)"
    and "\<And>s. between 0 (snd (se_Float64 env s)) 1" and "\<And>s. \<exists>r. snd (se_NormFloat64 env s) = Fin r" and "math_ok (se_math env)"
    and "\<And>i. i \<in> dom (nodes net) \<Longrightarrow> \<exists>p. se_Marshal env (nodeReading env (clock i) (addr_of net i)) = Inr p \<and>
      se_Unmarshal env p = Inr (nodeReading env (clock i) (addr_of net i))"
  shows "\<exists>net' avg matched. publishSensorReadings env (\<lambda>_. None) order clock iter net = (net', None) \<and>
    verifySensorQueries env (\<lambda>_. None) order' iter0 iter2 net' = Inr (map (\<lambda>i. nodeReading env (clock i) (addr_of net i)) iter2) \<and>
    runRegionQuery env (map (\<lambda>i. nodeReading env (clock i) (addr_of net i)) iter2) = Inr (avg, int (length matched), matched) \<and>
    matched \<noteq> [] \<and> between (- 10) avg 45"
  using flow_complete [OF assms(1-11), where clock = clock and order = order and order' = order'] assms(12) by blast

text \<open>Two nodes, and an encoder that writes the identifier of the node.\<close>

definition example_sim_env0 :: "unit sim_env" where
  "example_sim_env0 = \<lparr>se_NewSource = \<lambda>_. (), se_Float64 = \<lambda>_. ((), Fin 0), se_NormFloat64 = \<lambda>_. ((), Fin 0), se_Perm = \<lambda>_ n. ((), [0..<n]),
     se_math = example_math, se_Marshal = \<lambda>r. Inr (if rd_NodeID r = ''a'' then [1] else [2]), se_Unmarshal = \<lambda>_. Inl ''''\<rparr>"

definition example_sim_env :: "unit sim_env" where
  "example_sim_env = example_sim_env0\<lparr>se_Unmarshal := \<lambda>p. Inr (nodeReading example_sim_env0 7 (if p = [1] then ''a'' else ''b''))\<rparr>"

lemma example_pair_network:
  "\<exists>net. complete net \<and> dom (nodes net) = {1 # replicate 19 0, 2 # replicate 19 0} \<and>
     addr_of net (1 # replicate 19 0) = ''a'' \<and> addr_of net (2 # replicate 19 0) = ''b''"
proof -
  let ?a = "1 # replicate 19 0 :: NodeID" and ?b = "2 # replicate 19 0 :: NodeID"
  have ids: "wf_id ?a" "wf_id ?b" "?a \<noteq> zeroID" "?b \<noteq> zeroID" by code_simp+
  have ab: "?a \<noteq> ?b" by simp
  have table: "\<exists>rt. rt_ok rt \<and> set (ids (allPeers rt)) = {j}" if "wf_id i" "wf_id j" "i \<noteq> j" "j \<noteq> zeroID" for i j
  proof -
    have "set (ids [\<lparr>ID = j, Addr = ''b'', LastSeen = 0\<rparr>]) - {i, zeroID} = {j}" using that by auto
    then show ?thesis
      using addAll_tables [of "dht_NewNode i ''a'' bucketK" "[\<lparr>ID = j, Addr = ''b'', LastSeen = 0\<rparr>]" "{j}" "\<lambda>_. 7" 0] that by fastforce
  qed
  obtain ra where ra: "rt_ok ra" "set (ids (allPeers ra)) = {?b}" using table [OF ids(1,2) ab ids(4)] by blast
  obtain rb where rb: "rt_ok rb" "set (ids (allPeers rb)) = {?a}" using table [OF ids(2,1) not_sym [OF ab] ids(3)] by blast
  let ?node = "\<lambda>i addr rt. \<lparr>dn_peer = \<lparr>ID = i, Addr = addr, LastSeen = 0\<rparr>, dn_rt = rt, dn_store = Map.empty\<rparr>"
  let ?net = "\<lparr>nodes = [?a \<mapsto> ?node ?a ''a'' ra, ?b \<mapsto> ?node ?b ''b'' rb]\<rparr>"
  have dom: "dom (nodes ?net) = {?a, ?b}" by auto
  have "complete ?net" unfolding complete_def dom using ids ra rb ab by (auto split: if_splits)
  moreover have "addr_of ?net ?a = ''a''" "addr_of ?net ?b = ''b''" by (simp_all add: addr_of_def node_view_def)
  ultimately show ?thesis using dom by blast
qed

theorem simulation_finds_readings_witness:
  "\<exists>net net' avg matched. dom (nodes net) = {1 # replicate 19 0, 2 # replicate 19 0} \<and>
     publishSensorReadings example_sim_env (\<lambda>_. None) (\<lambda>_. []) (\<lambda>_. 7) [1 # replicate 19 0, 2 # replicate 19 0] net = (net', None) \<and>
     verifySensorQueries example_sim_env (\<lambda>_. None) (\<lambda>_. []) [2 # replicate 19 0, 1 # replicate 19 0] [2 # replicate 19 0, 1 # replicate 19 0] net' =
       Inr [nodeReading example_sim_env 7 ''b'', nodeReading example_sim_env 7 ''a''] \<and>
     runRegionQuery example_sim_env [nodeReading example_sim_env 7 ''b'', nodeReading example_sim_env 7 ''a''] = Inr (avg, int (length matched), matched) \<and>
     matched \<noteq> [] \<and> between (- 10) avg 45"
proof -
  let ?a = "1 # replicate 19 0 :: NodeID" and ?b = "2 # replicate 19 0 :: NodeID"
  obtain net where net: "complete net" "dom (nodes net) = {?a, ?b}" "addr_of net ?a = ''a''" "addr_of net ?b = ''b''" using example_pair_network by blast
  have env: "between 0 (snd (se_Float64 example_sim_env s)) 1" "\<exists>r. snd (se_NormFloat64 example_sim_env s) = Fin r" "math_ok (se_math example_sim_env)" for s
    by (simp_all add: example_sim_env_def example_sim_env0_def between_def math_ok_def example_math_def)
  have same: "nodeReading example_sim_env now addr = nodeReading example_sim_env0 now addr" for now addr by (simp add: nodeReading_def example_sim_env_def)
  have "rd_NodeID (nodeReading example_sim_env0 now addr) = addr" for now addr
    using nodeReading_plausible(1) [OF env(1,2), of now addr] by (simp add: same)
  then have codec: "\<exists>p. se_Marshal example_sim_env (nodeReading example_sim_env 7 (addr_of net i)) = Inr p \<and>
      se_Unmarshal example_sim_env p = Inr (nodeReading example_sim_env 7 (addr_of net i))" if "i \<in> dom (nodes net)" for i
    unfolding same using that net by (auto simp: example_sim_env_def example_sim_env0_def)
  have ab: "?a \<noteq> ?b" by simp
  have "2 \<le> card (dom (nodes net))" "inj_on (addr_of net) (dom (nodes net))" using net(3,4) ab unfolding net(2) by (simp_all add: inj_on_def)
  from simulation_finds_readings [OF net(1) this, where iter = "[?a, ?b]" and ?iter0.0 = "[?b, ?a]" and ?iter2.0 = "[?b, ?a]" and order = "\<lambda>_. []" and order' = "\<lambda>_. []", OF _ _ _ _ _ env codec]
  show ?thesis using net(2-4) by (auto simp del: replicate.simps)
qed

lemma target_ratio: "\<not> fle (round64 (9 / 10)) (Fin 0)" "\<not> flt (Fin 1) (round64 (9 / 10))"
proof -
  have "near (1 / 2) = 1 / 2" "near 1 = 1" using near_power [of "- 1"] near_power [of 0] by (simp_all add: power_int_minus)
  note r = round64_between [OF this, of "9 / 10"]
  show "\<not> fle (round64 (9 / 10)) (Fin 0)" "\<not> flt (Fin 1) (round64 (9 / 10))" using r float_limit_def by simp_all
qed

lemma peersMap_dom: "dom (peersMap gs) = gs_ID ` set gs"
proof -
  have "dom (foldl (\<lambda>m node. m(gs_ID node \<mapsto> gs_Peers node)) m gs) = dom m \<union> gs_ID ` set gs" for m
    by (induction gs arbitrary: m) auto
  then show ?thesis by (simp add: peersMap_def)
qed

lemma simSteps_error:
  "simSteps Perm orders m fanout target n_all left k rng infected = (res, e) \<Longrightarrow> e = None \<or> e = Some TargetNotReached"
  by (induction left arbitrary: k rng infected) (auto simp: Let_def split: prod.splits if_splits)

text \<open>Twenty steps of 100 ms take two seconds: the check of the duration never fails.\<close>

lemma gossip_in_time:
  assumes "draws_perm (se_Perm env)" and "runGossipSimulation env orders iter net = Inl err"
  shows "err = NoNodesForGossip \<and> gossipNodes net iter = [] \<or> err = PropagationFailed TargetNotReached"
proof (cases "gossipNodes net iter")
  case (Cons node rest)
  let ?run = "SimulatePropagation (se_Perm env) orders (Some (se_NewSource env 42)) (node # rest) (gs_ID node) 3 (round64 (9 / 10)) 20"
  obtain res e where run: "?run = (res, e)" by fastforce
  have "peersMap (node # rest) (gs_ID node) \<noteq> None" using peersMap_dom [of "node # rest"] by auto
  then have e: "e = None \<or> e = Some TargetNotReached"
    using run target_ratio by (auto simp: SimulatePropagation_def Let_def dest!: simSteps_error)
  have "Steps res \<le> 20" "1 \<le> Steps res" using SimulatePropagation_bounds [OF assms(1) run e] by auto
  then show ?thesis using assms(2) e by (auto simp: runGossipSimulation_def NewSimulator_def Cons run Let_def split: if_splits)
qed (use assms(2) in \<open>simp add: runGossipSimulation_def\<close>)

text \<open>
  The program as a whole: when no name hashes to zero and two of them hash differently, it ends normally or because
  the gossip simulation did not reach its target.
\<close>

lemma dhtsim_main_outcome:
  assumes "\<And>k. distinct (iters k)" and "\<And>k. set (iters k) = (\<lambda>k. KeyToID (nodeName k)) ` {0..<sim_peerCount}"
    and "zeroID \<notin> set (iters 0)" and "2 \<le> card (set (iters 0))"
    and "\<And>s. between 0 (snd (se_Float64 env s)) 1" and "\<And>s. \<exists>r. snd (se_NormFloat64 env s) = Fin r" and "math_ok (se_math env)"
    and "draws_perm (se_Perm env)"
    and codec: "\<And>now addr. \<exists>p. se_Marshal env (nodeReading env now addr) = Inr p \<and> se_Unmarshal env p = Inr (nodeReading env now addr)"
  shows "dhtsim_main env (\<lambda>_. None) order order' seen clock iters orders \<in> {Some None, Some (Some (PropagationFailed TargetNotReached))}"
proof -
  have cnt: "sim_peerCount \<le> 20" by (simp add: sim_peerCount_def)
  obtain net where net: "buildNetwork seen (iters 0) sim_peerCount = Some net" "dom (nodes net) = set (iters 0)"
    and node: "\<And>i n. nodes net i = Some n \<Longrightarrow> rt_ok (dn_rt n) \<and> ID (dn_peer n) = i \<and> KeyToID (Addr (dn_peer n)) = i \<and>
       set (ids (allPeers (dn_rt n))) = set (iters 0) - {i, zeroID}"
    using buildNetwork_tables [OF cnt assms(1,2) [of 0], of seen] by blast
  have iters: "set (iters k) = dom (nodes net)" for k using assms(2) net(2) by metis
  have "card (dom (nodes net)) \<le> 20"
    unfolding net(2) assms(2) using card_image_le [of "{0..<sim_peerCount}" "\<lambda>k. KeyToID (nodeName k)"] cnt by simp
  moreover have "wf_id i" if "nodes net i = Some n" for i n using domI [of "nodes net", OF that] by (auto simp: net(2) assms(2))
  moreover have "set (iters 0) - {i, zeroID} = set (iters 0) - {i}" for i using assms(3) by blast
  ultimately have complete: "complete net" unfolding complete_def net(2) using node assms(3) by simp
  have "KeyToID (addr_of net i) = i" if "i \<in> dom (nodes net)" for i using domD [OF that] node addr_of_node by metis
  then have "inj_on (addr_of net) (dom (nodes net))" by (rule inj_on_inverseI)
  then have "\<exists>net' avg matched. publishSensorReadings env (\<lambda>_. None) order clock (iters 1) net = (net', None) \<and> node_view net' = node_view net \<and>
    verifySensorQueries env (\<lambda>_. None) order' (iters 2) (iters 3) net' = Inr (map (\<lambda>i. nodeReading env (clock i) (addr_of net i)) (iters 3)) \<and>
    runRegionQuery env (map (\<lambda>i. nodeReading env (clock i) (addr_of net i)) (iters 3)) = Inr (avg, int (length matched), matched) \<and>
    matched \<noteq> [] \<and> between (- 10) avg 45"
    by (intro flow_complete [OF complete _ _ assms(1) iters iters assms(1) iters assms(5-7) codec]) (simp add: net(2) assms(4))
  then obtain net' readings region where run: "publishSensorReadings env (\<lambda>_. None) order clock (iters 1) net = (net', None)"
    "node_view net' = node_view net" "verifySensorQueries env (\<lambda>_. None) order' (iters 2) (iters 3) net' = Inr readings"
    "runRegionQuery env readings = Inr region"
    by blast
  have "gossipNodes net' (iters 4) \<noteq> []"
  proof
    assume none: "gossipNodes net' (iters 4) = []"
    obtain i where i: "i \<in> set (iters 4)" using assms(4) unfolding iters [of 4] net(2) by (cases "iters 0") auto
    then have "nodes net' i \<noteq> None" using node_view_dom [OF run(2)] unfolding iters by blast
    then show False using none i by (auto simp: gossipNodes_def Let_def)
  qed
  then show ?thesis
    using gossip_in_time [OF assms(8), of orders "iters 4" net']
    by (cases "runGossipSimulation env orders (iters 4) net'") (simp_all add: dhtsim_main_def net(1) run(1,3,4) del: One_nat_def)
qed

end
