(* ===== verification/RaftNode.thy ===== *)
theory RaftNode
  imports Prelude
begin

text \<open>
  A coordinator of the Raft group: the messages of \<^verbatim>\<open>pkg/raft/types.go\<close> and the node of
  \<^verbatim>\<open>pkg/raft/node.go\<close>. Terms and log indices are 64-bit words, a log position out of range is
  a panic and ends in \<^term>\<open>None\<close>. Every operation is the code between taking and releasing the
  node's lock, in one piece; an operation that works in several such pieces has one definition
  for each. The time and the random offset of the election timer are arguments.
\<close>

section \<open>The Raft node\<close>

datatype State = StateFollower | StateCandidate | StateLeader

datatype raft_error =
    ErrInvalidConfig
  | ErrNilTransport
  | ErrInvalidTimeout
  | ErrNotLeader
  | ErrReplicationFailed
  | ErrUnknownTarget string
  | ErrCancelled

record LogEntry =
  le_Term :: u64
  le_Command :: string

record RequestVoteRequest =
  rvq_Term :: u64
  rvq_CandidateID :: string
  rvq_LastLogIndex :: u64
  rvq_LastLogTerm :: u64

record RequestVoteResponse =
  rvp_Term :: u64
  rvp_VoteGranted :: bool

record AppendEntriesRequest =
  aeq_Term :: u64
  aeq_LeaderID :: string
  aeq_PrevLogIndex :: u64
  aeq_PrevLogTerm :: u64
  aeq_Entries :: "LogEntry list"
  aeq_LeaderCommit :: u64

record AppendEntriesResponse =
  aep_Term :: u64
  aep_Success :: bool

record Config =
  cfg_ID :: string
  cfg_Peers :: "string list"
  cfg_hasTransport :: bool
  cfg_ElectionTimeoutMin :: int
  cfg_ElectionTimeoutMax :: int
  cfg_HeartbeatInterval :: int
  cfg_RPCTimeout :: int
  cfg_hasApplyFunc :: bool

record Node =
  node_id :: string
  peers_of :: "string list"
  currentTerm :: u64
  votedFor :: string
  leaderID :: string
  state :: State
  node_log :: "LogEntry list"
  commitIndex :: u64
  lastApplied :: u64
  lastHeartbeat :: int
  hasApplyFn :: bool
  electionMin :: int
  electionMax :: int
  heartbeat :: int
  rpcTimeout :: int
  electionTimer :: "int option"

subsection \<open>Construction and timers\<close>

definition raft_NewNode :: "Config \<Rightarrow> raft_error + Node" where
  "raft_NewNode cfg =
     (if cfg_ID cfg = '''' then Inl ErrInvalidConfig
      else if \<not> cfg_hasTransport cfg then Inl ErrNilTransport
      else if cfg_ElectionTimeoutMin cfg \<le> 0 \<or> cfg_ElectionTimeoutMax cfg \<le> 0 \<or>
              cfg_HeartbeatInterval cfg \<le> 0 then Inl ErrInvalidTimeout
      else if cfg_ElectionTimeoutMax cfg < cfg_ElectionTimeoutMin cfg then Inl ErrInvalidTimeout
      else
        let timeout = (if cfg_RPCTimeout cfg \<le> 0 then 250000000 else cfg_RPCTimeout cfg)
        in Inr \<lparr>node_id = cfg_ID cfg, peers_of = cfg_Peers cfg, currentTerm = 0, votedFor = '''',
             leaderID = '''', state = StateFollower, node_log = [], commitIndex = 0, lastApplied = 0,
             lastHeartbeat = 0, hasApplyFn = cfg_hasApplyFunc cfg,
             electionMin = cfg_ElectionTimeoutMin cfg, electionMax = cfg_ElectionTimeoutMax cfg,
             heartbeat = cfg_HeartbeatInterval cfg, rpcTimeout = timeout, electionTimer = None\<rparr>)"

text \<open>The argument \<open>offset\<close> is what \<^verbatim>\<open>rng.Int63n(delta)\<close> returns.\<close>

definition nextElectionTimeout :: "int \<Rightarrow> Node \<Rightarrow> int" where
  "nextElectionTimeout offset n =
     (if electionMin n = electionMax n then electionMin n else electionMin n + offset)"

definition resetElectionTimer :: "int \<Rightarrow> Node \<Rightarrow> Node" where
  "resetElectionTimer offset n = n\<lparr>electionTimer := Some (nextElectionTimeout offset n)\<rparr>"

definition stopElectionTimer :: "Node \<Rightarrow> Node" where
  "stopElectionTimer n =
     (case electionTimer n of None \<Rightarrow> n | Some _ \<Rightarrow> n\<lparr>electionTimer := None\<rparr>)"

subsection \<open>The log\<close>

definition lastLogIndex :: "Node \<Rightarrow> u64" where
  "lastLogIndex n = word_of_nat (length (node_log n))"

definition lastLogTerm :: "Node \<Rightarrow> u64" where
  "lastLogTerm n =
     (if length (node_log n) = 0 then 0 else le_Term (node_log n ! (length (node_log n) - 1)))"

definition isLogUpToDate :: "Node \<Rightarrow> u64 \<Rightarrow> u64 \<Rightarrow> bool" where
  "isLogUpToDate n candidateIndex candidateTerm =
     (let localTerm = lastLogTerm n
      in if candidateTerm \<noteq> localTerm then candidateTerm > localTerm
         else candidateIndex \<ge> lastLogIndex n)"

definition matchPrevLog :: "Node \<Rightarrow> u64 \<Rightarrow> u64 \<Rightarrow> bool" where
  "matchPrevLog n prevIndex prevTerm =
     (if prevIndex = 0 then True
      else if prevIndex > word_of_nat (length (node_log n)) then False
      else le_Term (node_log n ! unat (prevIndex - 1)) = prevTerm)"

fun appendEntries_from :: "LogEntry list \<Rightarrow> u64 \<Rightarrow> int \<Rightarrow> LogEntry list \<Rightarrow> LogEntry list option" where
  "appendEntries_from lg prevIndex i [] = Some lg"
| "appendEntries_from lg prevIndex i (entry # es) =
     (let index = wrap64 (sint prevIndex + i)
      in if index < int (length lg) then
           (if index < 0 then None
            else if le_Term (lg ! nat index) \<noteq> le_Term entry
            then appendEntries_from (take (nat index) lg @ [entry]) prevIndex (i + 1) es
            else appendEntries_from lg prevIndex (i + 1) es)
         else appendEntries_from (lg @ [entry]) prevIndex (i + 1) es)"

definition appendEntries :: "Node \<Rightarrow> u64 \<Rightarrow> LogEntry list \<Rightarrow> Node option" where
  "appendEntries n prevIndex es =
     (case appendEntries_from (node_log n) prevIndex 0 es of
        None \<Rightarrow> None
      | Some lg \<Rightarrow> Some (n\<lparr>node_log := lg\<rparr>))"

function collect_from :: "LogEntry list \<Rightarrow> u64 \<Rightarrow> u64 \<Rightarrow> LogEntry list \<Rightarrow> (LogEntry list \<times> u64) option" where
  "collect_from lg applied commit es =
     (if applied < commit then
        (if unat applied < length lg
         then collect_from lg (applied + 1) commit (es @ [lg ! unat applied])
         else None)
      else Some (es, applied))"
  by auto
termination
proof (relation "measure (\<lambda>(lg, applied, commit, es). unat commit - unat applied)")
  fix lg es and applied commit :: u64
  assume "applied < commit"
  then show "((lg, applied + 1, commit, es @ [lg ! unat applied]), lg, applied, commit, es) \<in>
      measure (\<lambda>(lg, applied, commit, es). unat commit - unat applied)"
    using unat_plus1_less [of applied commit] by (simp add: word_less_nat_alt)
qed simp

declare collect_from.simps [simp del]

definition collectCommittedLocked :: "Node \<Rightarrow> (Node \<times> LogEntry list) option" where
  "collectCommittedLocked n =
     (if lastApplied n \<ge> commitIndex n then Some (n, [])
      else
        case collect_from (node_log n) (lastApplied n) (commitIndex n) [] of
          None \<Rightarrow> None
        | Some (es, applied) \<Rightarrow> Some (n\<lparr>lastApplied := applied\<rparr>, es))"

text \<open>The entries that are handed to the apply function, in order.\<close>

definition applyEntries :: "Node \<Rightarrow> LogEntry list \<Rightarrow> LogEntry list" where
  "applyEntries n es = (if \<not> hasApplyFn n \<or> length es = 0 then [] else es)"

definition quorum :: "Node \<Rightarrow> int" where
  "quorum n = (int (length (peers_of n)) + 1) div 2 + 1"

definition stepDownLocked :: "Node \<Rightarrow> u64 \<Rightarrow> string \<Rightarrow> Node" where
  "stepDownLocked n trm lid =
     (let n = (if trm > currentTerm n then n\<lparr>currentTerm := trm\<rparr> else n)
      in n\<lparr>votedFor := '''', state := StateFollower, leaderID := lid\<rparr>)"

subsection \<open>The handlers\<close>

definition HandleRequestVote :: "int \<Rightarrow> Node \<Rightarrow> RequestVoteRequest \<Rightarrow> Node \<times> RequestVoteResponse" where
  "HandleRequestVote offset n req =
     (if rvq_Term req < currentTerm n
      then (n, \<lparr>rvp_Term = currentTerm n, rvp_VoteGranted = False\<rparr>)
      else
        let n = (if rvq_Term req > currentTerm n then stepDownLocked n (rvq_Term req) '''' else n)
        in if \<not> isLogUpToDate n (rvq_LastLogIndex req) (rvq_LastLogTerm req)
           then (n, \<lparr>rvp_Term = currentTerm n, rvp_VoteGranted = False\<rparr>)
           else
             let grant = (votedFor n = '''' \<or> votedFor n = rvq_CandidateID req);
                 n = (if grant then n\<lparr>votedFor := rvq_CandidateID req\<rparr> else n);
                 n = (if grant then resetElectionTimer offset n else n)
             in (n, \<lparr>rvp_Term = currentTerm n, rvp_VoteGranted = grant\<rparr>))"

text \<open>The third component is the list of entries to apply after the lock is released.\<close>

definition HandleAppendEntries :: "int \<Rightarrow> int \<Rightarrow> Node \<Rightarrow> AppendEntriesRequest \<Rightarrow>
    (Node \<times> AppendEntriesResponse \<times> LogEntry list) option" where
  "HandleAppendEntries now offset n req =
     (if aeq_Term req < currentTerm n
      then Some (n, \<lparr>aep_Term = currentTerm n, aep_Success = False\<rparr>, [])
      else
        let n = (if aeq_Term req > currentTerm n then stepDownLocked n (aeq_Term req) (aeq_LeaderID req) else n)
        in if 0 < length (aeq_Entries req) \<and> \<not> matchPrevLog n (aeq_PrevLogIndex req) (aeq_PrevLogTerm req)
           then Some (n, \<lparr>aep_Term = currentTerm n, aep_Success = False\<rparr>, [])
           else
             case (if 0 < length (aeq_Entries req)
                   then appendEntries n (aeq_PrevLogIndex req) (aeq_Entries req) else Some n) of
               None \<Rightarrow> None
             | Some n \<Rightarrow>
                 let n = (if aeq_LeaderCommit req > commitIndex n then
                            let lastIndex = lastLogIndex n
                            in if aeq_LeaderCommit req < lastIndex
                               then n\<lparr>commitIndex := aeq_LeaderCommit req\<rparr>
                               else n\<lparr>commitIndex := lastIndex\<rparr>
                          else n);
                     n = n\<lparr>lastHeartbeat := now\<rparr>
                 in case collectCommittedLocked n of
                      None \<Rightarrow> None
                    | Some (n, es) \<Rightarrow>
                        let n = n\<lparr>state := StateFollower, leaderID := aeq_LeaderID req\<rparr>;
                            n = resetElectionTimer offset n
                        in Some (n, \<lparr>aep_Term = currentTerm n, aep_Success = True\<rparr>, es))"

subsection \<open>Elections\<close>

text \<open>\<^verbatim>\<open>onElectionTimeout\<close> and the first locked section of \<^verbatim>\<open>startElection\<close>.\<close>

definition onElectionTimeout :: "Node \<Rightarrow> bool" where
  "onElectionTimeout n = (state n \<noteq> StateLeader)"

definition startElection :: "int \<Rightarrow> Node \<Rightarrow> Node \<times> u64" where
  "startElection offset n =
     (let n = n\<lparr>state := StateCandidate, currentTerm := currentTerm n + 1\<rparr>;
          trm = currentTerm n;
          n = n\<lparr>votedFor := node_id n, leaderID := ''''\<rparr>
      in (resetElectionTimer offset n, trm))"

definition voteRequest :: "Node \<Rightarrow> u64 \<Rightarrow> u64 \<Rightarrow> u64 \<Rightarrow> RequestVoteRequest" where
  "voteRequest n trm index lastTerm =
     \<lparr>rvq_Term = trm, rvq_CandidateID = node_id n, rvq_LastLogIndex = index, rvq_LastLogTerm = lastTerm\<rparr>"

text \<open>
  One response of the counting loop of an election for \<open>trm\<close> with \<open>votes\<close> so far: the election is
  abandoned, goes on with a new count, or is won.
\<close>

datatype ballot = Abandoned | Counting int | Won

definition onVoteResponse :: "int \<Rightarrow> Node \<Rightarrow> u64 \<Rightarrow> int \<Rightarrow> RequestVoteResponse \<Rightarrow> Node \<times> ballot" where
  "onVoteResponse offset n trm votes resp =
     (if rvp_Term resp > currentTerm n
      then (resetElectionTimer offset (stepDownLocked n (rvp_Term resp) ''''), Abandoned)
      else if state n \<noteq> StateCandidate \<or> currentTerm n \<noteq> trm then (n, Abandoned)
      else if rvp_VoteGranted resp then
        (let votes = votes + 1 in if votes \<ge> quorum n then (n, Won) else (n, Counting votes))
      else (n, Counting votes))"

definition becomeLeader :: "Node \<Rightarrow> Node" where
  "becomeLeader n =
     (if state n \<noteq> StateCandidate then n
      else if leaderID n = node_id n then n
      else n\<lparr>state := StateLeader, leaderID := node_id n\<rparr>)"

subsection \<open>Heartbeats\<close>

text \<open>The locked section; the result is the term that the heartbeats are sent with, if any.\<close>

definition sendHeartbeats :: "int \<Rightarrow> Node \<Rightarrow> Node \<times> u64 option" where
  "sendHeartbeats now n =
     (if state n \<noteq> StateLeader then (n, None)
      else (n\<lparr>lastHeartbeat := now\<rparr>, Some (currentTerm n)))"

definition heartbeatRequest :: "Node \<Rightarrow> u64 \<Rightarrow> u64 \<Rightarrow> u64 \<Rightarrow> u64 \<Rightarrow> AppendEntriesRequest" where
  "heartbeatRequest n trm index lastTerm commit =
     \<lparr>aeq_Term = trm, aeq_LeaderID = node_id n, aeq_PrevLogIndex = index, aeq_PrevLogTerm = lastTerm,
      aeq_Entries = [], aeq_LeaderCommit = commit\<rparr>"

definition onHeartbeatResponse :: "int \<Rightarrow> Node \<Rightarrow> u64 \<Rightarrow> AppendEntriesResponse \<Rightarrow> Node" where
  "onHeartbeatResponse offset n trm resp =
     (if aep_Term resp > trm then
        let n = (if aep_Term resp > currentTerm n then stepDownLocked n (aep_Term resp) '''' else n)
        in resetElectionTimer offset n
      else n)"

subsection \<open>Proposals\<close>

record Proposal =
  pr_prevIndex :: u64
  pr_prevTerm :: u64
  pr_entry :: LogEntry
  pr_newIndex :: u64

definition Propose :: "Node \<Rightarrow> string \<Rightarrow> raft_error + Node \<times> Proposal" where
  "Propose n command =
     (if state n \<noteq> StateLeader then Inl ErrNotLeader
      else
        let prevIndex = lastLogIndex n;
            prevTerm = lastLogTerm n;
            entry = \<lparr>le_Term = currentTerm n, le_Command = command\<rparr>;
            n = n\<lparr>node_log := node_log n @ [entry]\<rparr>;
            newIndex = lastLogIndex n
        in Inr (n, \<lparr>pr_prevIndex = prevIndex, pr_prevTerm = prevTerm, pr_entry = entry, pr_newIndex = newIndex\<rparr>))"

definition proposalRequest :: "Node \<Rightarrow> Proposal \<Rightarrow> u64 \<Rightarrow> AppendEntriesRequest" where
  "proposalRequest n pr commit =
     \<lparr>aeq_Term = le_Term (pr_entry pr), aeq_LeaderID = node_id n, aeq_PrevLogIndex = pr_prevIndex pr,
      aeq_PrevLogTerm = pr_prevTerm pr, aeq_Entries = [pr_entry pr], aeq_LeaderCommit = commit\<rparr>"

text \<open>
  One response of the counting loop of a proposal with \<open>acks\<close> so far. The proposal ends with an
  error, goes on with a new count, or is committed, with the entries to apply.
\<close>

datatype tally = Refused raft_error | Pending int | Committed "LogEntry list"

definition onAppendResponse :: "Node \<Rightarrow> Proposal \<Rightarrow> int \<Rightarrow> AppendEntriesResponse \<Rightarrow> (Node \<times> tally) option" where
  "onAppendResponse n pr acks resp =
     (if aep_Term resp > le_Term (pr_entry pr) then
        let n = (if aep_Term resp > currentTerm n then stepDownLocked n (aep_Term resp) '''' else n)
        in Some (n, Refused ErrNotLeader)
      else if aep_Success resp then
        (let acks = acks + 1
         in if acks \<ge> quorum n then
              (if commitIndex n < pr_newIndex pr then
                 (case collectCommittedLocked (n\<lparr>commitIndex := pr_newIndex pr\<rparr>) of
                    None \<Rightarrow> None
                  | Some (n, es) \<Rightarrow> Some (n, Committed es))
               else Some (n, Committed []))
            else Some (n, Pending acks))
      else Some (n, Pending acks))"

subsection \<open>Log operations\<close>

lemma collect_from_eq:
  assumes "unat commit \<le> length lg"
  shows "collect_from lg applied commit es =
    Some (es @ drop (unat applied) (take (unat commit) lg), if applied < commit then commit else applied)"
  using assms
proof (induction lg applied commit es rule: collect_from.induct)
  case (1 lg applied commit es)
  show ?case
  proof (cases "applied < commit")
    case True
    then have lt: "unat applied < unat commit" by (simp add: word_less_nat_alt)
    have suc: "unat (applied + 1) = Suc (unat applied)" using True by (rule unat_plus1_less)
    have "drop (unat applied) (take (unat commit) lg) = lg ! unat applied # drop (Suc (unat applied)) (take (unat commit) lg)"
      using lt "1.prems" by (subst Cons_nth_drop_Suc [symmetric]) simp_all
    moreover have "(if applied + 1 < commit then commit else applied + 1) = commit"
    proof (cases "applied + 1 < commit")
      case False
      then have "unat (applied + 1) = unat commit" using lt suc by (simp add: word_less_nat_alt)
      then show ?thesis using False by (simp add: word_unat_eq_iff)
    qed simp
    ultimately show ?thesis
      using True lt "1.prems" "1.IH" suc by (subst collect_from.simps) simp
  next
    case False
    then have "unat commit \<le> unat applied" by (simp add: word_less_nat_alt)
    then show ?thesis using False by (subst collect_from.simps) simp
  qed
qed

lemma collectCommitted_eq:
  assumes "commitIndex n \<le> lastApplied n \<or> unat (commitIndex n) \<le> length (node_log n)"
  shows "collectCommittedLocked n =
    Some (n\<lparr>lastApplied := max (lastApplied n) (commitIndex n)\<rparr>,
      drop (unat (lastApplied n)) (take (unat (commitIndex n)) (node_log n)))"
proof (cases "commitIndex n \<le> lastApplied n")
  case True
  then have "unat (commitIndex n) \<le> unat (lastApplied n)" by (simp add: word_le_nat_alt)
  then show ?thesis using True by (simp add: collectCommittedLocked_def max_def)
next
  case False
  then show ?thesis
    using assms by (auto simp: collectCommittedLocked_def collect_from_eq max_def not_le)
qed

lemma collect_from_panics:
  assumes "applied < commit" and "length lg < unat commit"
  shows "collect_from lg applied commit es = None"
  using assms
proof (induction lg applied commit es rule: collect_from.induct)
  case (1 lg applied commit es)
  show ?case
  proof (cases "unat applied < length lg")
    case True
    have "unat (applied + 1) = Suc (unat applied)" using "1.prems"(1) by (rule unat_plus1_less)
    then have "applied + 1 < commit" using True "1.prems"(2) by (simp add: word_less_nat_alt)
    then show ?thesis using "1.IH" [OF "1.prems"(1) True _ "1.prems"(2)] True "1.prems"(1) by (subst collect_from.simps) simp
  qed (use "1.prems"(1) in \<open>subst collect_from.simps, simp\<close>)
qed

lemma collectCommitted_None:
  "collectCommittedLocked n = None \<longleftrightarrow> lastApplied n < commitIndex n \<and> length (node_log n) < unat (commitIndex n)"
proof (cases "commitIndex n \<le> lastApplied n \<or> unat (commitIndex n) \<le> length (node_log n)")
  case False
  then show ?thesis by (simp add: collectCommittedLocked_def collect_from_panics not_le)
qed (auto simp: collectCommitted_eq)

lemma drop_take_append: "drop a (take b xs) @ drop (max a b) (take c xs) = drop a (take (max b c) xs)" for a b c :: nat
proof (cases "a \<le> b \<and> b \<le> c")
  case True
  have "drop a (take b xs) = take (b - a) (drop a (take c xs))" "drop b (take c xs) = drop (b - a) (drop a (take c xs))"
    using True diff_le_mono [of b c a] by (simp_all add: drop_take min_absorb1)
  then have "drop a (take b xs) @ drop b (take c xs) = drop a (take c xs)" by (simp only: append_take_drop_id)
  then show ?thesis using True by (simp add: max_def)
qed (auto simp: max_def)

text \<open>
  C34: collecting the entries to apply, on an arbitrary node. It panics if and only if the commit index is above both the last
  applied index and the length of the log. Otherwise a second collection is empty; and when the commit index changes in between,
  in either direction, the entries of the first collection followed by those of the second are those of
  the log from the last applied one up to the larger of the two commit indices, in order, none left out and none twice.
\<close>

theorem collectCommitted_once:
  "(collectCommittedLocked n = None \<longleftrightarrow> lastApplied n < commitIndex n \<and> length (node_log n) < unat (commitIndex n)) \<and>
   (\<forall>n' es. collectCommittedLocked n = Some (n', es) \<longrightarrow>
      collectCommittedLocked n' = Some (n', []) \<and>
      (\<forall>c n'' es'. collectCommittedLocked (n'\<lparr>commitIndex := c\<rparr>) = Some (n'', es') \<longrightarrow>
         es @ es' = drop (unat (lastApplied n)) (take (unat (max (commitIndex n) c)) (node_log n)) \<and>
         n'' = n\<lparr>commitIndex := c, lastApplied := max (lastApplied n) (max (commitIndex n) c)\<rparr>))"
proof (intro conjI allI impI)
  fix n' es assume "collectCommittedLocked n = Some (n', es)"
  then have n': "n' = n\<lparr>lastApplied := max (lastApplied n) (commitIndex n)\<rparr>"
    and es: "es = drop (unat (lastApplied n)) (take (unat (commitIndex n)) (node_log n))"
    using collectCommitted_None [of n] collectCommitted_eq [of n] by (auto simp: not_less)
  show "collectCommittedLocked n' = Some (n', [])" by (simp add: n' collectCommittedLocked_def)
  fix c n'' es' assume "collectCommittedLocked (n'\<lparr>commitIndex := c\<rparr>) = Some (n'', es')"
  then have run: "n'' = n'\<lparr>commitIndex := c, lastApplied := max (lastApplied n') c\<rparr>" "es' = drop (unat (lastApplied n')) (take (unat c) (node_log n'))"
    using collectCommitted_None [of "n'\<lparr>commitIndex := c\<rparr>"] collectCommitted_eq [of "n'\<lparr>commitIndex := c\<rparr>"] by (auto simp: not_less)
  show "n'' = n\<lparr>commitIndex := c, lastApplied := max (lastApplied n) (max (commitIndex n) c)\<rparr>" by (simp add: run n' max.assoc)
  have unat_max: "unat (max a b) = max (unat a) (unat b)" for a b :: u64 by (simp add: max_def word_le_nat_alt)
  show "es @ es' = drop (unat (lastApplied n)) (take (unat (max (commitIndex n) c)) (node_log n))"
    unfolding es run n' using drop_take_append [of "unat (lastApplied n)" "unat (commitIndex n)" "node_log n" "unat c"] by (simp add: unat_max)
qed (rule collectCommitted_None)

lemma sint_small: "unat (x :: u64) < 2 ^ 63 \<Longrightarrow> sint x = int (unat x)"
proof -
  assume "unat x < 2 ^ 63"
  moreover have "int (unat x) = uint x" by simp
  ultimately have "uint x < 2 ^ 63" by (metis of_nat_less_iff of_nat_numeral of_nat_power)
  moreover have "- (2 ^ 63) \<le> uint x" by (rule order_trans [of _ 0]) simp_all
  ultimately have "signed_take_bit 63 (uint x) = uint x" by (intro signed_take_bit_int_eq_self)
  then show ?thesis by (simp add: sint_uint)
qed

lemma wrap64_nat: "n < 2 ^ 63 \<Longrightarrow> wrap64 (int n) = int n"
  by (rule wrap64_id) simp

text \<open>The reference for appending: keep the prefix, overwrite from the first conflicting term on.\<close>

fun overwrite :: "LogEntry list \<Rightarrow> nat \<Rightarrow> LogEntry list \<Rightarrow> LogEntry list" where
  "overwrite lg i [] = lg"
| "overwrite lg i (e # es) =
     (if i < length lg \<and> le_Term (lg ! i) = le_Term e then overwrite lg (Suc i) es
      else take i lg @ e # es)"

lemma overwrite_end: "overwrite lg (length lg) es = lg @ es"
  by (cases es) simp_all

lemma appendEntries_from_eq:
  assumes "unat prev < 2 ^ 63"
  shows "unat prev + i \<le> length lg \<Longrightarrow> length lg + length es < 2 ^ 63 \<Longrightarrow>
    appendEntries_from lg prev (int i) es = Some (overwrite lg (unat prev + i) es)"
proof (induction es arbitrary: lg i)
  case (Cons e es)
  let ?j = "unat prev + i"
  have "sint prev + int i = int ?j" using sint_small [OF assms] by linarith
  then have index: "wrap64 (sint prev + int i) = int ?j" using wrap64_nat [of ?j] Cons.prems by presburger
  have rest: "appendEntries_from lg' prev (int i + 1) es = Some (overwrite lg' (Suc ?j) es)"
    if "Suc ?j \<le> length lg'" "length lg' + length es < 2 ^ 63" for lg'
    using Cons.IH [of "Suc i" lg'] that by (simp add: add.commute)
  show ?case
  proof (cases "?j < length lg \<and> le_Term (lg ! ?j) = le_Term e")
    case True
    then show ?thesis using index rest [of lg] Cons.prems by (simp add: Let_def nat_int_add del: of_nat_add)
  next
    case False
    let ?lg = "take ?j lg @ [e]"
    have len: "length ?lg = Suc ?j" using Cons.prems by simp
    have "appendEntries_from ?lg prev (int i + 1) es = Some (overwrite ?lg (length ?lg) es)"
      using rest [of ?lg] Cons.prems unfolding len by simp
    then have "appendEntries_from ?lg prev (int i + 1) es = Some (take ?j lg @ e # es)"
      unfolding overwrite_end by simp
    moreover have "?lg = lg @ [e]" if "\<not> ?j < length lg" using that Cons.prems by simp
    ultimately show ?thesis
      using index False Cons.prems by (cases "?j < length lg") (simp_all add: Let_def nat_int_add del: of_nat_add)
  qed
qed simp

lemma overwrite_props:
  assumes "i \<le> length lg"
  shows "take i (overwrite lg i es) = take i lg"
    and "i + length es \<le> length (overwrite lg i es)"
    and "\<forall>j < length es. le_Term (overwrite lg i es ! (i + j)) = le_Term (es ! j)"
    and "length (overwrite lg i es) \<le> max (length lg) (i + length es)"
  using assms
proof (induction es arbitrary: i)
  case (Cons e es)
  { case 1
    show ?case
    proof (cases "i < length lg \<and> le_Term (lg ! i) = le_Term e")
      case True
      have "take (Suc i) (overwrite lg (Suc i) es) = take (Suc i) lg"
        by (rule Cons.IH(1)) (use True in simp)
      then have "take i (take (Suc i) (overwrite lg (Suc i) es)) = take i (take (Suc i) lg)" by simp
      then show ?thesis using True by simp
    qed (use 1 in auto) }
  { case 2 then show ?case using Cons.IH(2) [of "Suc i"] by auto }
  { case 3
    show ?case
    proof (cases "i < length lg \<and> le_Term (lg ! i) = le_Term e")
      case True
      have "take (Suc i) (overwrite lg (Suc i) es) ! i = take (Suc i) lg ! i" using Cons.IH(1) [of "Suc i"] True by simp
      then have "le_Term (overwrite lg (Suc i) es ! i) = le_Term e" using True by simp
      then show ?thesis
        using Cons.IH(3) [of "Suc i"] True by (auto simp: less_Suc_eq_0_disj)
    qed (use 3 in \<open>auto simp: nth_append\<close>) }
  { case 4 then show ?case using Cons.IH(4) [of "Suc i"] by auto }
qed auto

subsection \<open>The handlers\<close>

lemma stepDown_simps [simp]:
  "currentTerm (stepDownLocked n t l) = max (currentTerm n) t"
  "votedFor (stepDownLocked n t l) = ''''"
  "state (stepDownLocked n t l) = StateFollower"
  "leaderID (stepDownLocked n t l) = l"
  "node_log (stepDownLocked n t l) = node_log n"
  "commitIndex (stepDownLocked n t l) = commitIndex n"
  "lastApplied (stepDownLocked n t l) = lastApplied n"
  "node_id (stepDownLocked n t l) = node_id n"
  "peers_of (stepDownLocked n t l) = peers_of n"
  by (auto simp: stepDownLocked_def Let_def max_def)

lemma resetElectionTimer_simps [simp]:
  "currentTerm (resetElectionTimer c n) = currentTerm n"
  "votedFor (resetElectionTimer c n) = votedFor n"
  "state (resetElectionTimer c n) = state n"
  "leaderID (resetElectionTimer c n) = leaderID n"
  "node_log (resetElectionTimer c n) = node_log n"
  "commitIndex (resetElectionTimer c n) = commitIndex n"
  "lastApplied (resetElectionTimer c n) = lastApplied n"
  "node_id (resetElectionTimer c n) = node_id n"
  "peers_of (resetElectionTimer c n) = peers_of n"
  by (simp_all add: resetElectionTimer_def)

lemma isLogUpToDate_cong:
  "node_log n = node_log n' \<Longrightarrow> isLogUpToDate n i t = isLogUpToDate n' i t"
  by (simp add: isLogUpToDate_def lastLogTerm_def lastLogIndex_def)

lemma matchPrevLog_cong:
  "node_log n = node_log n' \<Longrightarrow> matchPrevLog n i t = matchPrevLog n' i t"
  by (simp add: matchPrevLog_def)

lemma isLogUpToDate_stepDown [simp]: "isLogUpToDate (stepDownLocked n t l) = isLogUpToDate n"
  by (intro ext isLogUpToDate_cong) simp

lemma matchPrevLog_stepDown [simp]: "matchPrevLog (stepDownLocked n t l) = matchPrevLog n"
  by (intro ext matchPrevLog_cong) simp

lemma isLogUpToDate_lex:
  "isLogUpToDate n i t \<longleftrightarrow> lastLogTerm n < t \<or> lastLogTerm n = t \<and> lastLogIndex n \<le> i"
  by (auto simp: isLogUpToDate_def Let_def)

lemma HandleRequestVote_cases:
  assumes "HandleRequestVote c n req = (n', resp)"
  shows "currentTerm n' = max (currentTerm n) (rvq_Term req)"
    and "rvp_Term resp = currentTerm n'"
    and "rvp_VoteGranted resp \<longleftrightarrow> currentTerm n \<le> rvq_Term req \<and>
      isLogUpToDate n (rvq_LastLogIndex req) (rvq_LastLogTerm req) \<and>
      (currentTerm n < rvq_Term req \<or> votedFor n = '''' \<or> votedFor n = rvq_CandidateID req)"
    and "votedFor n' = (if rvp_VoteGranted resp then rvq_CandidateID req
      else if currentTerm n < rvq_Term req then '''' else votedFor n)"
    and "state n' = (if currentTerm n < rvq_Term req then StateFollower else state n)"
    and "node_log n' = node_log n" and "commitIndex n' = commitIndex n" and "lastApplied n' = lastApplied n"
    and "node_id n' = node_id n" and "peers_of n' = peers_of n"
  using assms
  by (auto simp: HandleRequestVote_def Let_def max_def not_less split: if_splits)

text \<open>
  C18: the vote of a node. A vote is granted iff the request's term is not older, the candidate's
  log is at least as up to date (a later last term, or the same and a log that is not shorter), and the node has not voted for another candidate in that term; the
  node then records the vote. Within a term a vote that was cast never changes, terms never
  decrease, and the response carries the node's term.
\<close>

theorem HandleRequestVote_correct:
  assumes "HandleRequestVote offset n req = (n', resp)"
  shows "currentTerm n' = max (currentTerm n) (rvq_Term req) \<and> rvp_Term resp = currentTerm n' \<and>
    (rvp_VoteGranted resp \<longleftrightarrow> currentTerm n \<le> rvq_Term req \<and>
       (lastLogTerm n < rvq_LastLogTerm req \<or>
        lastLogTerm n = rvq_LastLogTerm req \<and> lastLogIndex n \<le> rvq_LastLogIndex req) \<and>
       (currentTerm n < rvq_Term req \<or> votedFor n = '''' \<or> votedFor n = rvq_CandidateID req)) \<and>
    (rvp_VoteGranted resp \<longrightarrow> votedFor n' = rvq_CandidateID req) \<and>
    (currentTerm n' = currentTerm n \<and> votedFor n \<noteq> '''' \<longrightarrow> votedFor n' = votedFor n) \<and>
    node_log n' = node_log n \<and> commitIndex n' = commitIndex n"
proof -
  note c = HandleRequestVote_cases [OF assms]
  have "votedFor n' = votedFor n" if "currentTerm n' = currentTerm n" "votedFor n \<noteq> []"
  proof -
    have "\<not> currentTerm n < rvq_Term req" using c(1) that(1) by (auto simp: max_def split: if_splits)
    then show ?thesis using c(3,4) that(2) by (cases "rvp_VoteGranted resp") simp_all
  qed
  moreover have "rvp_VoteGranted resp \<Longrightarrow> votedFor n' = rvq_CandidateID req" by (simp add: c(4))
  moreover have "isLogUpToDate n (rvq_LastLogIndex req) (rvq_LastLogTerm req) \<longleftrightarrow>
      lastLogTerm n < rvq_LastLogTerm req \<or>
      lastLogTerm n = rvq_LastLogTerm req \<and> lastLogIndex n \<le> rvq_LastLogIndex req"
    by (rule isLogUpToDate_lex)
  ultimately show ?thesis using c(1-3,6,7) by blast
qed

definition example_node :: Node where
  "example_node = \<lparr>node_id = ''a'', peers_of = [''b'', ''c''], currentTerm = 1, votedFor = ''b'', leaderID = '''',
     state = StateFollower, node_log = [\<lparr>le_Term = 1, le_Command = ''x''\<rparr>], commitIndex = 0, lastApplied = 0,
     lastHeartbeat = 0, hasApplyFn = True, electionMin = 150, electionMax = 300, heartbeat = 50,
     rpcTimeout = 250, electionTimer = None\<rparr>"

theorem HandleRequestVote_correct_witness:
  "rvp_VoteGranted (snd (HandleRequestVote 10 example_node (voteRequest (example_node\<lparr>node_id := ''c''\<rparr>) 2 1 1))) \<and>
   \<not> rvp_VoteGranted (snd (HandleRequestVote 10 example_node (voteRequest (example_node\<lparr>node_id := ''c''\<rparr>) 1 1 1)))"
  using HandleRequestVote_correct [OF prod.collapse [symmetric], of 10 example_node "voteRequest (example_node\<lparr>node_id := ''c''\<rparr>) 2 1 1"]
    HandleRequestVote_correct [OF prod.collapse [symmetric], of 10 example_node "voteRequest (example_node\<lparr>node_id := ''c''\<rparr>) 1 1 1"]
  by (simp add: example_node_def voteRequest_def isLogUpToDate_def lastLogTerm_def lastLogIndex_def)

theorem collectCommitted_once_witness:
  "collectCommittedLocked (example_node\<lparr>commitIndex := 2\<rparr>) = None \<and>
   (\<exists>n' es n''. collectCommittedLocked example_node = Some (n', es) \<and> collectCommittedLocked n' = Some (n', []) \<and>
      collectCommittedLocked (n'\<lparr>commitIndex := 1\<rparr>) = Some (n'', [\<lparr>le_Term = 1, le_Command = ''x''\<rparr>]) \<and>
      es @ [\<lparr>le_Term = 1, le_Command = ''x''\<rparr>] = take 1 (node_log example_node))"
proof -
  let ?n = "example_node\<lparr>commitIndex := 1, lastApplied := 1\<rparr>" and ?e = "\<lparr>le_Term = 1, le_Command = ''x''\<rparr>"
  have zero: "collectCommittedLocked example_node = Some (example_node, [])" by (simp add: collectCommittedLocked_def example_node_def)
  have one: "collectCommittedLocked (example_node\<lparr>commitIndex := 1\<rparr>) = Some (?n, [?e])"
    using collectCommitted_eq [of "example_node\<lparr>commitIndex := 1\<rparr>"] by (simp add: example_node_def)
  have "[] @ [?e] = drop (unat (lastApplied example_node)) (take (unat (max (commitIndex example_node) 1)) (node_log example_node))"
    using collectCommitted_once [of example_node] zero one by blast
  moreover have "collectCommittedLocked (example_node\<lparr>commitIndex := 2\<rparr>) = None"
    using collectCommitted_once [of "example_node\<lparr>commitIndex := 2\<rparr>"] by (simp add: example_node_def)
  ultimately show ?thesis using zero one by (intro conjI exI [of _ example_node] exI [of _ "[]"] exI [of _ ?n]) (simp_all add: example_node_def)
qed

text \<open>
  The term, the vote and the log are in memory only. A node that is started again grants every request for a vote, also in a term in which
  it has voted before.
\<close>

lemma restarted_node_grants:
  assumes "raft_NewNode cfg = Inr n"
  shows "rvp_VoteGranted (snd (HandleRequestVote c n req))"
proof -
  have n: "currentTerm n = 0" "votedFor n = ''''" "node_log n = []" using assms by (auto simp: raft_NewNode_def Let_def split: if_splits)
  have "isLogUpToDate m i t" if "node_log m = []" for m i t
    using that by (auto simp: isLogUpToDate_def lastLogTerm_def lastLogIndex_def word_neq_0_conv)
  then show ?thesis using n by (simp add: HandleRequestVote_def Let_def stepDownLocked_def)
qed

text \<open>What is applied was committed, and the log has the size of a slice.\<close>

definition node_ok :: "Node \<Rightarrow> bool" where
  "node_ok n \<longleftrightarrow> commitIndex n \<le> lastApplied n \<and> length (node_log n) < 2 ^ 62"

lemma matchPrevLog_bound:
  assumes "matchPrevLog n prev t" and "length (node_log n) < 2 ^ 62"
  shows "unat prev \<le> length (node_log n)"
proof (cases "prev = 0")
  case False
  then have "prev \<le> word_of_nat (length (node_log n))"
    using assms(1) by (auto simp: matchPrevLog_def not_less split: if_splits)
  then show ?thesis using assms(2) unat_word_of_length [of "node_log n"] by (simp add: word_le_nat_alt)
qed simp

lemma unat_lastLogIndex: "length (node_log n) < 2 ^ 63 \<Longrightarrow> unat (lastLogIndex n) = length (node_log n)"
  unfolding lastLogIndex_def by (rule unat_word_of_length) simp

text \<open>The log and the commit index that a request leaves.\<close>

definition new_log :: "Node \<Rightarrow> AppendEntriesRequest \<Rightarrow> LogEntry list" where
  "new_log n req =
     (if aeq_Entries req = [] then node_log n
      else overwrite (node_log n) (unat (aeq_PrevLogIndex req)) (aeq_Entries req))"

definition new_commit :: "Node \<Rightarrow> AppendEntriesRequest \<Rightarrow> u64" where
  "new_commit n req =
     (if aeq_LeaderCommit req > commitIndex n
      then min (aeq_LeaderCommit req) (word_of_nat (length (new_log n req))) else commitIndex n)"

definition accepts :: "Node \<Rightarrow> AppendEntriesRequest \<Rightarrow> bool" where
  "accepts n req \<longleftrightarrow> currentTerm n \<le> aeq_Term req \<and>
     (aeq_Entries req = [] \<or> matchPrevLog n (aeq_PrevLogIndex req) (aeq_PrevLogTerm req))"

lemma HandleAppendEntries_rejects:
  assumes "\<not> accepts n req"
  obtains n' where "HandleAppendEntries now offset n req =
      Some (n', \<lparr>aep_Term = currentTerm n', aep_Success = False\<rparr>, [])"
    and "n' = (if currentTerm n < aeq_Term req then stepDownLocked n (aeq_Term req) (aeq_LeaderID req) else n)"
  by (rule that [OF _ refl]) (use assms in \<open>auto simp: HandleAppendEntries_def accepts_def Let_def\<close>)

lemma HandleAppendEntries_accepts:
  fixes n :: Node
  assumes "accepts n req" and "node_ok n" and "length (aeq_Entries req) < 2 ^ 62"
  obtains n' where "HandleAppendEntries now offset n req =
      Some (n', \<lparr>aep_Term = currentTerm n', aep_Success = True\<rparr>,
        drop (unat (lastApplied n)) (take (unat (commitIndex n')) (node_log n')))"
    and "currentTerm n' = max (currentTerm n) (aeq_Term req)"
    and "node_log n' = new_log n req" and "commitIndex n' = new_commit n req"
    and "lastApplied n' = max (lastApplied n) (commitIndex n')"
    and "state n' = StateFollower" and "leaderID n' = aeq_LeaderID req"
    and "votedFor n' = (if currentTerm n < aeq_Term req then '''' else votedFor n)"
    and "node_id n' = node_id n" and "peers_of n' = peers_of n" and "lastHeartbeat n' = now"
proof -
  define m where
    "m = (if currentTerm n < aeq_Term req then stepDownLocked n (aeq_Term req) (aeq_LeaderID req) else n)"
  let ?es = "aeq_Entries req" and ?prev = "aeq_PrevLogIndex req"
  have len: "length (node_log n) < 2 ^ 62" using assms(2) by (simp add: node_ok_def)
  have fresh: "\<not> aeq_Term req < currentTerm n" using assms(1) by (auto simp: accepts_def)
  have m: "node_log m = node_log n" "commitIndex m = commitIndex n" "lastApplied m = lastApplied n"
    "currentTerm m = max (currentTerm n) (aeq_Term req)" "node_id m = node_id n" "peers_of m = peers_of n"
    "votedFor m = (if currentTerm n < aeq_Term req then '''' else votedFor n)"
    using fresh by (auto simp: m_def max_def)
  have match: "\<not> (0 < length ?es \<and> \<not> matchPrevLog m ?prev (aeq_PrevLogTerm req))"
    using assms(1) by (auto simp: accepts_def m_def)
  have prev: "unat ?prev \<le> length (node_log n)" if "?es \<noteq> []"
    using matchPrevLog_bound [of n ?prev "aeq_PrevLogTerm req"] assms(1) len that by (simp add: accepts_def)
  have append: "(if 0 < length ?es then appendEntries m ?prev ?es else Some m) = Some (m\<lparr>node_log := new_log n req\<rparr>)"
  proof (cases "?es = []")
    case False
    have "appendEntries_from (node_log n) ?prev 0 ?es = Some (new_log n req)"
      using appendEntries_from_eq [of ?prev 0 "node_log n" ?es] len assms(3) False prev
      by (simp add: new_log_def)
    then show ?thesis using False m(1) by (simp add: appendEntries_def)
  qed (simp add: new_log_def m(1) [symmetric])
  have "length (new_log n req) < 2 ^ 63"
    using overwrite_props(4) [of "unat ?prev" "node_log n" ?es] len assms(3) prev
    by (cases "?es = []") (simp_all add: new_log_def)
  then have last: "unat (word_of_nat (length (new_log n req)) :: u64) = length (new_log n req)"
    by (intro unat_word_of_length) simp
  let ?a = "m\<lparr>node_log := new_log n req\<rparr>"
  let ?c = "m\<lparr>node_log := new_log n req, commitIndex := new_commit n req, lastHeartbeat := now\<rparr>"
  have update: "(if aeq_LeaderCommit req > commitIndex ?a then
        if aeq_LeaderCommit req < lastLogIndex ?a then ?a\<lparr>commitIndex := aeq_LeaderCommit req\<rparr>
        else ?a\<lparr>commitIndex := lastLogIndex ?a\<rparr>
      else ?a)\<lparr>lastHeartbeat := now\<rparr> = ?c"
    by (auto simp: m(2) new_commit_def lastLogIndex_def min_def)
  have commit: "commitIndex ?c \<le> lastApplied ?c \<or> unat (commitIndex ?c) \<le> length (node_log ?c)"
  proof (cases "aeq_LeaderCommit req > commitIndex n")
    case True
    then have "new_commit n req \<le> word_of_nat (length (new_log n req))" by (simp add: new_commit_def)
    then show ?thesis using last by (simp add: word_le_nat_alt)
  next
    case False
    then show ?thesis using assms(2) m(3) by (simp add: new_commit_def node_ok_def)
  qed
  have "HandleAppendEntries now offset n req =
     (case collectCommittedLocked ?c of None \<Rightarrow> None
      | Some (n, es) \<Rightarrow>
          Some (resetElectionTimer offset (n\<lparr>state := StateFollower, leaderID := aeq_LeaderID req\<rparr>),
            \<lparr>aep_Term = currentTerm (resetElectionTimer offset (n\<lparr>state := StateFollower, leaderID := aeq_LeaderID req\<rparr>)),
             aep_Success = True\<rparr>, es))"
    unfolding HandleAppendEntries_def Let_def if_not_P [OF fresh] m_def [symmetric] if_not_P [OF match] append
      option.case update ..
  then show ?thesis
    unfolding collectCommitted_eq [OF commit]
    by (intro that [of "resetElectionTimer offset (?c\<lparr>lastApplied := max (lastApplied ?c) (commitIndex ?c),
          state := StateFollower, leaderID := aeq_LeaderID req\<rparr>)"])
      (simp_all add: m resetElectionTimer_def)
qed

lemma HandleAppendEntries_result:
  assumes "node_ok n" and "length (aeq_Entries req) < 2 ^ 62"
  obtains n' resp es where "HandleAppendEntries now offset n req = Some (n', resp, es)"
    and "currentTerm n' = max (currentTerm n) (aeq_Term req)" and "aep_Term resp = currentTerm n'"
    and "aep_Success resp \<longleftrightarrow> accepts n req"
    and "node_log n' = (if accepts n req then new_log n req else node_log n)"
    and "commitIndex n' = (if accepts n req then new_commit n req else commitIndex n)"
    and "commitIndex n' \<le> lastApplied n'"
    and "es = (if accepts n req then drop (unat (lastApplied n)) (take (unat (commitIndex n')) (node_log n')) else [])"
    and "state n' = (if accepts n req \<or> currentTerm n < aeq_Term req then StateFollower else state n)"
    and "votedFor n' = (if currentTerm n < aeq_Term req then '''' else votedFor n)"
    and "node_id n' = node_id n" and "peers_of n' = peers_of n"
proof (cases "accepts n req")
  case True
  then obtain n' where n': "HandleAppendEntries now offset n req =
      Some (n', \<lparr>aep_Term = currentTerm n', aep_Success = True\<rparr>,
        drop (unat (lastApplied n)) (take (unat (commitIndex n')) (node_log n')))"
    "currentTerm n' = max (currentTerm n) (aeq_Term req)" "node_log n' = new_log n req"
    "commitIndex n' = new_commit n req" "lastApplied n' = max (lastApplied n) (commitIndex n')"
    "state n' = StateFollower" "votedFor n' = (if currentTerm n < aeq_Term req then '''' else votedFor n)"
    "node_id n' = node_id n" "peers_of n' = peers_of n"
    using assms by (rule HandleAppendEntries_accepts)
  show ?thesis by (rule that [OF n'(1)]) (use n'(2-) True in simp_all)
next
  case False
  then obtain n' where n': "HandleAppendEntries now offset n req =
      Some (n', \<lparr>aep_Term = currentTerm n', aep_Success = False\<rparr>, [])"
    "n' = (if currentTerm n < aeq_Term req then stepDownLocked n (aeq_Term req) (aeq_LeaderID req) else n)"
    by (rule HandleAppendEntries_rejects)
  have "currentTerm n' = max (currentTerm n) (aeq_Term req)" using n'(2) by (auto simp: max_def)
  moreover have "commitIndex n' \<le> lastApplied n'" using n'(2) assms(1) by (simp add: node_ok_def)
  ultimately show ?thesis by (intro that [OF n'(1)]) (use n'(2) False in simp_all)
qed

text \<open>
  C17: the handling of an AppendEntries request never panics, whatever the request, and always has
  one of two outcomes, on a node that has applied what it has committed, as every handler leaves it, and with a log
  and a request of less than \<open>2 ^ 62\<close> entries. A request of an older term, or with entries whose predecessor does not
  match, is refused and leaves log and commit index alone. Otherwise the log is overwritten from
  the first conflicting entry on, the commit index is advanced to the leader's, but not beyond the
  log, and exactly the newly committed entries are applied. The term never decreases.
\<close>

theorem HandleAppendEntries_correct:
  assumes "node_ok n" and "length (aeq_Entries req) < 2 ^ 62"
  shows "\<exists>n' resp es. HandleAppendEntries now offset n req = Some (n', resp, es) \<and>
    currentTerm n' = max (currentTerm n) (aeq_Term req) \<and> aep_Term resp = currentTerm n' \<and>
    commitIndex n' \<le> lastApplied n' \<and>
    (aep_Success resp \<longleftrightarrow> currentTerm n \<le> aeq_Term req \<and>
       (aeq_Entries req = [] \<or> matchPrevLog n (aeq_PrevLogIndex req) (aeq_PrevLogTerm req))) \<and>
    (if aep_Success resp then
       node_log n' = new_log n req \<and> commitIndex n' = new_commit n req \<and> state n' = StateFollower \<and>
       es = drop (unat (lastApplied n)) (take (unat (commitIndex n')) (node_log n'))
     else node_log n' = node_log n \<and> commitIndex n' = commitIndex n \<and> es = [])"
proof -
  obtain n' resp es where "HandleAppendEntries now offset n req = Some (n', resp, es)"
    "currentTerm n' = max (currentTerm n) (aeq_Term req)" "aep_Term resp = currentTerm n'"
    "aep_Success resp \<longleftrightarrow> accepts n req"
    "node_log n' = (if accepts n req then new_log n req else node_log n)"
    "commitIndex n' = (if accepts n req then new_commit n req else commitIndex n)"
    "commitIndex n' \<le> lastApplied n'"
    "es = (if accepts n req then drop (unat (lastApplied n)) (take (unat (commitIndex n')) (node_log n')) else [])"
    "state n' = (if accepts n req \<or> currentTerm n < aeq_Term req then StateFollower else state n)"
    using assms by (rule HandleAppendEntries_result) blast
  then show ?thesis unfolding accepts_def [symmetric] by (intro exI [of _ n'] exI [of _ resp] exI [of _ es]) simp
qed

theorem HandleAppendEntries_correct_witness:
  "\<exists>n' resp es. HandleAppendEntries 5 10 example_node
     (proposalRequest (example_node\<lparr>node_id := ''b''\<rparr>)
        \<lparr>pr_prevIndex = 1, pr_prevTerm = 1, pr_entry = \<lparr>le_Term = 2, le_Command = ''y''\<rparr>, pr_newIndex = 2\<rparr> 1) =
     Some (n', resp, es) \<and> aep_Success resp \<and> commitIndex n' = 1 \<and>
     node_log n' = [\<lparr>le_Term = 1, le_Command = ''x''\<rparr>, \<lparr>le_Term = 2, le_Command = ''y''\<rparr>]"
proof -
  let ?req = "proposalRequest (example_node\<lparr>node_id := ''b''\<rparr>)
    \<lparr>pr_prevIndex = 1, pr_prevTerm = 1, pr_entry = \<lparr>le_Term = 2, le_Command = ''y''\<rparr>, pr_newIndex = 2\<rparr> 1"
  have ok: "node_ok example_node" by (simp add: node_ok_def example_node_def)
  have "new_log example_node ?req = [\<lparr>le_Term = 1, le_Command = ''x''\<rparr>, \<lparr>le_Term = 2, le_Command = ''y''\<rparr>]"
    "new_commit example_node ?req = 1" "matchPrevLog example_node (aeq_PrevLogIndex ?req) (aeq_PrevLogTerm ?req)"
    "currentTerm example_node \<le> aeq_Term ?req" "length (aeq_Entries ?req) < 2 ^ 62"
    by (simp_all add: new_log_def new_commit_def matchPrevLog_def proposalRequest_def example_node_def)
  then show ?thesis
    using HandleAppendEntries_correct [OF ok, of ?req 5 10] by auto
qed

lemma raft_NewNode_fields:
  assumes "raft_NewNode cfg = Inr n"
  shows "node_id n = cfg_ID cfg" "cfg_ID cfg \<noteq> []" "peers_of n = cfg_Peers cfg" "state n = StateFollower"
    "node_log n = []" "commitIndex n = 0" "lastApplied n = 0" "currentTerm n = 0"
  using assms by (auto simp: raft_NewNode_def Let_def split: if_splits)

text \<open>
  C35: a node is built exactly from a configuration with an identifier, a transport, positive
  timeouts and an interval that is not empty; it starts as a follower of term 0 that has voted for
  nobody, and every timeout it draws lies in the configured interval.
\<close>

theorem NewNode_correct:
  shows "(\<forall>e. raft_NewNode cfg = Inl e \<longrightarrow> e \<in> {ErrInvalidConfig, ErrNilTransport, ErrInvalidTimeout}) \<and>
    ((\<exists>n. raft_NewNode cfg = Inr n) \<longleftrightarrow>
       cfg_ID cfg \<noteq> '''' \<and> cfg_hasTransport cfg \<and> 0 < cfg_HeartbeatInterval cfg \<and>
       0 < cfg_ElectionTimeoutMin cfg \<and> cfg_ElectionTimeoutMin cfg \<le> cfg_ElectionTimeoutMax cfg) \<and>
    (\<forall>n. raft_NewNode cfg = Inr n \<longrightarrow>
       node_id n = cfg_ID cfg \<and> peers_of n = cfg_Peers cfg \<and> state n = StateFollower \<and>
       currentTerm n = 0 \<and> votedFor n = '''' \<and> node_ok n \<and> 0 < rpcTimeout n \<and>
       (\<forall>offset. 0 \<le> offset \<and> offset < electionMax n - electionMin n \<or> electionMin n = electionMax n \<longrightarrow>
          cfg_ElectionTimeoutMin cfg \<le> nextElectionTimeout offset n \<and>
          nextElectionTimeout offset n \<le> cfg_ElectionTimeoutMax cfg))"
  by (auto simp: raft_NewNode_def Let_def node_ok_def nextElectionTimeout_def split: if_splits)

theorem NewNode_correct_witness:
  "\<exists>n. raft_NewNode \<lparr>cfg_ID = ''a'', cfg_Peers = [''b'', ''c''], cfg_hasTransport = True,
     cfg_ElectionTimeoutMin = 150, cfg_ElectionTimeoutMax = 300, cfg_HeartbeatInterval = 50,
     cfg_RPCTimeout = 0, cfg_hasApplyFunc = True\<rparr> = Inr n"
  using NewNode_correct [of "\<lparr>cfg_ID = ''a'', cfg_Peers = [''b'', ''c''], cfg_hasTransport = True,
     cfg_ElectionTimeoutMin = 150, cfg_ElectionTimeoutMax = 300, cfg_HeartbeatInterval = 50,
     cfg_RPCTimeout = 0, cfg_hasApplyFunc = True\<rparr>"] by auto

end
