(* ===== verification/RaftCluster.thy ===== *)
theory RaftCluster
  imports RaftNode
begin

text \<open>
  A group of Raft nodes and the goroutines of \<^verbatim>\<open>pkg/raft/node.go\<close> that run between them. A
  state holds the nodes, the election that each one is counting, the vote requests, heartbeats
  and proposals in progress, and the entries waiting to be applied. An action is one piece of code
  that runs without releasing the lock, or the delivery or the failure of one remote call, so
  that the sequences of actions are the interleavings of the program. Messages may be delayed,
  lost and delivered again; a node that has failed simply takes no more actions.
\<close>

section \<open>The group\<close>

text \<open>
  The goroutine that requests one vote: it reads the last index and then the last term without the
  lock, sends the request, and puts the response, or a refusal after a failure, into the channel.
\<close>

datatype vote_call =
    VNone
  | VSpawned
  | VRead u64
  | VSent RequestVoteRequest
  | VReturned RequestVoteResponse
  | VCounted RequestVoteResponse

datatype election =
    NoElection
  | Voting u64 int "string list"
  | Elected u64

datatype append_call =
    ANone
  | ASpawned
  | ASent AppendEntriesRequest
  | AReturned AppendEntriesResponse
  | ACounted AppendEntriesResponse

text \<open>A call of \<^verbatim>\<open>Propose\<close>: the acknowledgements so far, the peers still awaited, the result.\<close>

record proposal_thread =
  pt_proposal :: Proposal
  pt_acks :: int
  pt_awaited :: "string list"
  pt_result :: "raft_error option option"

type_synonym proposal_key = "string \<times> u64 \<times> u64"

record Cluster =
  members :: "string list"
  node_at :: "string \<Rightarrow> Node"
  election_of :: "string \<Rightarrow> election"
  vote_calls :: "string \<Rightarrow> u64 \<Rightarrow> string \<Rightarrow> vote_call"
  vote_net :: "(string \<times> RequestVoteRequest) set"
  beats :: "(string \<times> u64 \<times> string) set"
  beat_replies :: "(string \<times> u64 \<times> AppendEntriesResponse) set"
  append_net :: "(string \<times> AppendEntriesRequest) set"
  proposals :: "proposal_key \<rightharpoonup> proposal_thread"
  append_calls :: "proposal_key \<Rightarrow> string \<Rightarrow> append_call"
  to_apply :: "string \<Rightarrow> LogEntry list list"
  applied :: "string \<Rightarrow> LogEntry list"
  crashed :: bool

datatype action =
    Timeout string int
  | ReadIndex string u64 string
  | SendVote string u64 string
  | DeliverVote string u64 string int
  | LateVote string RequestVoteRequest int
  | FailVote string u64 string
  | CountVote string string int
  | CancelElection string
  | BecomeLeader string
  | Heartbeat string int
  | SendBeat string u64 string u64 u64
  | DeliverAppend string AppendEntriesRequest int int
  | BeatReply string u64 AppendEntriesResponse int
  | ClientPropose string string
  | SendAppend proposal_key string
  | AnswerAppend proposal_key string int int
  | FailAppend proposal_key string
  | CountAck proposal_key string
  | CancelProposal proposal_key
  | Apply string nat

abbreviation set_node :: "Cluster \<Rightarrow> string \<Rightarrow> Node \<Rightarrow> Cluster" where
  "set_node s i n \<equiv> s\<lparr>node_at := (node_at s)(i := n)\<rparr>"

text \<open>The entries that an operation returns are applied later, by whoever called it.\<close>

definition enqueue :: "Cluster \<Rightarrow> string \<Rightarrow> LogEntry list \<Rightarrow> Cluster" where
  "enqueue s i es = (if es = [] then s else s\<lparr>to_apply := (to_apply s)(i := to_apply s i @ [es])\<rparr>)"

definition set_vote_call :: "Cluster \<Rightarrow> string \<Rightarrow> u64 \<Rightarrow> string \<Rightarrow> vote_call \<Rightarrow> Cluster" where
  "set_vote_call s i t p c =
     s\<lparr>vote_calls := (vote_calls s)(i := (vote_calls s i)(t := (vote_calls s i t)(p := c)))\<rparr>"

definition set_append_call :: "Cluster \<Rightarrow> proposal_key \<Rightarrow> string \<Rightarrow> append_call \<Rightarrow> Cluster" where
  "set_append_call s k p c =
     s\<lparr>append_calls := (append_calls s)(k := (append_calls s k)(p := c))\<rparr>"

subsection \<open>Elections\<close>

text \<open>
  The run loop takes a timeout only between elections. A node without peers leaves the counting
  loop at once.
\<close>

definition exec_timeout :: "string \<Rightarrow> int \<Rightarrow> Cluster \<Rightarrow> Cluster option" where
  "exec_timeout i offset s =
     (let n = node_at s i
      in if i \<in> set (members s) \<and> election_of s i = NoElection \<and> currentTerm n < - 1 then
           (if \<not> onElectionTimeout n then Some (set_node s i (resetElectionTimer offset n))
            else
              let (n', t) = startElection offset n
              in Some ((set_node s i n')
                   \<lparr>vote_calls := (vote_calls s)(i := (vote_calls s i)(t := (\<lambda>p. if p \<in> set (peers_of n) then VSpawned else VNone))),
                    election_of := (election_of s)(i := (if peers_of n = [] then NoElection else Voting t 1 (peers_of n)))\<rparr>))
         else None)"

definition exec_read_index :: "string \<Rightarrow> u64 \<Rightarrow> string \<Rightarrow> Cluster \<Rightarrow> Cluster option" where
  "exec_read_index i t p s =
     (case vote_calls s i t p of
        VSpawned \<Rightarrow> Some (set_vote_call s i t p (VRead (lastLogIndex (node_at s i))))
      | _ \<Rightarrow> None)"

definition exec_send_vote :: "string \<Rightarrow> u64 \<Rightarrow> string \<Rightarrow> Cluster \<Rightarrow> Cluster option" where
  "exec_send_vote i t p s =
     (case vote_calls s i t p of
        VRead index \<Rightarrow>
          let req = voteRequest (node_at s i) t index (lastLogTerm (node_at s i))
          in Some ((set_vote_call s i t p (VSent req))\<lparr>vote_net := insert (p, req) (vote_net s)\<rparr>)
      | _ \<Rightarrow> None)"

definition exec_deliver_vote :: "string \<Rightarrow> u64 \<Rightarrow> string \<Rightarrow> int \<Rightarrow> Cluster \<Rightarrow> Cluster option" where
  "exec_deliver_vote i t p offset s =
     (case vote_calls s i t p of
        VSent req \<Rightarrow>
          let (n', resp) = HandleRequestVote offset (node_at s p) req
          in Some (set_node (set_vote_call s i t p (VReturned resp)) p n')
      | _ \<Rightarrow> None)"

text \<open>A request that is handled when the caller no longer waits, or is handled again.\<close>

definition exec_late_vote :: "string \<Rightarrow> RequestVoteRequest \<Rightarrow> int \<Rightarrow> Cluster \<Rightarrow> Cluster option" where
  "exec_late_vote p req offset s =
     (if (p, req) \<in> vote_net s then Some (set_node s p (fst (HandleRequestVote offset (node_at s p) req)))
      else None)"

definition exec_fail_vote :: "string \<Rightarrow> u64 \<Rightarrow> string \<Rightarrow> Cluster \<Rightarrow> Cluster option" where
  "exec_fail_vote i t p s =
     (case vote_calls s i t p of
        VSent req \<Rightarrow> Some (set_vote_call s i t p (VReturned \<lparr>rvp_Term = t, rvp_VoteGranted = False\<rparr>))
      | _ \<Rightarrow> None)"

definition exec_count_vote :: "string \<Rightarrow> string \<Rightarrow> int \<Rightarrow> Cluster \<Rightarrow> Cluster option" where
  "exec_count_vote i p offset s =
     (case election_of s i of
        Voting t votes awaited \<Rightarrow>
          (case vote_calls s i t p of
             VReturned resp \<Rightarrow>
               if p \<in> set awaited then
                 let (n', b) = onVoteResponse offset (node_at s i) t votes resp;
                     rest = remove1 p awaited;
                     e = (case b of
                            Abandoned \<Rightarrow> NoElection
                          | Counting v \<Rightarrow> (if rest = [] then NoElection else Voting t v rest)
                          | Won \<Rightarrow> Elected t);
                     s' = (if b = Abandoned then s else set_vote_call s i t p (VCounted resp))
                 in Some ((set_node s' i n')
                      \<lparr>election_of := (election_of s)(i := e)\<rparr>)
               else None
           | _ \<Rightarrow> None)
      | _ \<Rightarrow> None)"

definition exec_cancel_election :: "string \<Rightarrow> Cluster \<Rightarrow> Cluster option" where
  "exec_cancel_election i s =
     (case election_of s i of
        Voting t votes awaited \<Rightarrow> Some (s\<lparr>election_of := (election_of s)(i := NoElection)\<rparr>)
      | _ \<Rightarrow> None)"

definition exec_become_leader :: "string \<Rightarrow> Cluster \<Rightarrow> Cluster option" where
  "exec_become_leader i s =
     (case election_of s i of
        Elected t \<Rightarrow>
          Some ((set_node s i (becomeLeader (node_at s i)))\<lparr>election_of := (election_of s)(i := NoElection)\<rparr>)
      | _ \<Rightarrow> None)"

subsection \<open>Heartbeats\<close>

definition exec_heartbeat :: "string \<Rightarrow> int \<Rightarrow> Cluster \<Rightarrow> Cluster option" where
  "exec_heartbeat i now s =
     (if i \<in> set (members s) \<and> election_of s i = NoElection then
        (case sendHeartbeats now (node_at s i) of
           (n', None) \<Rightarrow> Some (set_node s i n')
         | (n', Some t) \<Rightarrow>
             Some ((set_node s i n')\<lparr>beats := beats s \<union> (\<lambda>p. (i, t, p)) ` set (peers_of n')\<rparr>))
      else None)"

text \<open>
  The log position in a heartbeat is read without the lock. The receiver ignores it, so that it may
  be anything here.
\<close>

definition exec_send_beat :: "string \<Rightarrow> u64 \<Rightarrow> string \<Rightarrow> u64 \<Rightarrow> u64 \<Rightarrow> Cluster \<Rightarrow> Cluster option" where
  "exec_send_beat i t p index lastTerm s =
     (if (i, t, p) \<in> beats s then
        let req = heartbeatRequest (node_at s i) t index lastTerm (commitIndex (node_at s i))
        in Some (s\<lparr>append_net := insert (p, req) (append_net s)\<rparr>)
      else None)"

text \<open>An append request is handled, now or again; the response may still reach a heartbeat.\<close>

definition exec_deliver_append :: "string \<Rightarrow> AppendEntriesRequest \<Rightarrow> int \<Rightarrow> int \<Rightarrow> Cluster \<Rightarrow> Cluster option" where
  "exec_deliver_append p req now offset s =
     (if (p, req) \<in> append_net s then
        (case HandleAppendEntries now offset (node_at s p) req of
           None \<Rightarrow> Some (s\<lparr>crashed := True\<rparr>)
         | Some (n', resp, es) \<Rightarrow>
             Some (enqueue ((set_node s p n')
               \<lparr>beat_replies := insert (aeq_LeaderID req, aeq_Term req, resp) (beat_replies s)\<rparr>) p es))
      else None)"

definition exec_beat_reply :: "string \<Rightarrow> u64 \<Rightarrow> AppendEntriesResponse \<Rightarrow> int \<Rightarrow> Cluster \<Rightarrow> Cluster option" where
  "exec_beat_reply i t resp offset s =
     (if (i, t, resp) \<in> beat_replies s then Some (set_node s i (onHeartbeatResponse offset (node_at s i) t resp))
      else None)"

subsection \<open>Proposals\<close>

text \<open>A slice of log entries is shorter than \<open>2 ^ 62\<close>, each entry taking 24 bytes.\<close>

definition has_room :: "LogEntry list \<Rightarrow> bool" where
  "has_room xs \<longleftrightarrow> length xs + 1 < 2 ^ 62"

lemma has_room_int [code]: "has_room xs \<longleftrightarrow> int (length xs) + 1 < 2 ^ 62"
  by (simp add: has_room_def)

definition exec_propose :: "string \<Rightarrow> string \<Rightarrow> Cluster \<Rightarrow> Cluster option" where
  "exec_propose i command s =
     (let n = node_at s i
      in if i \<in> set (members s) \<and> has_room (node_log n) then
           (case Propose n command of
              Inl _ \<Rightarrow> Some s
            | Inr (n', pr) \<Rightarrow>
                let key = (i, le_Term (pr_entry pr), pr_newIndex pr)
                in Some ((set_node s i n')
                     \<lparr>proposals := (proposals s)(key \<mapsto>
                        \<lparr>pt_proposal = pr, pt_acks = 1, pt_awaited = peers_of n,
                         pt_result = (if peers_of n = [] then Some (Some ErrReplicationFailed) else None)\<rparr>),
                      append_calls := (append_calls s)(key := (\<lambda>p. if p \<in> set (peers_of n) then ASpawned else ANone))\<rparr>))
         else None)"

definition exec_send_append :: "proposal_key \<Rightarrow> string \<Rightarrow> Cluster \<Rightarrow> Cluster option" where
  "exec_send_append key p s =
     (case (proposals s key, append_calls s key p) of
        (Some th, ASpawned) \<Rightarrow>
          let n = node_at s (fst key);
              req = proposalRequest n (pt_proposal th) (commitIndex n)
          in Some ((set_append_call s key p (ASent req))\<lparr>append_net := insert (p, req) (append_net s)\<rparr>)
      | _ \<Rightarrow> None)"

definition exec_answer_append :: "proposal_key \<Rightarrow> string \<Rightarrow> int \<Rightarrow> int \<Rightarrow> Cluster \<Rightarrow> Cluster option" where
  "exec_answer_append key p now offset s =
     (case append_calls s key p of
        ASent req \<Rightarrow>
          (case HandleAppendEntries now offset (node_at s p) req of
             None \<Rightarrow> Some (s\<lparr>crashed := True\<rparr>)
           | Some (n', resp, es) \<Rightarrow>
               Some (enqueue (set_node (set_append_call s key p (AReturned resp)) p n') p es))
      | _ \<Rightarrow> None)"

definition exec_fail_append :: "proposal_key \<Rightarrow> string \<Rightarrow> Cluster \<Rightarrow> Cluster option" where
  "exec_fail_append key p s =
     (case append_calls s key p of
        ASent req \<Rightarrow>
          Some (set_append_call s key p (AReturned \<lparr>aep_Term = aeq_Term req, aep_Success = False\<rparr>))
      | _ \<Rightarrow> None)"

definition exec_count_ack :: "proposal_key \<Rightarrow> string \<Rightarrow> Cluster \<Rightarrow> Cluster option" where
  "exec_count_ack key p s =
     (case (proposals s key, append_calls s key p) of
        (Some th, AReturned resp) \<Rightarrow>
          if pt_result th = None \<and> p \<in> set (pt_awaited th) then
            (let i = fst key; rest = remove1 p (pt_awaited th)
             in case onAppendResponse (node_at s i) (pt_proposal th) (pt_acks th) resp of
                  None \<Rightarrow> Some (s\<lparr>crashed := True\<rparr>)
                | Some (n', result) \<Rightarrow>
                    let th' = (case result of
                          Refused e \<Rightarrow> th\<lparr>pt_awaited := rest, pt_result := Some (Some e)\<rparr>
                        | Pending a \<Rightarrow> th\<lparr>pt_acks := a, pt_awaited := rest,
                            pt_result := (if rest = [] then Some (Some ErrReplicationFailed) else None)\<rparr>
                        | Committed es \<Rightarrow> th\<lparr>pt_acks := pt_acks th + 1, pt_awaited := rest, pt_result := Some None\<rparr>);
                        es = (case result of Committed es \<Rightarrow> es | _ \<Rightarrow> [])
                    in Some (enqueue ((set_node (set_append_call s key p (ACounted resp)) i n')
                         \<lparr>proposals := (proposals s)(key \<mapsto> th')\<rparr>) i es))
          else None
      | _ \<Rightarrow> None)"

definition exec_cancel_proposal :: "proposal_key \<Rightarrow> Cluster \<Rightarrow> Cluster option" where
  "exec_cancel_proposal key s =
     (case proposals s key of
        Some th \<Rightarrow>
          if pt_result th = None
          then Some (s\<lparr>proposals := (proposals s)(key \<mapsto> th\<lparr>pt_result := Some (Some ErrCancelled)\<rparr>)\<rparr>)
          else None
      | None \<Rightarrow> None)"

text \<open>
  Entries are applied after the lock is released, one by one: an action applies the next entry of one of the waiting batches, or drops a batch that
  is used up, so that the batches of several goroutines may be interleaved.
\<close>

definition exec_apply :: "string \<Rightarrow> nat \<Rightarrow> Cluster \<Rightarrow> Cluster option" where
  "exec_apply i k s =
     (if k < length (to_apply s i) then
        (case to_apply s i ! k of
           [] \<Rightarrow> Some (s\<lparr>to_apply := (to_apply s)(i := take k (to_apply s i) @ drop (Suc k) (to_apply s i))\<rparr>)
         | e # es \<Rightarrow> Some (s\<lparr>to_apply := (to_apply s)(i := (to_apply s i)[k := es]),
                             applied := (applied s)(i := applied s i @ applyEntries (node_at s i) [e])\<rparr>))
      else None)"

fun exec :: "action \<Rightarrow> Cluster \<Rightarrow> Cluster option" where
  "exec (Timeout i c) s = exec_timeout i c s"
| "exec (ReadIndex i t p) s = exec_read_index i t p s"
| "exec (SendVote i t p) s = exec_send_vote i t p s"
| "exec (DeliverVote i t p c) s = exec_deliver_vote i t p c s"
| "exec (LateVote p req c) s = exec_late_vote p req c s"
| "exec (FailVote i t p) s = exec_fail_vote i t p s"
| "exec (CountVote i p c) s = exec_count_vote i p c s"
| "exec (CancelElection i) s = exec_cancel_election i s"
| "exec (BecomeLeader i) s = exec_become_leader i s"
| "exec (Heartbeat i now) s = exec_heartbeat i now s"
| "exec (SendBeat i t p x y) s = exec_send_beat i t p x y s"
| "exec (DeliverAppend p req now c) s = exec_deliver_append p req now c s"
| "exec (BeatReply i t resp c) s = exec_beat_reply i t resp c s"
| "exec (ClientPropose i cmd) s = exec_propose i cmd s"
| "exec (SendAppend k p) s = exec_send_append k p s"
| "exec (AnswerAppend k p now c) s = exec_answer_append k p now c s"
| "exec (FailAppend k p) s = exec_fail_append k p s"
| "exec (CountAck k p) s = exec_count_ack k p s"
| "exec (CancelProposal k) s = exec_cancel_proposal k s"
| "exec (Apply i k) s = exec_apply i k s"

text \<open>A fresh group: nodes built from configurations in which the peers are the other members.\<close>

definition initial :: "Cluster \<Rightarrow> bool" where
  "initial s \<longleftrightarrow> distinct (members s) \<and>
     (\<forall>i \<in> set (members s). \<exists>cfg. raft_NewNode cfg = Inr (node_at s i) \<and> cfg_ID cfg = i \<and>
        distinct (cfg_Peers cfg) \<and> set (cfg_Peers cfg) = set (members s) - {i}) \<and>
     election_of s = (\<lambda>_. NoElection) \<and> vote_calls s = (\<lambda>_ _ _. VNone) \<and> vote_net s = {} \<and>
     beats s = {} \<and> beat_replies s = {} \<and> append_net s = {} \<and> proposals s = Map.empty \<and>
     append_calls s = (\<lambda>_ _. ANone) \<and> to_apply s = (\<lambda>_. []) \<and> applied s = (\<lambda>_. []) \<and> \<not> crashed s"

inductive steps :: "Cluster \<Rightarrow> Cluster \<Rightarrow> bool" where
  refl: "steps s s"
| step: "steps s s' \<Longrightarrow> exec a s' = Some s'' \<Longrightarrow> steps s s''"

definition reachable :: "Cluster \<Rightarrow> bool" where
  "reachable s \<longleftrightarrow> (\<exists>s0. initial s0 \<and> steps s0 s)"

subsection \<open>What one node does\<close>

text \<open>
  An update of a node that neither starts nor wins an election: the term does not decrease, a vote
  cast in the current term stays, and the node becomes neither candidate nor leader.
\<close>

definition quiet :: "Node \<Rightarrow> Node \<Rightarrow> bool" where
  "quiet n n' \<longleftrightarrow> node_id n' = node_id n \<and> peers_of n' = peers_of n \<and>
     currentTerm n \<le> currentTerm n' \<and>
     (currentTerm n' = currentTerm n \<longrightarrow> votedFor n \<noteq> '''' \<longrightarrow> votedFor n' = votedFor n) \<and>
     (state n' = StateCandidate \<longrightarrow> state n = StateCandidate \<and> currentTerm n' = currentTerm n) \<and>
     (state n' = StateLeader \<longrightarrow> state n = StateLeader \<and> currentTerm n' = currentTerm n)"

lemma quiet_refl [simp]: "quiet n n"
  by (simp add: quiet_def)

lemma quiet_trans: "quiet n n' \<Longrightarrow> quiet n' n'' \<Longrightarrow> quiet n n''"
  unfolding quiet_def by (elim conjE) (intro conjI; force)

text \<open>The node has moved past term \<open>t\<close>, or is in it and has voted for \<open>c\<close>.\<close>

definition bound_to :: "Node \<Rightarrow> u64 \<Rightarrow> string \<Rightarrow> bool" where
  "bound_to n t c \<longleftrightarrow> t < currentTerm n \<or> t = currentTerm n \<and> votedFor n = c"

lemma bound_to_quiet: "quiet n n' \<Longrightarrow> bound_to n t c \<Longrightarrow> c \<noteq> '''' \<Longrightarrow> bound_to n' t c"
  unfolding quiet_def bound_to_def by (metis order.not_eq_order_implies_strict order.strict_trans1 order_less_le_trans)

lemma quiet_reset [simp]: "quiet n (resetElectionTimer c n')  = quiet n n'"
  by (simp add: quiet_def)

lemma quiet_stepDown: "currentTerm n < t \<Longrightarrow> quiet n (stepDownLocked n t l)"
  by (auto simp: quiet_def max_def)

lemma quiet_RequestVote: "quiet n (fst (HandleRequestVote c n req))"
proof -
  obtain n' resp where run: "HandleRequestVote c n req = (n', resp)" by fastforce
  note c = HandleRequestVote_cases [OF run]
  have same: "\<not> currentTerm n < rvq_Term req" if "currentTerm n' = currentTerm n"
    using c(1) that by (auto simp: max_def split: if_splits)
  have "votedFor n' = votedFor n" if "currentTerm n' = currentTerm n" "votedFor n \<noteq> ''''"
    using c(3,4) same [OF that(1)] that(2) by (cases "rvp_VoteGranted resp") simp_all
  moreover have "currentTerm n \<le> currentTerm n'" by (simp add: c(1))
  moreover have "state n' = state n \<and> currentTerm n' = currentTerm n" if "state n' \<noteq> StateFollower"
    using c(1,5) that by (auto simp: max_def split: if_splits)
  ultimately show ?thesis using c(9,10) unfolding run quiet_def by auto
qed

lemma collectCommitted_frame:
  assumes "collectCommittedLocked n = Some (n', es)"
  shows "currentTerm n' = currentTerm n" "votedFor n' = votedFor n" "state n' = state n"
    "node_log n' = node_log n" "commitIndex n' = commitIndex n" "node_id n' = node_id n" "peers_of n' = peers_of n"
  using assms by (auto simp: collectCommittedLocked_def split: if_splits option.splits)

lemma HandleAppendEntries_frame:
  assumes "HandleAppendEntries now c n req = Some (n', resp, es)"
  shows "node_id n' = node_id n" "peers_of n' = peers_of n" "currentTerm n' = max (currentTerm n) (aeq_Term req)"
    "votedFor n' = (if currentTerm n < aeq_Term req then '''' else votedFor n)"
    "state n' = StateFollower \<or> n' = n \<and> aeq_Term req \<le> currentTerm n"
proof -
  define m where "m = (if currentTerm n < aeq_Term req then stepDownLocked n (aeq_Term req) (aeq_LeaderID req) else n)"
  consider "n' = n" "aeq_Term req < currentTerm n" | "n' = m" "\<not> aeq_Term req < currentTerm n"
    | a b d where "\<not> aeq_Term req < currentTerm n" "a = m \<or> (\<exists>lg. a = m\<lparr>node_log := lg\<rparr>)"
      "collectCommittedLocked (a\<lparr>commitIndex := b, lastHeartbeat := now\<rparr>) = Some (d, es)"
      "n' = resetElectionTimer c (d\<lparr>state := StateFollower, leaderID := aeq_LeaderID req\<rparr>)"
  proof (cases "aeq_Term req < currentTerm n")
    case True
    then show ?thesis using assms that(1) by (simp add: HandleAppendEntries_def)
  next
    case False
    show ?thesis
    proof (cases "0 < length (aeq_Entries req) \<and> \<not> matchPrevLog m (aeq_PrevLogIndex req) (aeq_PrevLogTerm req)")
      case True
      then show ?thesis
        using assms that(2) False unfolding HandleAppendEntries_def Let_def m_def [symmetric] by simp
    next
      case match: False
      note run = assms [unfolded HandleAppendEntries_def Let_def if_not_P [OF False] m_def [symmetric] if_not_P [OF match]]
      obtain a where a: "(if 0 < length (aeq_Entries req) then appendEntries m (aeq_PrevLogIndex req) (aeq_Entries req)
          else Some m) = Some a"
        using run by (auto split: option.splits)
      then have a': "a = m \<or> (\<exists>lg. a = m\<lparr>node_log := lg\<rparr>)"
        by (auto simp: appendEntries_def split: if_splits option.splits)
      let ?b = "if aeq_LeaderCommit req > commitIndex a then
          if aeq_LeaderCommit req < lastLogIndex a then aeq_LeaderCommit req else lastLogIndex a else commitIndex a"
      have upd: "(if aeq_LeaderCommit req > commitIndex a then
          if aeq_LeaderCommit req < lastLogIndex a then a\<lparr>commitIndex := aeq_LeaderCommit req\<rparr>
          else a\<lparr>commitIndex := lastLogIndex a\<rparr> else a)\<lparr>lastHeartbeat := now\<rparr> =
          a\<lparr>commitIndex := ?b, lastHeartbeat := now\<rparr>"
        by simp
      obtain d where "collectCommittedLocked (a\<lparr>commitIndex := ?b, lastHeartbeat := now\<rparr>) = Some (d, es)"
        "n' = resetElectionTimer c (d\<lparr>state := StateFollower, leaderID := aeq_LeaderID req\<rparr>)"
        using run [unfolded a option.case upd] by (auto split: option.splits)
      with False a' show ?thesis by (rule that(3))
    qed
  qed
  then have "node_id n' = node_id n \<and> peers_of n' = peers_of n \<and>
    currentTerm n' = max (currentTerm n) (aeq_Term req) \<and>
    votedFor n' = (if currentTerm n < aeq_Term req then [] else votedFor n) \<and>
    (state n' = StateFollower \<or> n' = n \<and> aeq_Term req \<le> currentTerm n)"
  proof cases
    case 1
    then have "aeq_Term req \<le> currentTerm n" "\<not> currentTerm n < aeq_Term req" by (auto dest: order.asym)
    then show ?thesis using 1(1) by (simp add: max_absorb1)
  next
    case 2
    then have "currentTerm n \<le> aeq_Term req" by auto
    then show ?thesis using 2 by (cases "currentTerm n < aeq_Term req") (simp_all add: m_def max_absorb2)
  next
    case (3 a b d)
    have m: "node_id m = node_id n" "peers_of m = peers_of n" "currentTerm m = max (currentTerm n) (aeq_Term req)"
      "votedFor m = (if currentTerm n < aeq_Term req then [] else votedFor n)"
      using 3(1) by (cases "currentTerm n < aeq_Term req"; simp add: m_def max_def)+
    have a: "node_id a = node_id m" "peers_of a = peers_of m" "currentTerm a = currentTerm m" "votedFor a = votedFor m"
      using 3(2) by auto
    show ?thesis using collectCommitted_frame(1,2,6,7) [OF 3(3)] 3(4) a m by simp
  qed
  then show "node_id n' = node_id n" "peers_of n' = peers_of n" "currentTerm n' = max (currentTerm n) (aeq_Term req)"
    "votedFor n' = (if currentTerm n < aeq_Term req then [] else votedFor n)"
    "state n' = StateFollower \<or> n' = n \<and> aeq_Term req \<le> currentTerm n"
    by blast+
qed

lemma quiet_AppendEntries:
  "HandleAppendEntries now c n req = Some (n', resp, es) \<Longrightarrow> quiet n n'"
  using HandleAppendEntries_frame [of now c n req n' resp es] unfolding quiet_def
  by (auto simp: max_def split: if_splits)

lemma quiet_VoteResponse: "quiet n (fst (onVoteResponse c n t v resp))"
  by (auto simp: onVoteResponse_def Let_def quiet_stepDown)

lemma quiet_HeartbeatResponse: "quiet n (onHeartbeatResponse c n t resp)"
  by (auto simp: onHeartbeatResponse_def Let_def quiet_stepDown)

lemma quiet_Propose: "Propose n cmd = Inr (n', pr) \<Longrightarrow> quiet n n'"
  by (auto simp: Propose_def Let_def quiet_def split: if_splits)

lemma quiet_sendHeartbeats: "quiet n (fst (sendHeartbeats now n))"
  by (simp add: sendHeartbeats_def quiet_def)

lemma quiet_AppendResponse:
  assumes "onAppendResponse n pr acks resp = Some (n', r)"
  shows "quiet n n'"
proof -
  have "quiet n n'" if "collectCommittedLocked (n\<lparr>commitIndex := k\<rparr>) = Some (n', es)" for k es
    using collectCommitted_frame [OF that] by (simp add: quiet_def)
  then show ?thesis
    using assms by (auto simp: onAppendResponse_def Let_def quiet_stepDown split: if_splits option.splits)
qed

lemmas quiet_intros =
  quiet_RequestVote quiet_VoteResponse quiet_HeartbeatResponse quiet_sendHeartbeats

subsection \<open>Running a schedule\<close>

fun run :: "action list \<Rightarrow> Cluster \<Rightarrow> Cluster option" where
  "run [] s = Some s"
| "run (a # as) s = (case exec a s of None \<Rightarrow> None | Some s' \<Rightarrow> run as s')"

lemma steps_trans: "steps s' s'' \<Longrightarrow> steps s s' \<Longrightarrow> steps s s''"
  by (induction rule: steps.induct) (auto intro: steps.step)

lemma run_steps: "run as s = Some s' \<Longrightarrow> steps s s'"
proof (induction as arbitrary: s)
  case (Cons a as)
  then obtain t where "exec a s = Some t" "run as t = Some s'" by (auto split: option.splits)
  then show ?case using Cons.IH steps.step [OF steps.refl] steps_trans by blast
qed (simp add: steps.refl)

text \<open>A group of coordinators with the default timeouts, before anything has happened.\<close>

definition example_config :: "string list \<Rightarrow> string \<Rightarrow> Config" where
  "example_config ids i =
     \<lparr>cfg_ID = i, cfg_Peers = filter (\<lambda>p. p \<noteq> i) ids, cfg_hasTransport = True,
      cfg_ElectionTimeoutMin = 1500000000, cfg_ElectionTimeoutMax = 3000000000,
      cfg_HeartbeatInterval = 500000000, cfg_RPCTimeout = 0, cfg_hasApplyFunc = True\<rparr>"

definition example_cluster :: "string list \<Rightarrow> Cluster" where
  "example_cluster ids =
     \<lparr>members = ids, node_at = (\<lambda>i. case raft_NewNode (example_config ids i) of Inr n \<Rightarrow> n),
      election_of = (\<lambda>_. NoElection), vote_calls = (\<lambda>_ _ _. VNone), vote_net = {}, beats = {},
      beat_replies = {}, append_net = {}, proposals = Map.empty, append_calls = (\<lambda>_ _. ANone),
      to_apply = (\<lambda>_. []), applied = (\<lambda>_. []), crashed = False\<rparr>"

lemma initial_example:
  assumes "distinct ids" and "'''' \<notin> set ids"
  shows "initial (example_cluster ids)"
  unfolding initial_def
proof (intro conjI ballI)
  fix i assume "i \<in> set (members (example_cluster ids))"
  then have "i \<noteq> ''''" using assms by (auto simp: example_cluster_def)
  then show "\<exists>cfg. raft_NewNode cfg = Inr (node_at (example_cluster ids) i) \<and> cfg_ID cfg = i \<and>
      distinct (cfg_Peers cfg) \<and> set (cfg_Peers cfg) = set (members (example_cluster ids)) - {i}"
    using assms by (intro exI [of _ "example_config ids i"])
      (auto simp: example_cluster_def example_config_def raft_NewNode_def Let_def)
qed (use assms in \<open>simp_all add: example_cluster_def\<close>)

lemma reachable_example:
  assumes "run as (example_cluster ids) = Some s" and "distinct ids" and "'''' \<notin> set ids"
  shows "reachable s"
  unfolding reachable_def using initial_example [OF assms(2,3)] run_steps [OF assms(1)] by blast

text \<open>The schedule in which \<open>i\<close> is elected by the votes of \<open>ps\<close>.\<close>

definition elect :: "string \<Rightarrow> u64 \<Rightarrow> string list \<Rightarrow> action list" where
  "elect i t ps =
     Timeout i 0 #
     concat (map (\<lambda>p. [ReadIndex i t p, SendVote i t p, DeliverVote i t p 0, CountVote i p 0]) ps) @
     [BecomeLeader i]"

end
