(* ===== verification/RaftElection.thy ===== *)
theory RaftElection
  imports RaftCluster
begin

text \<open>
  Election safety. The invariant says how votes that were granted, and elections that were
  started, bind the terms and votes of the nodes; it is kept by every action. From it follows that
  two nodes that win an election in the same term are the same, over whole executions.
\<close>

section \<open>Election safety\<close>

definition granted :: "vote_call \<Rightarrow> bool" where
  "granted c = (case c of VReturned r \<Rightarrow> rvp_VoteGranted r | VCounted r \<Rightarrow> rvp_VoteGranted r | _ \<Rightarrow> False)"

lemma granted_simps [simp]:
  "\<not> granted VNone" "\<not> granted VSpawned" "\<not> granted (VRead x)" "\<not> granted (VSent req)"
  "granted (VReturned r) = rvp_VoteGranted r" "granted (VCounted r) = rvp_VoteGranted r"
  by (simp_all add: granted_def)

text \<open>A granted vote that the candidate has taken from the channel.\<close>

definition counted :: "vote_call \<Rightarrow> bool" where
  "counted c = (case c of VCounted r \<Rightarrow> rvp_VoteGranted r | _ \<Rightarrow> False)"

lemma counted_simps [simp]:
  "\<not> counted VNone" "\<not> counted VSpawned" "\<not> counted (VRead x)" "\<not> counted (VSent req)"
  "\<not> counted (VReturned r)" "counted (VCounted r) = rvp_VoteGranted r"
  by (simp_all add: counted_def)

lemma counted_granted: "counted c \<Longrightarrow> granted c"
  by (cases c) simp_all

text \<open>Node \<open>i\<close> has a majority for term \<open>t\<close>: its own vote and those of the peers in \<open>G\<close>.\<close>

definition has_won :: "(string \<Rightarrow> Node) \<Rightarrow> (string \<Rightarrow> u64 \<Rightarrow> string \<Rightarrow> vote_call) \<Rightarrow> string \<Rightarrow> u64 \<Rightarrow> bool" where
  "has_won nd vc i t \<longleftrightarrow> (\<exists>p. vc i t p \<noteq> VNone) \<and>
     (\<exists>G \<subseteq> set (peers_of (nd i)). (\<forall>p \<in> G. counted (vc i t p)) \<and> quorum (nd i) \<le> 1 + int (card G))"

definition config_ok :: "string list \<Rightarrow> (string \<Rightarrow> Node) \<Rightarrow> bool" where
  "config_ok M nd \<longleftrightarrow> distinct M \<and>
     (\<forall>i \<in> set M. i \<noteq> '''' \<and> node_id (nd i) = i \<and> distinct (peers_of (nd i)) \<and>
        set (peers_of (nd i)) = set M - {i})"

definition calls_ok :: "string list \<Rightarrow> (string \<Rightarrow> Node) \<Rightarrow> (string \<Rightarrow> u64 \<Rightarrow> string \<Rightarrow> vote_call) \<Rightarrow> bool" where
  "calls_ok M nd vc \<longleftrightarrow>
     (\<forall>i t p. vc i t p \<noteq> VNone \<longrightarrow> i \<in> set M \<and> p \<in> set (peers_of (nd i)) \<and> bound_to (nd i) t i) \<and>
     (\<forall>i t p req. vc i t p = VSent req \<longrightarrow> rvq_Term req = t \<and> rvq_CandidateID req = i) \<and>
     (\<forall>i t p. granted (vc i t p) \<longrightarrow> bound_to (nd p) t i)"

definition votes_unique :: "(string \<Rightarrow> u64 \<Rightarrow> string \<Rightarrow> vote_call) \<Rightarrow> bool" where
  "votes_unique vc \<longleftrightarrow>
     (\<forall>i j t p. granted (vc i t p) \<longrightarrow> granted (vc j t p) \<longrightarrow> i = j) \<and>
     (\<forall>i j t p. vc i t p \<noteq> VNone \<longrightarrow> \<not> granted (vc j t i))"

definition net_ok :: "string list \<Rightarrow> (string \<times> RequestVoteRequest) set \<Rightarrow> bool" where
  "net_ok M vn \<longleftrightarrow> (\<forall>(p, req) \<in> vn. p \<in> set M \<and> rvq_CandidateID req \<noteq> '''')"

definition count_ok :: "string list \<Rightarrow> (string \<Rightarrow> Node) \<Rightarrow> (string \<Rightarrow> u64 \<Rightarrow> string \<Rightarrow> vote_call) \<Rightarrow>
    string \<Rightarrow> election \<Rightarrow> bool" where
  "count_ok M nd vc i e =
     (case e of
        NoElection \<Rightarrow> True
      | Voting t votes awaited \<Rightarrow> i \<in> set M \<and> distinct awaited \<and> (\<exists>p. vc i t p \<noteq> VNone) \<and>
          (\<exists>G \<subseteq> set (peers_of (nd i)) - set awaited. (\<forall>p \<in> G. counted (vc i t p)) \<and> votes = 1 + int (card G)) \<and>
          (state (nd i) = StateCandidate \<longrightarrow> currentTerm (nd i) = t)
      | Elected t \<Rightarrow> i \<in> set M \<and> has_won nd vc i t \<and> (state (nd i) = StateCandidate \<longrightarrow> currentTerm (nd i) = t))"

definition leaders_ok :: "string list \<Rightarrow> (string \<Rightarrow> Node) \<Rightarrow> (string \<Rightarrow> u64 \<Rightarrow> string \<Rightarrow> vote_call) \<Rightarrow> bool" where
  "leaders_ok M nd vc \<longleftrightarrow>
     (\<forall>i \<in> set M. state (nd i) = StateLeader \<longrightarrow> has_won nd vc i (currentTerm (nd i)))"

text \<open>The invariant, over the parts of the state that it is about.\<close>

definition votes_ok :: "string list \<Rightarrow> (string \<Rightarrow> Node) \<Rightarrow> (string \<Rightarrow> u64 \<Rightarrow> string \<Rightarrow> vote_call) \<Rightarrow>
    (string \<Rightarrow> election) \<Rightarrow> (string \<times> RequestVoteRequest) set \<Rightarrow> bool" where
  "votes_ok M nd vc el vn \<longleftrightarrow> config_ok M nd \<and> calls_ok M nd vc \<and> votes_unique vc \<and> net_ok M vn \<and>
     (\<forall>i. count_ok M nd vc i (el i)) \<and> leaders_ok M nd vc"

lemma quorum_cong: "peers_of n = peers_of n' \<Longrightarrow> quorum n = quorum n'"
  by (simp add: quorum_def)

lemma has_won_cong:
  assumes "peers_of (nd' i) = peers_of (nd i)"
    and "\<And>p. vc i t p \<noteq> VNone \<Longrightarrow> vc' i t p \<noteq> VNone" and "\<And>p. counted (vc i t p) \<Longrightarrow> counted (vc' i t p)"
    and "has_won nd vc i t"
  shows "has_won nd' vc' i t"
  using assms unfolding has_won_def quorum_cong [OF assms(1)] by (metis (no_types, opaque_lifting))

subsection \<open>Majorities\<close>

lemma quorum_meet:
  assumes "config_ok M nd" and "i \<in> set M" and "j \<in> set M"
    and "G \<subseteq> set (peers_of (nd i))" and "quorum (nd i) \<le> 1 + int (card G)"
    and "H \<subseteq> set (peers_of (nd j))" and "quorum (nd j) \<le> 1 + int (card H)"
  shows "insert i G \<inter> insert j H \<noteq> {}"
proof -
  have fin: "finite G" "finite H" using assms(4,6) finite_subset by blast+
  have c: "set (peers_of (nd k)) = set M - {k}" "length (peers_of (nd k)) = length M - 1" if "k \<in> set M" for k
  proof -
    show eq: "set (peers_of (nd k)) = set M - {k}" using assms(1) that by (simp add: config_ok_def)
    have "distinct M" "distinct (peers_of (nd k))" using assms(1) that by (simp_all add: config_ok_def)
    then have "length (peers_of (nd k)) = card (set M - {k})" using eq distinct_card by metis
    also have "\<dots> = length M - 1" using \<open>distinct M\<close> that by (simp add: distinct_card)
    finally show "length (peers_of (nd k)) = length M - 1" .
  qed
  have len: "0 < length M" using assms(2) by (cases M) auto
  have "card (insert i G) = Suc (card G)" "card (insert j H) = Suc (card H)"
    using fin assms(4,6) c(1) [OF assms(2)] c(1) [OF assms(3)] by (auto intro: card_insert_disjoint)
  moreover have "(int (length M) - 1 + 1) div 2 + 1 \<le> 1 + int (card G)" "(int (length M) - 1 + 1) div 2 + 1 \<le> 1 + int (card H)"
    using assms(5,7) c(2) [OF assms(2)] c(2) [OF assms(3)] len by (simp_all add: quorum_def of_nat_diff)
  ultimately have "length M < card (insert i G) + card (insert j H)" by linarith
  moreover have "insert i G \<subseteq> set M" "insert j H \<subseteq> set M"
    using assms(2-4,6) c(1) by auto
  moreover have "card (set M) = length M" using assms(1) by (simp add: config_ok_def distinct_card)
  ultimately show ?thesis
    using card_Un_disjoint [of "insert i G" "insert j H"] card_mono [of "set M" "insert i G \<union> insert j H"] fin
    by (metis Un_least finite_insert finite_set not_le)
qed

text \<open>Two winners of the same term are the same node.\<close>

lemma one_winner:
  assumes "config_ok M nd" and "calls_ok M nd vc" and "votes_unique vc"
    and "has_won nd vc i t" and "has_won nd vc j t"
  shows "i = j"
proof -
  obtain p G where i: "vc i t p \<noteq> VNone" "G \<subseteq> set (peers_of (nd i))" "\<forall>p \<in> G. granted (vc i t p)"
    "quorum (nd i) \<le> 1 + int (card G)" using assms(4) counted_granted by (auto simp: has_won_def)
  obtain q H where j: "vc j t q \<noteq> VNone" "H \<subseteq> set (peers_of (nd j))" "\<forall>p \<in> H. granted (vc j t p)"
    "quorum (nd j) \<le> 1 + int (card H)" using assms(5) counted_granted by (auto simp: has_won_def)
  have "i \<in> set M" "j \<in> set M" using assms(2) i(1) j(1) by (auto simp: calls_ok_def)
  then obtain v where "v \<in> insert i G" "v \<in> insert j H"
    using quorum_meet [OF assms(1) _ _ i(2,4) j(2,4)] by blast
  then show ?thesis using i(1,3) j(1,3) assms(3) unfolding votes_unique_def by blast
qed

subsection \<open>The invariant is kept\<close>

lemma calls_okD:
  assumes "calls_ok M nd vc"
  shows "vc i t p \<noteq> VNone \<Longrightarrow> i \<in> set M" and "vc i t p \<noteq> VNone \<Longrightarrow> p \<in> set (peers_of (nd i))"
    and "vc i t p \<noteq> VNone \<Longrightarrow> bound_to (nd i) t i"
    and "vc i t p = VSent req \<Longrightarrow> rvq_Term req = t \<and> rvq_CandidateID req = i"
    and "granted (vc i t p) \<Longrightarrow> bound_to (nd p) t i" and "granted (vc i t p) \<Longrightarrow> vc i t p \<noteq> VNone"
  using assms unfolding calls_ok_def by auto

lemma votes_quiet:
  assumes ok: "votes_ok M nd vc el vn" and "quiet (nd i) n'"
  shows "votes_ok M (nd(i := n')) vc el vn"
proof -
  let ?nd = "nd(i := n')"
  have parts: "config_ok M nd" "calls_ok M nd vc" "votes_unique vc" "net_ok M vn"
    "\<forall>j. count_ok M nd vc j (el j)" "leaders_ok M nd vc"
    using ok by (auto simp: votes_ok_def)
  have q: "quiet (nd j) (?nd j)" for j using assms(2) by simp
  have same: "peers_of (?nd j) = peers_of (nd j)" "node_id (?nd j) = node_id (nd j)" for j
    using q [of j] by (simp_all add: quiet_def)
  have ne: "j \<noteq> ''''" if "vc j t p \<noteq> VNone" for j t p
    using calls_okD(1) [OF parts(2) that] parts(1) by (auto simp: config_ok_def)
  have "config_ok M ?nd" using parts(1) unfolding config_ok_def same .
  moreover have "calls_ok M ?nd vc"
    unfolding calls_ok_def same
  proof (intro conjI allI impI)
    fix j t p req
    show "bound_to (?nd j) t j" if "vc j t p \<noteq> VNone"
      by (rule bound_to_quiet [OF q calls_okD(3) [OF parts(2) that] ne [OF that]])
    show "bound_to (?nd p) t j" if "granted (vc j t p)"
      using bound_to_quiet [OF q calls_okD(5) [OF parts(2) that]] ne [OF calls_okD(6) [OF parts(2) that]] .
  qed (use calls_okD(1,2,4) [OF parts(2)] in blast)+
  moreover have won: "has_won ?nd vc j t = has_won nd vc j t" for j t
    unfolding has_won_def same quorum_cong [OF same(1)] ..
  have "count_ok M ?nd vc j (el j)" for j
  proof -
    have "state (?nd j) = StateCandidate \<longrightarrow> state (nd j) = StateCandidate \<and> currentTerm (?nd j) = currentTerm (nd j)"
      using q [of j] unfolding quiet_def by blast
    then show ?thesis using spec [OF parts(5), of j] unfolding count_ok_def won same
      by (cases "el j") auto
  qed
  moreover have "leaders_ok M ?nd vc"
    unfolding leaders_ok_def won
  proof (intro ballI impI)
    fix j assume "j \<in> set M" "state (?nd j) = StateLeader"
    moreover from this have "state (nd j) = StateLeader" "currentTerm (?nd j) = currentTerm (nd j)"
      using q [of j] unfolding quiet_def by blast+
    ultimately show "has_won nd vc j (currentTerm (?nd j))" using parts(6) by (simp add: leaders_ok_def)
  qed
  ultimately show ?thesis using parts(3,4) unfolding votes_ok_def by blast
qed

text \<open>A vote call that moves on.\<close>

definition move :: "(string \<Rightarrow> u64 \<Rightarrow> string \<Rightarrow> vote_call) \<Rightarrow> string \<Rightarrow> u64 \<Rightarrow> string \<Rightarrow> vote_call \<Rightarrow>
    string \<Rightarrow> u64 \<Rightarrow> string \<Rightarrow> vote_call" where
  "move vc i t p c = (\<lambda>i' t' p'. if i' = i \<and> t' = t \<and> p' = p then c else vc i' t' p')"

lemma vote_calls_set [simp]: "vote_calls (set_vote_call s i t p c) = move (vote_calls s) i t p c"
  by (simp add: set_vote_call_def move_def fun_eq_iff)

lemma move_cases:
  "move vc i t p c i' t' p' = (if i' = i \<and> t' = t \<and> p' = p then c else vc i' t' p')"
  by (simp add: move_def)

lemma count_ok_mono:
  assumes "count_ok M nd vc i e" and "\<And>t p. vc i t p \<noteq> VNone \<Longrightarrow> vc' i t p \<noteq> VNone"
    and "\<And>t p. counted (vc i t p) \<Longrightarrow> counted (vc' i t p)"
  shows "count_ok M nd vc' i e"
proof (cases e)
  case (Voting t votes awaited)
  note inv = assms(1) [unfolded count_ok_def Voting election.case]
  have "\<exists>p. vc' i t p \<noteq> VNone" using inv assms(2) by (elim conjE exE) (rule exI)
  moreover obtain G where G: "G \<subseteq> set (peers_of (nd i)) - set awaited" "\<forall>p \<in> G. counted (vc i t p)"
    "votes = 1 + int (card G)"
    using inv by (elim conjE exE)
  have "\<forall>p \<in> G. counted (vc' i t p)" using G(2) by (intro ballI assms(3)) (rule bspec)
  then have "\<exists>G \<subseteq> set (peers_of (nd i)) - set awaited. (\<forall>p \<in> G. counted (vc' i t p)) \<and> votes = 1 + int (card G)"
    using G(1,3) by (intro exI [of _ G] conjI)
  ultimately show ?thesis using inv unfolding count_ok_def Voting election.case by (elim conjE) (intro conjI)
next
  case (Elected t)
  have "has_won nd vc i t" using assms(1) by (simp add: count_ok_def Elected)
  then have "has_won nd vc' i t" using has_won_cong [of nd i nd vc t vc', OF HOL.refl assms(2,3)] by blast
  then show ?thesis using assms(1) by (simp add: count_ok_def Elected)
qed (simp add: count_ok_def)

lemma votes_mono:
  assumes ok: "votes_ok M nd vc el vn"
    and "\<And>i t p. vc i t p \<noteq> VNone \<Longrightarrow> vc' i t p \<noteq> VNone"
    and "\<And>i t p. counted (vc i t p) \<Longrightarrow> counted (vc' i t p)"
    and "calls_ok M nd vc'" and "votes_unique vc'"
  shows "votes_ok M nd vc' el vn"
proof -
  have "leaders_ok M nd vc'"
    unfolding leaders_ok_def
  proof (intro ballI impI)
    fix i assume "i \<in> set M" "state (nd i) = StateLeader"
    then have "has_won nd vc i (currentTerm (nd i))" using ok by (simp add: votes_ok_def leaders_ok_def)
    then show "has_won nd vc' i (currentTerm (nd i))" 
      using has_won_cong [of nd i nd vc "currentTerm (nd i)" vc', OF HOL.refl assms(2,3)] by blast
  qed
  moreover have "count_ok M nd vc' i (el i)" for i
    using count_ok_mono [of M nd vc i "el i" vc', OF _ assms(2,3)] ok by (simp add: votes_ok_def)
  ultimately show ?thesis using ok assms(4,5) unfolding votes_ok_def by blast
qed

lemma calls_ok_move:
  assumes calls: "calls_ok M nd vc" and old: "vc i t p \<noteq> VNone"
    and "granted c \<Longrightarrow> bound_to (nd p) t i" and "\<And>req. c = VSent req \<Longrightarrow> rvq_Term req = t \<and> rvq_CandidateID req = i"
  shows "calls_ok M nd (move vc i t p c)"
  unfolding calls_ok_def
proof (intro conjI allI impI)
  fix j u q req
  { assume "move vc i t p c j u q \<noteq> VNone"
    then have "vc j u q \<noteq> VNone" using old by (auto simp: move_cases split: if_splits)
    then show "j \<in> set M" "q \<in> set (peers_of (nd j))" "bound_to (nd j) u j"
      using calls_okD(1-3) [OF calls] by blast+ }
  { assume "move vc i t p c j u q = VSent req"
    then show "rvq_Term req = u" "rvq_CandidateID req = j"
      using assms(4) calls_okD(4) [OF calls] by (auto simp: move_cases split: if_splits) }
  { assume "granted (move vc i t p c j u q)"
    then show "bound_to (nd q) u j"
      using assms(3) calls_okD(5) [OF calls] by (auto simp: move_cases split: if_splits) }
qed

lemma votes_move:
  assumes ok: "votes_ok M nd vc el vn" and old: "vc i t p \<noteq> VNone" and "c \<noteq> VNone"
    and same: "granted c = granted (vc i t p)" and keep: "counted (vc i t p) \<Longrightarrow> counted c"
    and "\<And>req. c = VSent req \<Longrightarrow> rvq_Term req = t \<and> rvq_CandidateID req = i"
  shows "votes_ok M nd (move vc i t p c) el vn"
proof (rule votes_mono [OF ok])
  let ?vc = "move vc i t p c"
  have calls: "calls_ok M nd vc" and unique: "votes_unique vc" using ok by (auto simp: votes_ok_def)
  have none: "?vc j u q = VNone \<longleftrightarrow> vc j u q = VNone" for j u q using old assms(3) by (simp add: move_cases)
  have grant: "granted (?vc j u q) = granted (vc j u q)" for j u q using same by (simp add: move_cases)
  show "vc j u q \<noteq> VNone \<Longrightarrow> ?vc j u q \<noteq> VNone" for j u q using none by simp
  show "counted (vc j u q) \<Longrightarrow> counted (?vc j u q)" for j u q using keep by (auto simp: move_cases)
  show "votes_unique ?vc" using unique unfolding votes_unique_def none grant .
  show "calls_ok M nd ?vc"
    by (rule calls_ok_move [OF calls old _ assms(6)]) (use same calls_okD(5) [OF calls] in auto)
qed

lemma votes_net: "votes_ok M nd vc el vn \<Longrightarrow> p \<in> set M \<Longrightarrow> rvq_CandidateID req \<noteq> '''' \<Longrightarrow>
    votes_ok M nd vc el (insert (p, req) vn)"
  by (auto simp: votes_ok_def net_ok_def)

text \<open>A vote request that is handled and answered.\<close>

lemma votes_answer:
  assumes ok: "votes_ok M nd vc el vn" and sent: "vc i t p = VSent req"
    and run: "HandleRequestVote c (nd p) req = (n', resp)"
  shows "votes_ok M (nd(p := n')) (move vc i t p (VReturned resp)) el vn"
proof (cases "rvp_VoteGranted resp")
  case False
  have q: "quiet (nd p) n'" using quiet_RequestVote [of "nd p" c req] run by simp
  show ?thesis by (rule votes_move [OF votes_quiet [OF ok q]]) (use sent False in simp_all)
next
  case True
  have q: "quiet (nd p) n'" using quiet_RequestVote [of "nd p" c req] run by simp
  let ?nd = "nd(p := n')" and ?vc = "move vc i t p (VReturned resp)"
  have calls: "calls_ok M nd vc" and unique: "votes_unique vc" and conf: "config_ok M nd"
    using ok by (auto simp: votes_ok_def)
  have req: "rvq_Term req = t" "rvq_CandidateID req = i" "i \<in> set M" "p \<in> set (peers_of (nd i))"
    using calls_okD [OF calls, of i t p] sent by auto
  then have ne: "p \<noteq> i" "i \<noteq> ''''" using conf by (auto simp: config_ok_def)
  note vote = HandleRequestVote_cases [OF run, unfolded req(1,2)]
  have new: "currentTerm n' = t" "votedFor n' = i" using vote(1,3,4) True by (auto simp: max_def)
  have free: "currentTerm (nd p) < t \<or> currentTerm (nd p) = t \<and> (votedFor (nd p) = '''' \<or> votedFor (nd p) = i)"
    using vote(3) True by auto
  show ?thesis
  proof (rule votes_mono [OF votes_quiet [OF ok q]])
    show "?vc j u r \<noteq> VNone" if "vc j u r \<noteq> VNone" for j u r using that by (simp add: move_cases)
    show "counted (?vc j u r)" if "counted (vc j u r)" for j u r
      using that sent by (auto simp: move_cases)
    have bound: "j = i" if "bound_to (nd p) t j" "j \<noteq> ''''" for j
      using that free unfolding bound_to_def by auto
    have others: "j = i" if "granted (vc j t p)" for j
    proof (rule bound)
      show "bound_to (nd p) t j" using calls_okD(5) [OF calls that] .
      show "j \<noteq> ''''" using calls_okD(1) [OF calls calls_okD(6) [OF calls that]] conf by (auto simp: config_ok_def)
    qed
    have not_started: "vc p t r = VNone" for r
    proof (rule ccontr)
      assume "vc p t r \<noteq> VNone"
      then have "bound_to (nd p) t p" "p \<in> set M" using calls_okD(1,3) [OF calls] by blast+
      then show False using bound ne(1) conf by (auto simp: config_ok_def)
    qed
    show "votes_unique ?vc"
      unfolding votes_unique_def
    proof (intro conjI allI impI)
      fix a b u r
      assume "granted (?vc a u r)" "granted (?vc b u r)"
      moreover have "d = i" if "granted (?vc d t p)" for d
        using that others by (cases "d = i") (simp_all add: move_cases)
      moreover have "?vc d u r = vc d u r" if "\<not> (u = t \<and> r = p)" for d
        using that by (auto simp: move_cases)
      ultimately show "a = b" using unique unfolding votes_unique_def by (cases "u = t \<and> r = p") metis+
    next
      fix a b u r
      assume "?vc a u r \<noteq> VNone"
      then have started: "vc a u r \<noteq> VNone" using sent by (auto simp: move_cases split: if_splits)
      then have "\<not> (u = t \<and> a = p)" using not_started by blast
      moreover have "\<not> granted (vc b u a)" using started unique unfolding votes_unique_def by blast
      ultimately show "\<not> granted (?vc b u a)" by (auto simp: move_cases)
    qed
    show "calls_ok M ?nd ?vc"
    proof (rule calls_ok_move)
      show "calls_ok M ?nd vc" using votes_quiet [OF ok q] by (simp add: votes_ok_def)
      show "vc i t p \<noteq> VNone" using sent by simp
      show "granted (VReturned resp) \<Longrightarrow> bound_to (?nd p) t i" using new by (simp add: bound_to_def)
    qed simp
  qed
qed

lemma votes_election:
  "votes_ok M nd vc el vn \<Longrightarrow> count_ok M nd vc i e \<Longrightarrow> votes_ok M nd vc (el(i := e)) vn"
  by (simp add: votes_ok_def)

lemma less_plus1: "(a :: u64) < - 1 \<Longrightarrow> a < a + 1"
  using unat_plus1_less [of a "- 1"] by (simp add: word_less_nat_alt)

text \<open>The start of an election.\<close>

lemma votes_start:
  assumes ok: "votes_ok M nd vc el vn" and i: "i \<in> set M" and fit: "currentTerm (nd i) < - 1"
    and run: "startElection c (nd i) = (n', t)"
    and vc': "vc' = vc(i := (vc i)(t := (\<lambda>p. if p \<in> set (peers_of (nd i)) then VSpawned else VNone)))"
    and e: "e = (if peers_of (nd i) = [] then NoElection else Voting t 1 (peers_of (nd i)))"
  shows "votes_ok M (nd(i := n')) vc' (el(i := e)) vn"
proof -
  let ?nd = "nd(i := n')"
  have parts: "config_ok M nd" "calls_ok M nd vc" "votes_unique vc" "net_ok M vn"
    "\<forall>j. count_ok M nd vc j (el j)" "leaders_ok M nd vc"
    using ok by (auto simp: votes_ok_def)
  have n': "t = currentTerm (nd i) + 1" "currentTerm n' = t" "votedFor n' = node_id (nd i)" "state n' = StateCandidate"
    "node_id n' = node_id (nd i)" "peers_of n' = peers_of (nd i)"
    using run by (auto simp: startElection_def Let_def)
  have id: "node_id (nd i) = i" "i \<noteq> ''''" using parts(1) i by (auto simp: config_ok_def)
  have lt: "currentTerm (nd i) < t" unfolding n'(1) by (rule less_plus1 [OF fit])
  have old: "\<not> bound_to (nd i) t b" for b using lt by (auto simp: bound_to_def dest: order.asym)
  have none: "vc i t p = VNone" for p using calls_okD(3) [OF parts(2), of i t p] old by blast
  have free: "\<not> granted (vc j t i)" for j using calls_okD(5) [OF parts(2), of j t i] old by blast
  have bound: "bound_to (?nd j) u b" if "bound_to (nd j) u b" for j u b
    using that lt n'(2) by (auto simp: bound_to_def dest: order.strict_trans)
  have cases': "vc' j u p = (if j = i \<and> u = t then (if p \<in> set (peers_of (nd i)) then VSpawned else VNone) else vc j u p)"
    for j u p unfolding vc' by auto
  have mono: "vc' j u p \<noteq> VNone" if "vc j u p \<noteq> VNone" for j u p using that none cases' by auto
  have grant: "granted (vc' j u p) = granted (vc j u p)" "counted (vc' j u p) = counted (vc j u p)" for j u p
    using none cases' by auto
  have same: "peers_of (?nd j) = peers_of (nd j)" "node_id (?nd j) = node_id (nd j)" for j using n' by simp_all
  have "config_ok M ?nd" using parts(1) unfolding config_ok_def same .
  moreover have "calls_ok M ?nd vc'"
    unfolding calls_ok_def same
  proof (intro conjI allI impI)
    fix j u p req
    { assume "vc' j u p \<noteq> VNone"
      then have "vc j u p \<noteq> VNone \<or> j = i \<and> u = t \<and> p \<in> set (peers_of (nd i))" using cases' by (auto split: if_splits)
      moreover have "bound_to (?nd i) t i" using n' id by (simp add: bound_to_def)
      ultimately show "j \<in> set M" "p \<in> set (peers_of (nd j))" "bound_to (?nd j) u j"
        using calls_okD(1-3) [OF parts(2)] bound i by blast+ }
    { assume "vc' j u p = VSent req"
      then have "vc j u p = VSent req" using cases' by (auto split: if_splits)
      then show "rvq_Term req = u" "rvq_CandidateID req = j" using calls_okD(4) [OF parts(2)] by blast+ }
    { assume "granted (vc' j u p)"
      then show "bound_to (?nd p) u j" using grant calls_okD(5) [OF parts(2)] bound by blast }
  qed
  moreover have "votes_unique vc'"
    unfolding votes_unique_def grant
  proof (intro conjI allI impI)
    fix j b u p
    show "j = b" if "granted (vc j u p)" "granted (vc b u p)"
      using that parts(3) unfolding votes_unique_def by blast
    show "\<not> granted (vc b u j)" if "vc' j u p \<noteq> VNone"
    proof (cases "j = i \<and> u = t")
      case True
      then show ?thesis using free by blast
    next
      case False
      then have "vc j u p \<noteq> VNone" using that cases' [of j u p] by (simp split: if_splits)
      then show ?thesis using parts(3) unfolding votes_unique_def by blast
    qed
  qed
  moreover have won: "has_won ?nd vc' j u" if "has_won nd vc j u" for j u
    by (rule has_won_cong [of ?nd j nd vc u vc']) (use same mono grant that in auto)
  have "leaders_ok M ?nd vc'"
    using parts(6) won n'(4) unfolding leaders_ok_def by simp
  moreover have "count_ok M ?nd vc' j ((el(i := e)) j)" for j
  proof (cases "j = i")
    case True
    have "distinct (peers_of (nd i))" using parts(1) i by (simp add: config_ok_def)
    moreover have "\<exists>p. vc' i t p \<noteq> VNone" if "peers_of (nd i) \<noteq> []"
      using that cases' [of i t "hd (peers_of (nd i))"] by (intro exI [of _ "hd (peers_of (nd i))"]) simp
    ultimately show ?thesis
      using True i n' unfolding count_ok_def e by (auto intro!: exI [of _ "{}"])
  next
    case False
    have "count_ok M nd vc' j (el j)"
      by (rule count_ok_mono [of M nd vc j "el j" vc']) (use parts(5) mono grant in auto)
    then show ?thesis using False by (simp add: count_ok_def has_won_def split: election.splits)
  qed
  ultimately show ?thesis using parts(4) unfolding votes_ok_def by blast
qed

text \<open>One response is counted.\<close>

definition next_election :: "u64 \<Rightarrow> string list \<Rightarrow> ballot \<Rightarrow> election" where
  "next_election t rest b =
     (case b of
        Abandoned \<Rightarrow> NoElection
      | Counting v \<Rightarrow> (if rest = [] then NoElection else Voting t v rest)
      | Won \<Rightarrow> Elected t)"

lemma votes_count:
  assumes ok: "votes_ok M nd vc el vn" and voting: "el i = Voting t votes awaited" and p: "p \<in> set awaited"
    and ret: "vc i t p = VReturned resp" and run: "onVoteResponse c (nd i) t votes resp = (n', b)"
    and vc': "vc' = (if b = Abandoned then vc else move vc i t p (VCounted resp))"
  shows "votes_ok M (nd(i := n')) vc' (el(i := next_election t (remove1 p awaited) b)) vn"
proof (cases "b = Abandoned")
  case True
  have "quiet (nd i) n'" using quiet_VoteResponse [of "nd i" c t votes resp] run by simp
  then show ?thesis
    using votes_election [OF votes_quiet [OF ok]] True unfolding vc' by (simp add: next_election_def count_ok_def)
next
  case False
  have "votes_ok M (nd(i := n')) (move vc i t p (VCounted resp)) (el(i := next_election t (remove1 p awaited) b)) vn"
  proof (rule votes_election)
    let ?nd = "nd(i := n')" and ?vc = "move vc i t p (VCounted resp)"
    have q: "quiet (nd i) n'" using quiet_VoteResponse [of "nd i" c t votes resp] run by simp
    show "votes_ok M ?nd ?vc el vn"
      by (rule votes_move [OF votes_quiet [OF ok q]]) (use ret in simp_all)
    have "count_ok M nd vc i (el i)" using ok by (simp add: votes_ok_def)
    then obtain G where inv: "i \<in> set M" "distinct awaited" "G \<subseteq> set (peers_of (nd i)) - set awaited"
      "\<forall>p \<in> G. counted (vc i t p)" "votes = 1 + int (card G)"
      unfolding count_ok_def voting election.case by (elim conjE exE)
    have vc': "counted (?vc i t r) = (if r = p then rvp_VoteGranted resp else counted (vc i t r))" for r
      by (simp add: move_cases)
    have some: "?vc i t p \<noteq> VNone" by (simp add: move_cases)
    have peer: "p \<in> set (peers_of (nd i))" using ok ret calls_okD(2) [of M nd vc i t p] by (simp add: votes_ok_def)
    have rest: "set (remove1 p awaited) = set awaited - {p}" "distinct (remove1 p awaited)" using inv(2) by simp_all
    define G' where "G' = (if rvp_VoteGranted resp then insert p G else G)"
    have G': "G' \<subseteq> set (peers_of (nd i)) - set (remove1 p awaited)" "\<forall>r \<in> G'. counted (?vc i t r)"
      using inv(3,4) p peer rest(1) by (auto simp: G'_def vc')
    have "finite G" using inv(3) finite_subset by blast
    moreover have "p \<notin> G" using inv(3) p by blast
    ultimately have card: "int (card G') = (if rvp_VoteGranted resp then 1 else 0) + int (card G)"
      by (simp add: G'_def)
    show "count_ok M ?nd ?vc i (next_election t (remove1 p awaited) b)"
    proof (cases b)
      case Abandoned
      then show ?thesis using False by simp
    next
      case (Counting v)
      then have "n' = nd i" "currentTerm (nd i) = t" "v = 1 + int (card G')"
        using run inv(5) card by (auto simp: onVoteResponse_def Let_def split: if_splits)
      moreover from this have "\<exists>G \<subseteq> set (peers_of (nd i)) - set (remove1 p awaited).
          (\<forall>r \<in> G. counted (?vc i t r)) \<and> v = 1 + int (card G)"
        using G' by blast
      moreover have "\<exists>r. ?vc i t r \<noteq> VNone" using some ..
      ultimately show ?thesis
        using Counting inv(1) rest(2) unfolding next_election_def count_ok_def by simp
    next
      case Won
      then have w: "n' = nd i" "currentTerm (nd i) = t" "quorum (nd i) \<le> 1 + int (card G')"
        using run inv(5) card by (auto simp: onVoteResponse_def Let_def split: if_splits)
      moreover have "G' \<subseteq> set (peers_of (nd i))" using G'(1) by blast
      ultimately have "has_won ?nd ?vc i t"
        unfolding has_won_def using G'(2) some by (intro conjI exI [of _ p] exI [of _ G']) simp_all
      then show ?thesis using Won w inv(1) by (simp add: next_election_def count_ok_def)
    qed
  qed
  then show ?thesis using False unfolding vc' by simp
qed

lemma votes_leader:
  assumes ok: "votes_ok M nd vc el vn" and "el i = Elected t"
  shows "votes_ok M (nd(i := becomeLeader (nd i))) vc (el(i := NoElection)) vn"
proof -
  let ?nd = "nd(i := becomeLeader (nd i))"
  have parts: "config_ok M nd" "calls_ok M nd vc" "votes_unique vc" "net_ok M vn"
    "\<forall>j. count_ok M nd vc j (el j)" "leaders_ok M nd vc"
    using ok by (auto simp: votes_ok_def)
  have same: "peers_of (?nd j) = peers_of (nd j)" "node_id (?nd j) = node_id (nd j)"
    "currentTerm (?nd j) = currentTerm (nd j)" "votedFor (?nd j) = votedFor (nd j)" for j
    by (simp_all add: becomeLeader_def)
  have won: "has_won ?nd vc j u = has_won nd vc j u" for j u
    unfolding has_won_def same quorum_cong [OF same(1)] ..
  have bound: "bound_to (?nd j) u b = bound_to (nd j) u b" for j u b
    unfolding bound_to_def same ..
  have el: "has_won nd vc i t" "state (nd i) = StateCandidate \<longrightarrow> currentTerm (nd i) = t"
    using spec [OF parts(5), of i] assms(2) by (simp_all add: count_ok_def)
  have "leaders_ok M ?nd vc"
    using parts(6) el unfolding leaders_ok_def won same by (auto simp: becomeLeader_def split: if_splits)
  moreover have "config_ok M ?nd" using parts(1) unfolding config_ok_def same .
  moreover have "calls_ok M ?nd vc" using parts(2) unfolding calls_ok_def same bound .
  moreover have "count_ok M ?nd vc j ((el(i := NoElection)) j)" for j
    using spec [OF parts(5), of j] unfolding count_ok_def won by (cases "j = i"; cases "el j") simp_all
  ultimately show ?thesis using parts(3,4) unfolding votes_ok_def by blast
qed

subsection \<open>Executions\<close>

definition election_inv :: "Cluster \<Rightarrow> bool" where
  "election_inv s \<longleftrightarrow> votes_ok (members s) (node_at s) (vote_calls s) (election_of s) (vote_net s)"

lemma initial_node:
  assumes "initial s" and "i \<in> set (members s)"
  shows "node_id (node_at s i) = i" "i \<noteq> []" "distinct (peers_of (node_at s i))"
    "set (peers_of (node_at s i)) = set (members s) - {i}" "state (node_at s i) = StateFollower"
    "node_log (node_at s i) = []" "commitIndex (node_at s i) = 0" "lastApplied (node_at s i) = 0"
proof -
  obtain cfg where cfg: "raft_NewNode cfg = Inr (node_at s i)" "cfg_ID cfg = i" "distinct (cfg_Peers cfg)"
    "set (cfg_Peers cfg) = set (members s) - {i}"
    using assms unfolding initial_def by blast
  show "node_id (node_at s i) = i" "i \<noteq> []" "distinct (peers_of (node_at s i))"
    "set (peers_of (node_at s i)) = set (members s) - {i}" "state (node_at s i) = StateFollower"
    "node_log (node_at s i) = []" "commitIndex (node_at s i) = 0" "lastApplied (node_at s i) = 0"
    using raft_NewNode_fields [OF cfg(1)] cfg(2-4) by simp_all
qed

lemma election_inv_initial:
  assumes "initial s"
  shows "election_inv s"
proof -
  have "vote_calls s = (\<lambda>_ _ _. VNone)" "election_of s = (\<lambda>_. NoElection)" "vote_net s = {}" "distinct (members s)"
    using assms by (simp_all add: initial_def)
  then show ?thesis
    using initial_node [OF assms]
    by (simp add: election_inv_def votes_ok_def calls_ok_def votes_unique_def net_ok_def count_ok_def
        leaders_ok_def config_ok_def)
qed

text \<open>Fields that an action leaves alone.\<close>

lemma enqueue_simps [simp]:
  "members (enqueue s i es) = members s" "node_at (enqueue s i es) = node_at s"
  "vote_calls (enqueue s i es) = vote_calls s" "election_of (enqueue s i es) = election_of s"
  "vote_net (enqueue s i es) = vote_net s" "beats (enqueue s i es) = beats s"
  "append_net (enqueue s i es) = append_net s" "proposals (enqueue s i es) = proposals s"
  "append_calls (enqueue s i es) = append_calls s" "beat_replies (enqueue s i es) = beat_replies s"
  by (simp_all add: enqueue_def)

lemma set_vote_call_simps [simp]:
  "members (set_vote_call s i t p c) = members s" "node_at (set_vote_call s i t p c) = node_at s"
  "election_of (set_vote_call s i t p c) = election_of s" "vote_net (set_vote_call s i t p c) = vote_net s"
  "beats (set_vote_call s i t p c) = beats s" "append_net (set_vote_call s i t p c) = append_net s"
  "proposals (set_vote_call s i t p c) = proposals s" "append_calls (set_vote_call s i t p c) = append_calls s"
  by (simp_all add: set_vote_call_def)

lemma set_append_call_simps [simp]:
  "members (set_append_call s k p c) = members s" "node_at (set_append_call s k p c) = node_at s"
  "election_of (set_append_call s k p c) = election_of s" "vote_net (set_append_call s k p c) = vote_net s"
  "vote_calls (set_append_call s k p c) = vote_calls s" "beats (set_append_call s k p c) = beats s"
  "append_net (set_append_call s k p c) = append_net s" "proposals (set_append_call s k p c) = proposals s"
  by (simp_all add: set_append_call_def)

lemma members_exec: "exec a s = Some s' \<Longrightarrow> members s' = members s"
  by (cases a)
    (auto simp: exec_timeout_def exec_read_index_def exec_send_vote_def exec_deliver_vote_def exec_late_vote_def
      exec_fail_vote_def exec_count_vote_def exec_cancel_election_def exec_become_leader_def exec_heartbeat_def
      exec_send_beat_def exec_deliver_append_def exec_beat_reply_def exec_propose_def exec_send_append_def
      exec_answer_append_def exec_fail_append_def exec_count_ack_def exec_cancel_proposal_def exec_apply_def Let_def
      split: if_splits option.splits prod.splits sum.splits vote_call.splits election.splits append_call.splits list.splits)

text \<open>Most actions change one node quietly and leave elections alone.\<close>

definition quiet_step :: "Cluster \<Rightarrow> Cluster \<Rightarrow> bool" where
  "quiet_step s s' \<longleftrightarrow> members s' = members s \<and> vote_calls s' = vote_calls s \<and>
     election_of s' = election_of s \<and> vote_net s' = vote_net s \<and>
     (\<exists>i n'. quiet (node_at s i) n' \<and> node_at s' = (node_at s)(i := n'))"

lemma quiet_step_inv: "election_inv s \<Longrightarrow> quiet_step s s' \<Longrightarrow> election_inv s'"
  unfolding election_inv_def quiet_step_def using votes_quiet by metis

lemma quiet_stepI:
  assumes "members s' = members s" "vote_calls s' = vote_calls s" "election_of s' = election_of s"
    "vote_net s' = vote_net s" "node_at s' = (node_at s)(i := n')" "quiet (node_at s i) n'"
  shows "quiet_step s s'"
  using assms unfolding quiet_step_def by blast

lemma quiet_step_same:
  assumes "members s' = members s" "vote_calls s' = vote_calls s" "election_of s' = election_of s"
    "vote_net s' = vote_net s" "node_at s' = node_at s"
  shows "quiet_step s s'"
  by (rule quiet_stepI [of s' s undefined "node_at s undefined"]) (use assms in simp_all)

lemma quiet_actions:
  "exec_late_vote p vreq c s = Some s' \<Longrightarrow> quiet_step s s'"
  "exec_heartbeat i now s = Some s' \<Longrightarrow> quiet_step s s'"
  "exec_send_beat i t p x y s = Some s' \<Longrightarrow> quiet_step s s'"
  "exec_deliver_append p req now c s = Some s' \<Longrightarrow> quiet_step s s'"
  "exec_beat_reply i t reply c s = Some s' \<Longrightarrow> quiet_step s s'"
  "exec_propose i cmd s = Some s' \<Longrightarrow> quiet_step s s'"
  "exec_send_append k p s = Some s' \<Longrightarrow> quiet_step s s'"
  "exec_answer_append k p now c s = Some s' \<Longrightarrow> quiet_step s s'"
  "exec_fail_append k p s = Some s' \<Longrightarrow> quiet_step s s'"
  "exec_count_ack k p s = Some s' \<Longrightarrow> quiet_step s s'"
  "exec_cancel_proposal k s = Some s' \<Longrightarrow> quiet_step s s'"
  "exec_apply i n s = Some s' \<Longrightarrow> quiet_step s s'"
proof -
  show "quiet_step s s'" if "exec_late_vote p vreq c s = Some s'"
    by (rule quiet_stepI [of s' s p "fst (HandleRequestVote c (node_at s p) vreq)"])
      (use that quiet_RequestVote in \<open>auto simp: exec_late_vote_def split: if_splits\<close>)
  show "quiet_step s s'" if "exec_heartbeat i now s = Some s'"
    by (rule quiet_stepI [of s' s i "fst (sendHeartbeats now (node_at s i))"])
      (use that quiet_sendHeartbeats in \<open>auto simp: exec_heartbeat_def split: if_splits prod.splits option.splits\<close>)
  show "quiet_step s s'" if "exec_send_beat i t p x y s = Some s'"
    by (rule quiet_step_same) (use that in \<open>auto simp: exec_send_beat_def Let_def split: if_splits\<close>)
  show "quiet_step s s'" if run: "exec_deliver_append p req now c s = Some s'"
  proof (cases "HandleAppendEntries now c (node_at s p) req")
    case None
    then show ?thesis using run by (intro quiet_step_same) (auto simp: exec_deliver_append_def split: if_splits)
  next
    case (Some r)
    obtain n' resp es where r: "r = (n', resp, es)" by (cases r) auto
    show ?thesis
      by (rule quiet_stepI [of s' s p n'])
        (use run Some r quiet_AppendEntries [of now c "node_at s p" req n' resp es] in
          \<open>auto simp: exec_deliver_append_def split: if_splits\<close>)
  qed
  show "quiet_step s s'" if "exec_beat_reply i t reply c s = Some s'"
    by (rule quiet_stepI [of s' s i "onHeartbeatResponse c (node_at s i) t reply"])
      (use that quiet_HeartbeatResponse in \<open>auto simp: exec_beat_reply_def split: if_splits\<close>)
  show "quiet_step s s'" if run: "exec_propose i cmd s = Some s'"
  proof (cases "Propose (node_at s i) cmd")
    case (Inl e)
    then show ?thesis using run by (intro quiet_step_same) (auto simp: exec_propose_def Let_def split: if_splits)
  next
    case (Inr r)
    obtain n' pr where r: "r = (n', pr)" by fastforce
    show ?thesis
      by (rule quiet_stepI [of s' s i n'])
        (use run Inr r quiet_Propose [of "node_at s i" cmd n' pr] in
          \<open>auto simp: exec_propose_def Let_def split: if_splits\<close>)
  qed
  show "quiet_step s s'" if "exec_send_append k p s = Some s'"
    by (rule quiet_step_same)
      (use that in \<open>auto simp: exec_send_append_def Let_def split: option.splits append_call.splits\<close>)
  show "quiet_step s s'" if run: "exec_answer_append k p now c s = Some s'"
  proof -
    obtain req where req: "append_calls s k p = ASent req"
      using run by (auto simp: exec_answer_append_def split: append_call.splits)
    show ?thesis
    proof (cases "HandleAppendEntries now c (node_at s p) req")
      case None
      then show ?thesis using run req by (intro quiet_step_same) (auto simp: exec_answer_append_def)
    next
      case (Some r)
      obtain n' resp es where r: "r = (n', resp, es)" by (cases r) auto
      show ?thesis
        by (rule quiet_stepI [of s' s p n'])
          (use run req Some r quiet_AppendEntries [of now c "node_at s p" req n' resp es] in
            \<open>auto simp: exec_answer_append_def\<close>)
    qed
  qed
  show "quiet_step s s'" if "exec_fail_append k p s = Some s'"
    by (rule quiet_step_same) (use that in \<open>auto simp: exec_fail_append_def split: append_call.splits\<close>)
  show "quiet_step s s'" if run: "exec_count_ack k p s = Some s'"
  proof -
    obtain th resp where th: "proposals s k = Some th" "append_calls s k p = AReturned resp"
      using run by (auto simp: exec_count_ack_def split: option.splits append_call.splits)
    show ?thesis
    proof (cases "onAppendResponse (node_at s (fst k)) (pt_proposal th) (pt_acks th) resp")
      case None
      then show ?thesis using run th by (intro quiet_step_same) (auto simp: exec_count_ack_def Let_def split: if_splits)
    next
      case (Some r)
      obtain n' result where r: "r = (n', result)" by fastforce
      show ?thesis
        by (rule quiet_stepI [of s' s "fst k" n'])
          (use run th Some r quiet_AppendResponse [of "node_at s (fst k)" "pt_proposal th" "pt_acks th" resp n' result] in
            \<open>auto simp: exec_count_ack_def Let_def split: if_splits\<close>)
    qed
  qed
  show "quiet_step s s'" if "exec_cancel_proposal k s = Some s'"
    by (rule quiet_step_same) (use that in \<open>auto simp: exec_cancel_proposal_def split: option.splits if_splits\<close>)
  show "quiet_step s s'" if "exec_apply i n s = Some s'"
    by (rule quiet_step_same) (use that in \<open>auto simp: exec_apply_def split: if_splits list.splits\<close>)
qed

lemma election_inv_exec:
  assumes inv: "election_inv s" and run: "exec a s = Some s'"
  shows "election_inv s'"
proof -
  note ok = inv [unfolded election_inv_def]
  show ?thesis
  proof (cases a)
    case (Timeout i c)
    then have run: "exec_timeout i c s = Some s'" using run by simp
    let ?n = "node_at s i"
    have guard: "i \<in> set (members s)" "currentTerm ?n < - 1"
      using run by (auto simp: exec_timeout_def Let_def split: if_splits)
    obtain n' t where el: "startElection c ?n = (n', t)" by fastforce
    show ?thesis
    proof (cases "onElectionTimeout ?n")
      case True
      then show ?thesis
        using run el guard votes_start [OF ok guard el HOL.refl HOL.refl]
        by (auto simp: election_inv_def exec_timeout_def Let_def split: if_splits)
    next
      case False
      then have "quiet_step s s'"
        using run guard by (intro quiet_stepI [of s' s i "resetElectionTimer c ?n"])
          (auto simp: exec_timeout_def Let_def split: if_splits)
      then show ?thesis by (rule quiet_step_inv [OF inv])
    qed
  next
    case (ReadIndex i t p)
    then show ?thesis
      using run
      by (auto simp: election_inv_def exec_read_index_def intro!: votes_move [OF ok] split: vote_call.splits)
  next
    case (SendVote i t p)
    then obtain idx where call: "vote_calls s i t p = VRead idx"
      using run by (auto simp: exec_send_vote_def split: vote_call.splits)
    let ?req = "voteRequest (node_at s i) t idx (lastLogTerm (node_at s i))"
    have calls: "calls_ok (members s) (node_at s) (vote_calls s)" and conf: "config_ok (members s) (node_at s)"
      using ok by (simp_all add: votes_ok_def)
    have i: "i \<in> set (members s)" "p \<in> set (peers_of (node_at s i))" using calls_okD(1,2) [OF calls, of i t p] call by simp_all
    then have id: "node_id (node_at s i) = i" "i \<noteq> ''''" "p \<in> set (members s)" using conf by (auto simp: config_ok_def)
    have "votes_ok (members s) (node_at s) (move (vote_calls s) i t p (VSent ?req)) (election_of s)
        (insert (p, ?req) (vote_net s))"
      by (rule votes_net [OF votes_move [OF ok]]) (use call id in \<open>simp_all add: voteRequest_def\<close>)
    then show ?thesis using run SendVote call by (auto simp: election_inv_def exec_send_vote_def Let_def)
  next
    case (DeliverVote i t p c)
    then obtain req where call: "vote_calls s i t p = VSent req"
      using run by (auto simp: exec_deliver_vote_def split: vote_call.splits)
    obtain n' resp where h: "HandleRequestVote c (node_at s p) req = (n', resp)" by fastforce
    show ?thesis
      using votes_answer [OF ok call h] run DeliverVote call h
      by (auto simp: election_inv_def exec_deliver_vote_def)
  next
    case (FailVote i t p)
    then show ?thesis
      using run
      by (auto simp: election_inv_def exec_fail_vote_def intro!: votes_move [OF ok] split: vote_call.splits)
  next
    case (CountVote i p c)
    then obtain t votes awaited resp where st: "election_of s i = Voting t votes awaited" "vote_calls s i t p = VReturned resp"
      "p \<in> set awaited"
      using run by (auto simp: exec_count_vote_def split: election.splits vote_call.splits if_splits)
    obtain n' b where h: "onVoteResponse c (node_at s i) t votes resp = (n', b)" by fastforce
    show ?thesis
      using votes_count [OF ok st(1,3,2) h HOL.refl] run CountVote st h
      by (auto simp: election_inv_def exec_count_vote_def next_election_def Let_def)
  next
    case (CancelElection i)
    then show ?thesis
      using run votes_election [OF ok, of i NoElection]
      by (auto simp: election_inv_def exec_cancel_election_def count_ok_def split: election.splits)
  next
    case (BecomeLeader i)
    then show ?thesis
      using run votes_leader [OF ok, of i]
      by (auto simp: election_inv_def exec_become_leader_def split: election.splits)
  qed (use run in \<open>auto dest!: quiet_actions [THEN quiet_step_inv [OF inv]]\<close>)
qed

lemma election_inv_steps: "steps s s' \<Longrightarrow> election_inv s \<Longrightarrow> election_inv s'"
  by (induction rule: steps.induct) (auto intro: election_inv_exec)

lemma reachable_election_inv: "reachable s \<Longrightarrow> election_inv s"
  using election_inv_initial election_inv_steps by (auto simp: reachable_def)

text \<open>A majority stays a majority.\<close>

lemma peers_exec:
  assumes "election_inv s" and "exec a s = Some s'" and "i \<in> set (members s)"
  shows "length (peers_of (node_at s' i)) = length (peers_of (node_at s i))"
    and "set (peers_of (node_at s' i)) = set (peers_of (node_at s i))"
proof -
  have m: "members s' = members s" by (rule members_exec [OF assms(2)])
  have "config_ok (members s) (node_at s)" "config_ok (members s) (node_at s')"
    using assms(1) election_inv_exec [OF assms(1,2)] m by (auto simp: election_inv_def votes_ok_def)
  then have p: "set (peers_of (node_at s' i)) = set (peers_of (node_at s i))"
    "distinct (peers_of (node_at s' i))" "distinct (peers_of (node_at s i))"
    using assms(3) by (auto simp: config_ok_def)
  then show "length (peers_of (node_at s' i)) = length (peers_of (node_at s i))"
    "set (peers_of (node_at s' i)) = set (peers_of (node_at s i))"
    using distinct_card by metis+
qed

lemma vote_calls_exec:
  assumes "election_inv s" and "exec a s = Some s'"
  shows "vote_calls s i t p \<noteq> VNone \<Longrightarrow> vote_calls s' i t p \<noteq> VNone"
    and "granted (vote_calls s i t p) \<Longrightarrow> granted (vote_calls s' i t p)"
    and "counted (vote_calls s i t p) \<Longrightarrow> counted (vote_calls s' i t p)"
proof -
  have "vote_calls s i t p = VNone \<or> vote_calls s' i t p \<noteq> VNone \<and>
      (granted (vote_calls s i t p) \<longrightarrow> granted (vote_calls s' i t p)) \<and>
      (counted (vote_calls s i t p) \<longrightarrow> counted (vote_calls s' i t p))"
  proof (cases "\<exists>i c. a = Timeout i c")
    case True
    then obtain j c where a: "a = Timeout j c" by blast
    let ?n = "node_at s j" and ?t = "currentTerm (node_at s j) + 1"
    have fit: "currentTerm ?n < - 1" using assms(2) a by (auto simp: exec_timeout_def Let_def split: if_splits)
    have "calls_ok (members s) (node_at s) (vote_calls s)" using assms(1) by (simp add: election_inv_def votes_ok_def)
    from calls_okD(3) [OF this, of j ?t p] have none: "vote_calls s j ?t p = VNone"
      using less_plus1 [OF fit] unfolding bound_to_def by (metis order.asym order.strict_implies_not_eq)
    have "vote_calls s' i t p = vote_calls s i t p \<or> i = j \<and> t = ?t"
      using assms(2) a by (auto simp: exec_timeout_def startElection_def Let_def split: if_splits)
    then show ?thesis using none by auto
  next
    case False
    then have "vote_calls s' = vote_calls s \<or> (\<exists>j u q c. vote_calls s' = move (vote_calls s) j u q c \<and> c \<noteq> VNone \<and>
        (granted (vote_calls s j u q) \<longrightarrow> granted c) \<and> (counted (vote_calls s j u q) \<longrightarrow> counted c))"
      using assms(2)
    proof (cases a)
      case (ReadIndex j u q)
      then show ?thesis using assms(2)
        by (intro disjI2 exI [of _ j] exI [of _ u] exI [of _ q]) (auto simp: exec_read_index_def split: vote_call.splits)
    next
      case (SendVote j u q)
      then show ?thesis using assms(2)
        by (intro disjI2 exI [of _ j] exI [of _ u] exI [of _ q])
          (auto simp: exec_send_vote_def Let_def split: vote_call.splits)
    next
      case (DeliverVote j u q c)
      then show ?thesis using assms(2)
        by (intro disjI2 exI [of _ j] exI [of _ u] exI [of _ q])
          (auto simp: exec_deliver_vote_def Let_def split: vote_call.splits prod.splits)
    next
      case (FailVote j u q)
      then show ?thesis using assms(2)
        by (intro disjI2 exI [of _ j] exI [of _ u] exI [of _ q]) (auto simp: exec_fail_vote_def split: vote_call.splits)
    next
      case (CountVote j q c)
      then obtain u v aw resp where st: "election_of s j = Voting u v aw" "vote_calls s j u q = VReturned resp"
        using assms(2) by (auto simp: exec_count_vote_def split: election.splits vote_call.splits if_splits)
      obtain n' b where "onVoteResponse c (node_at s j) u v resp = (n', b)" by fastforce
      then have "vote_calls s' = (if b = Abandoned then vote_calls s else move (vote_calls s) j u q (VCounted resp))"
        using assms(2) CountVote st by (auto simp: exec_count_vote_def Let_def split: if_splits)
      then show ?thesis
      proof (cases "b = Abandoned")
        case False
        then show ?thesis
          using \<open>vote_calls s' = _\<close> st(2)
          by (intro disjI2 exI [of _ j] exI [of _ u] exI [of _ q] exI [of _ "VCounted resp"]) simp
      qed simp
    next
      case (CancelElection j)
      then show ?thesis using assms(2) by (auto simp: exec_cancel_election_def split: election.splits)
    next
      case (BecomeLeader j)
      then show ?thesis using assms(2) by (auto simp: exec_become_leader_def split: election.splits)
    qed (use assms(2) in \<open>auto dest!: quiet_actions simp: quiet_step_def\<close>)
    then show ?thesis by (auto simp: move_cases split: if_splits)
  qed
  then show "vote_calls s i t p \<noteq> VNone \<Longrightarrow> vote_calls s' i t p \<noteq> VNone"
    and "granted (vote_calls s i t p) \<Longrightarrow> granted (vote_calls s' i t p)"
    and "counted (vote_calls s i t p) \<Longrightarrow> counted (vote_calls s' i t p)"
    by auto
qed

lemma won_exec:
  assumes "election_inv s" and "exec a s = Some s'" and "has_won (node_at s) (vote_calls s) i t"
  shows "has_won (node_at s') (vote_calls s') i t"
proof -
  obtain p G where w: "vote_calls s i t p \<noteq> VNone" "G \<subseteq> set (peers_of (node_at s i))"
    "\<forall>p \<in> G. counted (vote_calls s i t p)" "quorum (node_at s i) \<le> 1 + int (card G)"
    using assms(3) by (auto simp: has_won_def)
  have "calls_ok (members s) (node_at s) (vote_calls s)" using assms(1) by (simp add: election_inv_def votes_ok_def)
  then have i: "i \<in> set (members s)" using w(1) calls_okD(1) by blast
  have "quorum (node_at s' i) = quorum (node_at s i)" using peers_exec(1) [OF assms(1,2) i] by (simp add: quorum_def)
  then show ?thesis
    unfolding has_won_def using w peers_exec(2) [OF assms(1,2) i] vote_calls_exec [OF assms(1,2)]
    by (intro conjI exI [of _ p] exI [of _ G]) auto
qed

lemma won_steps:
  "steps s s' \<Longrightarrow> election_inv s \<Longrightarrow> has_won (node_at s) (vote_calls s) i t \<Longrightarrow>
     has_won (node_at s') (vote_calls s') i t"
proof (induction rule: steps.induct)
  case (step s s' a s'')
  then show ?case using won_exec election_inv_steps by blast
qed

lemma leader_has_won:
  assumes "election_inv s" and "i \<in> set (members s)" and "state (node_at s i) = StateLeader"
  shows "has_won (node_at s) (vote_calls s) i (currentTerm (node_at s i))"
  using assms by (simp add: election_inv_def votes_ok_def leaders_ok_def)

lemma one_winner_inv:
  assumes "election_inv s" and "has_won (node_at s) (vote_calls s) i t" and "has_won (node_at s) (vote_calls s) j t"
  shows "i = j"
  using assms one_winner unfolding election_inv_def votes_ok_def by blast

lemma members_steps: "steps s s' \<Longrightarrow> members s' = members s"
  by (induction rule: steps.induct) (auto dest: members_exec)

text \<open>
  C2: election safety. In every execution of a group of coordinators, with messages lost, delayed
  and repeated in any way, there is at most one leader in each term: a node that is leader of a
  term at some point and a node that is leader of that term at the same or any later point are
  the same node.
\<close>

theorem election_safety:
  assumes "reachable s" and "steps s s'"
    and "i \<in> set (members s)" and "state (node_at s i) = StateLeader"
    and "j \<in> set (members s)" and "state (node_at s' j) = StateLeader"
    and "currentTerm (node_at s i) = currentTerm (node_at s' j)"
  shows "i = j"
proof -
  have inv: "election_inv s" "election_inv s'"
    using reachable_election_inv [OF assms(1)] election_inv_steps [OF assms(2)] by blast+
  have "has_won (node_at s') (vote_calls s') i (currentTerm (node_at s' j))"
    using won_steps [OF assms(2) inv(1) leader_has_won [OF inv(1) assms(3,4)]] assms(7) by simp
  moreover have "has_won (node_at s') (vote_calls s') j (currentTerm (node_at s' j))"
    using leader_has_won [OF inv(2)] assms(5,6) members_steps [OF assms(2)] by simp
  ultimately show ?thesis by (rule one_winner_inv [OF inv(2)])
qed

lemma example_elected:
  "case run (elect ''a'' 1 [''b'']) (example_cluster [''a'', ''b'', ''c'']) of
     None \<Rightarrow> False
   | Some s \<Rightarrow> members s = [''a'', ''b'', ''c''] \<and> state (node_at s ''a'') = StateLeader \<and>
       (case run [Heartbeat ''a'' 7] s of
          None \<Rightarrow> False
        | Some s' \<Rightarrow> state (node_at s' ''a'') = StateLeader \<and> currentTerm (node_at s' ''a'') = currentTerm (node_at s ''a''))"
  by code_simp

theorem election_safety_witness:
  "\<exists>s s' i j. reachable s \<and> steps s s' \<and> i \<in> set (members s) \<and> j \<in> set (members s) \<and>
     state (node_at s i) = StateLeader \<and> state (node_at s' j) = StateLeader \<and>
     currentTerm (node_at s i) = currentTerm (node_at s' j) \<and> i = j"
proof -
  obtain s s' where run: "run (elect ''a'' 1 [''b'']) (example_cluster [''a'', ''b'', ''c'']) = Some s"
    "run [Heartbeat ''a'' 7] s = Some s'" and e: "members s = [''a'', ''b'', ''c'']"
    "state (node_at s ''a'') = StateLeader" "state (node_at s' ''a'') = StateLeader"
    "currentTerm (node_at s ''a'') = currentTerm (node_at s' ''a'')"
    using example_elected by (auto split: option.splits)
  have h: "reachable s" "steps s s'" "''a'' \<in> set (members s)"
    using reachable_example [OF run(1)] run_steps [OF run(2)] e(1) by simp_all
  have "''a'' = ''a''" by (rule election_safety [OF h(1,2,3) e(2) h(3) e(3,4)])
  then show ?thesis using h e by (intro exI [of _ s] exI [of _ s'] exI [of _ "''a''"]) simp
qed

end
