(* ===== verification/RaftPaths.thy ===== *)
theory RaftPaths
  imports RaftNode
begin

text \<open>
  Logs as paths. A proposal is an entry that a leader appended in its term at an index, together with
  the term of the entry before it; a log is a path if each of its entries was proposed at its index
  after the entry before it. This theory is about paths alone: two paths with the same term at an
  index agree up to it, the entry of a request extends a path or is already on it, and an entry that
  a majority has accepted is on the path of every later leader. The theory of the group shows that
  the logs of its nodes are paths.
\<close>

section \<open>Paths\<close>

text \<open>\<open>Q T k e t\<close>: the entry \<open>e\<close> was proposed in term \<open>T\<close> at index \<open>k\<close>, after an entry of term \<open>t\<close>.\<close>

type_synonym proposed_at = "u64 \<Rightarrow> nat \<Rightarrow> LogEntry \<Rightarrow> u64 \<Rightarrow> bool"

definition last_term :: "LogEntry list \<Rightarrow> u64" where
  "last_term L = (if L = [] then 0 else le_Term (last L))"

definition holds :: "LogEntry list \<Rightarrow> u64 \<Rightarrow> nat \<Rightarrow> bool" where
  "holds L T k \<longleftrightarrow> 0 < k \<and> k \<le> length L \<and> le_Term (L ! (k - 1)) = T"

definition path :: "proposed_at \<Rightarrow> LogEntry list \<Rightarrow> bool" where
  "path Q L \<longleftrightarrow> (\<forall>j < length L. Q (le_Term (L ! j)) (Suc j) (L ! j) (last_term (take j L)))"

text \<open>
  A proposal follows a path whose entries have no later terms, and which holds the earlier proposals of
  the same term.
\<close>

definition props_ok :: "proposed_at \<Rightarrow> bool" where
  "props_ok Q \<longleftrightarrow>
     (\<forall>T k e t e' t'. Q T k e t \<longrightarrow> Q T k e' t' \<longrightarrow> e' = e \<and> t' = t) \<and>
     (\<forall>T k e t. Q T k e t \<longrightarrow> T \<noteq> 0 \<and> le_Term e = T \<and>
        (\<exists>B. path Q B \<and> Suc (length B) = k \<and> last_term B = t \<and> (\<forall>x \<in> set B. le_Term x \<le> T) \<and>
           (\<forall>j e' t'. j < k \<longrightarrow> Q T j e' t' \<longrightarrow> holds B T j)))"

lemma last_term_take: "0 < k \<Longrightarrow> k \<le> length L \<Longrightarrow> last_term (take k L) = le_Term (L ! (k - 1))"
  by (cases "take k L = []") (auto simp: last_term_def last_conv_nth min_def)

lemma last_term_snoc [simp]: "last_term (L @ [e]) = le_Term e"
  by (simp add: last_term_def)

lemma holds_take: "holds (take n L) T k \<longleftrightarrow> holds L T k \<and> k \<le> n"
  by (auto simp: holds_def)

lemma holds_prefix: "take (length L) L' = L \<Longrightarrow> holds L T k \<Longrightarrow> holds L' T k"
  using holds_take [of "length L" L'] by simp

lemma path_Nil [simp]: "path Q []"
  by (simp add: path_def)

lemma path_take: "path Q L \<Longrightarrow> path Q (take n L)"
  by (auto simp: path_def min_def)

lemma path_snoc:
  "path Q (L @ [e]) \<longleftrightarrow> path Q L \<and> Q (le_Term e) (Suc (length L)) e (last_term L)"
  by (auto simp: path_def nth_append less_Suc_eq)

lemma path_mono: "path Q L \<Longrightarrow> (\<And>T k e t. Q T k e t \<Longrightarrow> Q' T k e t) \<Longrightarrow> path Q' L"
  by (simp add: path_def)

lemma path_nth: "path Q L \<Longrightarrow> holds L T k \<Longrightarrow> Q T k (L ! (k - 1)) (last_term (take (k - 1) L))"
  by (cases k) (auto simp: path_def holds_def)

lemma path_last: "path Q L \<Longrightarrow> L \<noteq> [] \<Longrightarrow> Q (last_term L) (length L) (last L) (last_term (butlast L))"
  using path_snoc [of Q "butlast L" "last L"] by (simp add: last_term_def)

lemma props_okD:
  assumes "props_ok Q" and "Q T k e t"
  shows "Q T k e' t' \<Longrightarrow> e' = e \<and> t' = t" and "T \<noteq> 0" and "le_Term e = T"
    and "\<exists>B. path Q B \<and> Suc (length B) = k \<and> last_term B = t \<and> (\<forall>x \<in> set B. le_Term x \<le> T) \<and>
      (\<forall>j e' t'. j < k \<longrightarrow> Q T j e' t' \<longrightarrow> holds B T j)"
  using assms unfolding props_ok_def by blast+

subsection \<open>Paths that meet\<close>

text \<open>Two paths with the same term at an index agree up to it.\<close>

lemma path_match:
  assumes "props_ok Q" and "path Q L" and "path Q L'"
  shows "holds L T k \<Longrightarrow> holds L' T k \<Longrightarrow> take k L = take k L'"
proof (induction k arbitrary: T)
  case (Suc k)
  have q: "Q T (Suc k) (L ! k) (last_term (take k L))" "Q T (Suc k) (L' ! k) (last_term (take k L'))"
    using path_nth [OF assms(2) Suc.prems(1)] path_nth [OF assms(3) Suc.prems(2)] by simp_all
  then have e: "L' ! k = L ! k" "last_term (take k L') = last_term (take k L)"
    using props_okD(1) [OF assms(1) q(1)] by blast+
  have len: "k < length L" "k < length L'" using Suc.prems by (auto simp: holds_def)
  have "take k L = take k L'"
  proof (cases k)
    case (Suc j)
    then have "holds L (le_Term (L ! j)) k" "holds L' (le_Term (L' ! j)) k" "le_Term (L' ! j) = le_Term (L ! j)"
      using len e(2) last_term_take [of k L] last_term_take [of k L'] by (simp_all add: holds_def)
    then show ?thesis using Suc.IH by simp
  qed simp
  then show ?case using len e(1) by (simp add: take_Suc_conv_app_nth)
qed (simp add: holds_def)

lemma holds_last: "L \<noteq> [] \<Longrightarrow> holds L (last_term L) (length L)"
  by (simp add: holds_def last_term_def last_conv_nth Suc_leI)

lemma path_eq:
  assumes "props_ok Q" and "path Q L" and "path Q L'" and "length L = length L'" and "last_term L = last_term L'"
  shows "L = L'"
proof (cases "L = []")
  case False
  moreover from this have "L' \<noteq> []" using assms(4) by auto
  ultimately have "holds L (last_term L) (length L)" "holds L' (last_term L) (length L)"
    using holds_last [of L] holds_last [of L'] assms(4,5) by auto
  then have "take (length L) L = take (length L) L'" by (rule path_match [OF assms(1-3)])
  then show ?thesis using assms(4) by simp
qed (use assms(4) in simp)

text \<open>The path before a proposal is determined by its length and last term.\<close>

lemma path_base:
  assumes "props_ok Q" and "Q T k e t" and "path Q L" and "Suc (length L) = k" and "last_term L = t"
  shows "x \<in> set L \<Longrightarrow> le_Term x \<le> T" and "j < k \<Longrightarrow> Q T j e' t' \<Longrightarrow> holds L T j"
proof -
  obtain B where B: "path Q B" "Suc (length B) = k" "last_term B = t" "\<forall>x \<in> set B. le_Term x \<le> T"
    "\<forall>j e' t'. j < k \<longrightarrow> Q T j e' t' \<longrightarrow> holds B T j"
    using props_okD(4) [OF assms(1,2)] by blast
  have "B = L" by (rule path_eq [OF assms(1) B(1) assms(3)]) (use B(2,3) assms(4,5) in auto)
  then show "x \<in> set L \<Longrightarrow> le_Term x \<le> T" and "j < k \<Longrightarrow> Q T j e' t' \<Longrightarrow> holds L T j"
    using B(4,5) by blast+
qed

lemma path_holds_base:
  assumes "props_ok Q" and "path Q L" and "holds L T k"
  shows "x \<in> set (take k L) \<Longrightarrow> le_Term x \<le> T" and "j \<le> k \<Longrightarrow> Q T j e' t' \<Longrightarrow> holds L T j"
proof -
  note q = path_nth [OF assms(2,3)]
  have k: "0 < k" "k \<le> length L" "le_Term (L ! (k - 1)) = T" using assms(3) by (auto simp: holds_def)
  then have len: "Suc (length (take (k - 1) L)) = k" by simp
  note base = path_base [OF assms(1) q path_take [OF assms(2)] len HOL.refl]
  have "take k L = take (k - 1) L @ [L ! (k - 1)]" using k by (metis Suc_pred' less_le_trans take_Suc_conv_app_nth Suc_le_eq)
  then show "x \<in> set (take k L) \<Longrightarrow> le_Term x \<le> T" using base(1) k(3) by auto
  show "j \<le> k \<Longrightarrow> Q T j e' t' \<Longrightarrow> holds L T j"
    using base(2) [of j] assms(3) by (cases "j = k") (auto simp: holds_take)
qed

lemma path_last_term:
  assumes "props_ok Q" and "path Q L" and "holds L T k"
  shows "T \<le> last_term L"
proof -
  have "L \<noteq> []" "L ! (k - 1) \<in> set (take (length L) L)" "le_Term (L ! (k - 1)) = T"
    using assms(3) by (auto simp: holds_def)
  then show ?thesis using path_holds_base(1) [OF assms(1,2) holds_last] by blast
qed

lemma path_term_nonzero: "props_ok Q \<Longrightarrow> path Q L \<Longrightarrow> holds L T k \<Longrightarrow> T \<noteq> 0"
  using path_nth props_okD(2) by blast

text \<open>Of two paths that end in the same term, the shorter is the beginning of the other.\<close>

lemma path_same_term:
  assumes "props_ok Q" and "path Q L" and "path Q L'" and "L \<noteq> []" and "last_term L = last_term L'"
    and "length L \<le> length L'"
  shows "take (length L) L' = L"
proof -
  have "L' \<noteq> []" using assms(4,6) by auto
  then have "holds L' (last_term L) (length L')" using holds_last [of L'] assms(5) by simp
  moreover have "Q (last_term L) (length L) (last L) (last_term (butlast L))" by (rule path_last [OF assms(2,4)])
  ultimately have "holds L' (last_term L) (length L)"
    using path_holds_base(2) [OF assms(1,3)] assms(6) by blast
  then show ?thesis using path_match [OF assms(1-3) holds_last [OF assms(4)]] by simp
qed

subsection \<open>Accepting an entry\<close>

text \<open>There is a path that ends in term \<open>U\<close> and does not hold the entry of term \<open>T\<close> at \<open>k\<close>.\<close>

definition bypassed :: "proposed_at \<Rightarrow> u64 \<Rightarrow> u64 \<Rightarrow> nat \<Rightarrow> bool" where
  "bypassed Q U T k \<longleftrightarrow> (\<exists>L. path Q L \<and> L \<noteq> [] \<and> last_term L = U \<and> \<not> holds L T k)"

lemma bypassed_mono: "bypassed Q U T k \<Longrightarrow> (\<And>T k e t. Q T k e t \<Longrightarrow> Q' T k e t) \<Longrightarrow> bypassed Q' U T k"
  unfolding bypassed_def using path_mono by blast

lemma accept_entry:
  assumes "props_ok Q" and "path Q L" and "Q U (Suc j) e t" and "j \<le> length L"
    and "j = 0 \<or> le_Term (L ! (j - 1)) = t"
  shows "path Q (overwrite L j [e])" and "holds (overwrite L j [e]) U (Suc j)"
    and "holds L T k \<Longrightarrow> T \<le> U \<Longrightarrow> holds (overwrite L j [e]) T k \<or> T < U \<and> bypassed Q U T k"
    and "x \<in> set (overwrite L j [e]) \<Longrightarrow> x \<in> set L \<or> le_Term x = U"
proof -
  have e: "le_Term e = U" by (rule props_okD(3) [OF assms(1,3)])
  obtain B where B: "path Q B" "length B = j" "last_term B = t"
    using props_okD(4) [OF assms(1,3)] by auto
  have "last_term (take j L) = t"
  proof (cases "j = 0")
    case True
    then show ?thesis using B(2,3) by (simp add: last_term_def)
  next
    case False
    then show ?thesis using assms(4,5) last_term_take [of j L] by simp
  qed
  then have base: "take j L = B" using path_eq [OF assms(1) path_take [OF assms(2)] B(1)] assms(4) B(2,3) by simp
  show "path Q (overwrite L j [e])"
    using assms(2,3) base B e by (auto simp: path_snoc)
  show "holds (overwrite L j [e]) U (Suc j)"
    using assms(4) e by (auto simp: holds_def nth_append)
  show "x \<in> set (overwrite L j [e]) \<Longrightarrow> x \<in> set L \<or> le_Term x = U"
    using e by (auto dest: in_set_takeD split: if_splits)
  show "holds (overwrite L j [e]) T k \<or> T < U \<and> bypassed Q U T k" if h: "holds L T k" "T \<le> U"
  proof (cases "j < length L \<and> le_Term (L ! j) = U")
    case False
    let ?new = "take j L @ [e]"
    have new: "overwrite L j [e] = ?new" using False e by auto
    have p: "path Q ?new" using \<open>path Q (overwrite L j [e])\<close> new by simp
    show ?thesis
    proof (cases "T = U")
      case True
      have "\<not> Suc j \<le> k"
      proof
        assume "Suc j \<le> k"
        then have "holds L U (Suc j)" using path_holds_base(2) [OF assms(1,2) h(1)] assms(3) True by blast
        then show False using False by (simp add: holds_def)
      qed
      moreover have "holds ?new U k" using \<open>\<not> Suc j \<le> k\<close> h(1) True assms(4) by (auto simp: holds_def nth_append)
      ultimately show ?thesis using True new by simp
    next
      case ne: False
      have "bypassed Q U T k" if "\<not> holds ?new T k"
        unfolding bypassed_def using p that e by (intro exI [of _ ?new]) simp
      then show ?thesis using h(2) ne new by (auto simp: order.order_iff_strict)
    qed
  qed (use h in \<open>simp add: e\<close>)
qed

subsection \<open>Leader completeness\<close>

definition up_to_date :: "LogEntry list \<Rightarrow> LogEntry list \<Rightarrow> bool" where
  "up_to_date L V \<longleftrightarrow> last_term V < last_term L \<or> last_term V = last_term L \<and> length V \<le> length L"

text \<open>
  An entry at \<open>k\<close> of term \<open>T\<close> is in the log \<open>g i t\<close> with which a later election was won, if among the voters
  there is always one that had accepted it, and that held it when it voted, or had dropped it for
  an entry of a term between.
\<close>

lemma completeness:
  assumes ok: "props_ok Q"
    and ext: "\<And>L. path Q L \<Longrightarrow> L \<noteq> [] \<Longrightarrow> \<exists>l. won l (last_term L) \<and> take (length (g l (last_term L))) L = g l (last_term L)"
    and g: "\<And>i t. won i t \<Longrightarrow> path Q (g i t) \<and> (\<forall>x \<in> set (g i t). le_Term x < t)"
    and voter: "\<And>i t. won i t \<Longrightarrow> T < t \<Longrightarrow>
      (\<exists>U. T < U \<and> U < t \<and> bypassed Q U T k) \<or> (\<exists>V. path Q V \<and> holds V T k \<and> up_to_date (g i t) V)"
  shows "won i t \<Longrightarrow> T < t \<Longrightarrow> holds (g i t) T k"
proof (induction "unat t" arbitrary: i t rule: less_induct)
  case less
  have later: "holds L T k" if L: "path Q L" "L \<noteq> []" "T < last_term L" "last_term L < t" for L
  proof -
    obtain l where l: "won l (last_term L)" "take (length (g l (last_term L))) L = g l (last_term L)"
      using ext [OF L(1,2)] by blast
    have "holds (g l (last_term L)) T k"
      using less.hyps [of "last_term L" l] l(1) L(3,4) by (simp add: word_less_nat_alt)
    then show ?thesis by (rule holds_prefix [OF l(2)])
  qed
  have p: "path Q (g i t)" "\<forall>x \<in> set (g i t). le_Term x < t" using g [OF less.prems(1)] by blast+
  from voter [OF less.prems] show ?case
  proof
    assume "\<exists>U. T < U \<and> U < t \<and> bypassed Q U T k"
    then show ?thesis using later unfolding bypassed_def by blast
  next
    assume "\<exists>V. path Q V \<and> holds V T k \<and> up_to_date (g i t) V"
    then obtain V where V: "path Q V" "holds V T k" "up_to_date (g i t) V" by blast
    have T: "T \<le> last_term V" "V \<noteq> []" using path_last_term [OF ok V(1,2)] V(2) by (auto simp: holds_def)
    show ?thesis
    proof (cases "last_term V = last_term (g i t)")
      case True
      then have "length V \<le> length (g i t)" using V(3) by (simp add: up_to_date_def)
      then show ?thesis using path_same_term [OF ok V(1) p(1) T(2) True] V(2) holds_prefix by blast
    next
      case False
      then have "last_term V < last_term (g i t)" using V(3) by (simp add: up_to_date_def)
      then have "T < last_term (g i t)" "g i t \<noteq> []" using T(1) by (auto simp: last_term_def)
      moreover have "last_term (g i t) < t" using p(2) \<open>g i t \<noteq> []\<close> by (simp add: last_term_def)
      ultimately show ?thesis using later [OF p(1)] by blast
    qed
  qed
qed

end
