(* ===== verification/RaftLog.thy ===== *)
theory RaftLog
  imports RaftElection RaftPaths
begin

text \<open>
  Replicated logs. The invariant says that the logs of a group are paths of the proposals that its
  leaders made, that requests carry proposals, and that a node which has accepted an entry holds it
  unless an entry of a later term replaced it; the log with which a node starts an election is kept
  as a history variable. From it follow log matching, the completeness of leaders for entries that
  a majority has accepted, and that no node ever reads its log out of range.
\<close>

section \<open>The invariant of the logs\<close>

type_synonym prop_map = "proposal_key \<Rightarrow> Proposal option"

type_synonym starts = "string \<Rightarrow> u64 \<Rightarrow> LogEntry list"

definition proposed :: "prop_map \<Rightarrow> proposed_at" where
  "proposed pp T k e t \<longleftrightarrow> k < 2 ^ 62 \<and>
     (\<exists>l pr. pp (l, T, word_of_nat k) = Some pr \<and> pr_entry pr = e \<and> pr_prevTerm pr = t)"

definition acked :: "append_call \<Rightarrow> bool" where
  "acked c = (case c of AReturned r \<Rightarrow> aep_Success r | ACounted r \<Rightarrow> aep_Success r | _ \<Rightarrow> False)"

lemma acked_simps [simp]:
  "\<not> acked ANone" "\<not> acked ASpawned" "\<not> acked (ASent req)"
  "acked (AReturned r) = aep_Success r" "acked (ACounted r) = aep_Success r"
  by (simp_all add: acked_def)

text \<open>A node accepts an entry when it proposes it, or when it answers a request for it.\<close>

definition accepted :: "prop_map \<Rightarrow> (proposal_key \<Rightarrow> string \<Rightarrow> append_call) \<Rightarrow> string \<Rightarrow> u64 \<Rightarrow> nat \<Rightarrow> bool" where
  "accepted pp ac q T k \<longleftrightarrow> k < 2 ^ 62 \<and>
     (pp (q, T, word_of_nat k) \<noteq> None \<or> (\<exists>l. acked (ac (l, T, word_of_nat k) q)))"

definition log_ok :: "prop_map \<Rightarrow> starts \<Rightarrow> string \<Rightarrow> Node \<Rightarrow> bool" where
  "log_ok pp g i n \<longleftrightarrow> path (proposed pp) (node_log n) \<and> commitIndex n \<le> lastApplied n \<and>
     (\<forall>x \<in> set (node_log n). le_Term x \<le> currentTerm n) \<and>
     (state n \<noteq> StateFollower \<longrightarrow> currentTerm n \<noteq> 0) \<and>
     (state n = StateCandidate \<longrightarrow> node_log n = g i (currentTerm n)) \<and>
     (state n = StateLeader \<longrightarrow>
        take (length (g i (currentTerm n))) (node_log n) = g i (currentTerm n) \<and>
        (\<forall>k. pp (i, currentTerm n, k) \<noteq> None \<longrightarrow> holds (node_log n) (currentTerm n) (unat k)))"

text \<open>A proposal was made by the leader of its term, on top of the log it was elected with.\<close>

definition prop_ok :: "string list \<Rightarrow> (string \<Rightarrow> Node) \<Rightarrow> (string \<Rightarrow> u64 \<Rightarrow> bool) \<Rightarrow> prop_map \<Rightarrow> starts \<Rightarrow> bool" where
  "prop_ok M nd won pp g \<longleftrightarrow> (\<forall>l T k pr. pp (l, T, k) = Some pr \<longrightarrow>
     l \<in> set M \<and> won l T \<and> le_Term (pr_entry pr) = T \<and> pr_newIndex pr = k \<and>
     unat k = Suc (unat (pr_prevIndex pr)) \<and> unat k < 2 ^ 62 \<and>
     T \<le> currentTerm (nd l) \<and> (T = currentTerm (nd l) \<longrightarrow> state (nd l) \<noteq> StateCandidate) \<and>
     (\<exists>B. path (proposed pp) B \<and> length B = unat (pr_prevIndex pr) \<and> last_term B = pr_prevTerm pr \<and>
        take (length (g l T)) B = g l T))"

definition starts_ok :: "prop_map \<Rightarrow> starts \<Rightarrow> bool" where
  "starts_ok pp g \<longleftrightarrow> (\<forall>i t. path (proposed pp) (g i t) \<and> (\<forall>x \<in> set (g i t). le_Term x < t))"

definition carries :: "Proposal \<Rightarrow> AppendEntriesRequest \<Rightarrow> bool" where
  "carries pr req \<longleftrightarrow> aeq_Term req = le_Term (pr_entry pr) \<and> aeq_Entries req = [pr_entry pr] \<and>
     aeq_PrevLogIndex req = pr_prevIndex pr \<and> aeq_PrevLogTerm req = pr_prevTerm pr"

definition reqs_ok :: "string list \<Rightarrow> (string \<Rightarrow> Node) \<Rightarrow> prop_map \<Rightarrow> (string \<times> AppendEntriesRequest) set \<Rightarrow>
    (proposal_key \<Rightarrow> string \<Rightarrow> append_call) \<Rightarrow> bool" where
  "reqs_ok M nd pp an ac \<longleftrightarrow>
     (\<forall>p req. (p, req) \<in> an \<longrightarrow> p \<in> set M \<and> (aeq_Entries req = [] \<or> (\<exists>key pr. pp key = Some pr \<and> carries pr req))) \<and>
     (\<forall>key p. ac key p \<noteq> ANone \<longrightarrow> pp key \<noteq> None \<and> p \<in> set (peers_of (nd (fst key)))) \<and>
     (\<forall>key p pr req. ac key p = ASent req \<longrightarrow> pp key = Some pr \<longrightarrow> carries pr req)"

text \<open>A candidate asks for votes with the log with which it started.\<close>

definition cand_ok :: "string list \<Rightarrow> (string \<Rightarrow> Node) \<Rightarrow> (string \<Rightarrow> u64 \<Rightarrow> string \<Rightarrow> vote_call) \<Rightarrow> starts \<Rightarrow> bool" where
  "cand_ok M nd vc g \<longleftrightarrow> (\<forall>i \<in> set M. state (nd i) = StateCandidate \<longrightarrow>
     (\<forall>q. (\<forall>x. vc i (currentTerm (nd i)) q = VRead x \<longrightarrow> x = word_of_nat (length (g i (currentTerm (nd i))))) \<and>
          (\<forall>req. vc i (currentTerm (nd i)) q = VSent req \<longrightarrow>
             rvq_LastLogIndex req = word_of_nat (length (g i (currentTerm (nd i)))) \<and>
             rvq_LastLogTerm req = last_term (g i (currentTerm (nd i))))))"

text \<open>
  Voter \<open>q\<close> supports the election of \<open>i\<close> in \<open>t\<close>: each entry of an earlier term that \<open>q\<close> has accepted
  was in a log that is not ahead of the log of \<open>i\<close>, or has been bypassed in a term between.
\<close>

definition supports :: "prop_map \<Rightarrow> (proposal_key \<Rightarrow> string \<Rightarrow> append_call) \<Rightarrow> starts \<Rightarrow> string \<Rightarrow> u64 \<Rightarrow> string \<Rightarrow> bool" where
  "supports pp ac g i t q \<longleftrightarrow> (\<forall>T k. accepted pp ac q T k \<longrightarrow> T < t \<longrightarrow>
     (\<exists>U. T < U \<and> U < t \<and> bypassed (proposed pp) U T k) \<or>
     (\<exists>V. path (proposed pp) V \<and> holds V T k \<and> up_to_date (g i t) V))"

definition voters_ok :: "string list \<Rightarrow> (string \<Rightarrow> Node) \<Rightarrow> (string \<Rightarrow> u64 \<Rightarrow> string \<Rightarrow> vote_call) \<Rightarrow> (string \<Rightarrow> u64 \<Rightarrow> bool) \<Rightarrow>
    prop_map \<Rightarrow> (proposal_key \<Rightarrow> string \<Rightarrow> append_call) \<Rightarrow> starts \<Rightarrow> bool" where
  "voters_ok M nd vc won pp ac g \<longleftrightarrow>
     (\<forall>i t p. vc i t p \<noteq> VNone \<longrightarrow> supports pp ac g i t i) \<and>
     (\<forall>i t q. won i t \<longrightarrow> counted (vc i t q) \<longrightarrow> supports pp ac g i t q) \<and>
     (\<forall>i \<in> set M. state (nd i) = StateCandidate \<longrightarrow> (\<forall>l. won l (currentTerm (nd i)) \<longrightarrow> l = i) \<longrightarrow>
        (\<forall>q. granted (vc i (currentTerm (nd i)) q) \<longrightarrow> supports pp ac g i (currentTerm (nd i)) q))"

text \<open>What a node has accepted it holds, or it has bypassed it.\<close>

definition accept_ok :: "string list \<Rightarrow> (string \<Rightarrow> Node) \<Rightarrow> prop_map \<Rightarrow> (proposal_key \<Rightarrow> string \<Rightarrow> append_call) \<Rightarrow> bool" where
  "accept_ok M nd pp ac \<longleftrightarrow> (\<forall>q \<in> set M. \<forall>T k. accepted pp ac q T k \<longrightarrow> T \<le> currentTerm (nd q) \<and>
     (holds (node_log (nd q)) T k \<or> (\<exists>U. T < U \<and> U \<le> currentTerm (nd q) \<and> bypassed (proposed pp) U T k)))"

definition log_parts :: "string list \<Rightarrow> (string \<Rightarrow> Node) \<Rightarrow> (string \<Rightarrow> u64 \<Rightarrow> string \<Rightarrow> vote_call) \<Rightarrow> prop_map \<Rightarrow>
    (string \<times> AppendEntriesRequest) set \<Rightarrow> (proposal_key \<Rightarrow> string \<Rightarrow> append_call) \<Rightarrow> starts \<Rightarrow> bool" where
  "log_parts M nd vc pp an ac g \<longleftrightarrow> props_ok (proposed pp) \<and> (\<forall>i \<in> set M. log_ok pp g i (nd i)) \<and>
     prop_ok M nd (has_won nd vc) pp g \<and> starts_ok pp g \<and> reqs_ok M nd pp an ac \<and> cand_ok M nd vc g \<and>
     voters_ok M nd vc (has_won nd vc) pp ac g \<and> accept_ok M nd pp ac"

lemma log_partsD:
  assumes "log_parts M nd vc pp an ac g"
  shows "props_ok (proposed pp)" and "i \<in> set M \<Longrightarrow> log_ok pp g i (nd i)"
    and "prop_ok M nd (has_won nd vc) pp g" and "starts_ok pp g" and "reqs_ok M nd pp an ac"
    and "cand_ok M nd vc g" and "voters_ok M nd vc (has_won nd vc) pp ac g" and "accept_ok M nd pp ac"
  using assms by (auto simp: log_parts_def)

lemma prop_okD:
  assumes "prop_ok M nd won pp g" and "pp (l, T, k) = Some pr"
  shows "l \<in> set M" and "won l T" and "le_Term (pr_entry pr) = T" and "pr_newIndex pr = k"
    and "unat k = Suc (unat (pr_prevIndex pr))" and "unat k < 2 ^ 62" and "T \<le> currentTerm (nd l)"
    and "T = currentTerm (nd l) \<Longrightarrow> state (nd l) \<noteq> StateCandidate"
    and "\<exists>B. path (proposed pp) B \<and> length B = unat (pr_prevIndex pr) \<and> last_term B = pr_prevTerm pr \<and>
      take (length (g l T)) B = g l T"
  using assms unfolding prop_ok_def by blast+

lemma reqs_okD:
  assumes "reqs_ok M nd pp an ac"
  shows "(p, req) \<in> an \<Longrightarrow> p \<in> set M"
    and "(p, req) \<in> an \<Longrightarrow> aeq_Entries req = [] \<or> (\<exists>key pr. pp key = Some pr \<and> carries pr req)"
    and "ac key p \<noteq> ANone \<Longrightarrow> pp key \<noteq> None" and "ac key p \<noteq> ANone \<Longrightarrow> p \<in> set (peers_of (nd (fst key)))"
    and "ac key p = ASent req \<Longrightarrow> pp key = Some pr \<Longrightarrow> carries pr req"
  using assms unfolding reqs_ok_def by blast+

subsection \<open>Small facts\<close>

lemma lastLogTerm_eq: "lastLogTerm n = last_term (node_log n)"
  by (simp add: lastLogTerm_def last_term_def last_conv_nth)

lemma isLogUpToDate_eq:
  assumes "length (node_log n) < 2 ^ 62" and "length L < 2 ^ 62"
  shows "isLogUpToDate n (word_of_nat (length L)) (last_term L) \<longleftrightarrow> up_to_date L (node_log n)"
  using assms unat_word_of_length [of L] unat_word_of_length [of "node_log n"]
  by (simp add: isLogUpToDate_lex up_to_date_def lastLogTerm_eq lastLogIndex_def word_le_nat_alt)

lemma unat_word_small: "k < 2 ^ 62 \<Longrightarrow> unat (word_of_nat k :: u64) = k"
  using unat_word_of_length [of "replicate k ()"] by simp

lemma proposed_bound: "proposed pp T k e t \<Longrightarrow> k < 2 ^ 62"
  by (simp add: proposed_def)

lemma path_bound: "path (proposed pp) L \<Longrightarrow> length L < 2 ^ 62"
  using path_last [of "proposed pp" L] proposed_bound by (cases "L = []") auto

lemma proposed_key:
  assumes "prop_ok M nd won pp g" and "pp (l, T, k) = Some pr"
  shows "proposed pp T (unat k) (pr_entry pr) (pr_prevTerm pr)"
  using prop_okD(6) [OF assms] assms(2) unfolding proposed_def by auto

lemma up_to_date_refl: "up_to_date L L"
  by (simp add: up_to_date_def)

lemma node_ok_log: "log_ok pp g i n \<Longrightarrow> node_ok n"
  using path_bound by (auto simp: log_ok_def node_ok_def)

subsection \<open>Nodes that keep their logs\<close>

lemma quietD:
  assumes "quiet n n'"
  shows "currentTerm n \<le> currentTerm n'" and "peers_of n' = peers_of n" and "node_id n' = node_id n"
    and "state n' = StateCandidate \<Longrightarrow> state n = StateCandidate"
    and "state n' = StateCandidate \<Longrightarrow> currentTerm n' = currentTerm n"
    and "state n' = StateLeader \<Longrightarrow> state n = StateLeader"
    and "state n' = StateLeader \<Longrightarrow> currentTerm n' = currentTerm n"
  using assms unfolding quiet_def by blast+

lemma log_ok_quiet:
  assumes "log_ok pp g i n" and "quiet n n'" and "node_log n' = node_log n" and "commitIndex n' \<le> lastApplied n'"
  shows "log_ok pp g i n'"
proof -
  have "\<forall>x \<in> set (node_log n). le_Term x \<le> currentTerm n'"
    using assms(1) quietD(1) [OF assms(2)] order_trans by (fastforce simp: log_ok_def)
  moreover have "state n' = StateFollower \<or> state n' = state n \<and> currentTerm n' = currentTerm n"
    using quietD(4-7) [OF assms(2)] by (cases "state n'") simp_all
  ultimately show ?thesis
    using assms(1,3,4) unfolding log_ok_def by (elim disjE) auto
qed

lemma has_won_peers:
  assumes "\<And>j. peers_of (nd' j) = peers_of (nd j)"
  shows "has_won nd' vc = has_won nd vc"
  by (intro ext) (simp add: has_won_def quorum_def assms)

text \<open>The parts that look at a node only through its term and state.\<close>

definition calmer :: "(string \<Rightarrow> Node) \<Rightarrow> (string \<Rightarrow> Node) \<Rightarrow> bool" where
  "calmer nd nd' \<longleftrightarrow> (\<forall>j. currentTerm (nd j) \<le> currentTerm (nd' j) \<and> peers_of (nd' j) = peers_of (nd j) \<and>
     (state (nd' j) = StateCandidate \<longrightarrow> state (nd j) = StateCandidate \<and> currentTerm (nd' j) = currentTerm (nd j)))"

lemma calmerD:
  assumes "calmer nd nd'"
  shows "currentTerm (nd j) \<le> currentTerm (nd' j)" and "peers_of (nd' j) = peers_of (nd j)"
    and "state (nd' j) = StateCandidate \<Longrightarrow> state (nd j) = StateCandidate"
    and "state (nd' j) = StateCandidate \<Longrightarrow> currentTerm (nd' j) = currentTerm (nd j)"
  using assms unfolding calmer_def by blast+

lemma calmer_quiet: "quiet (nd i) n' \<Longrightarrow> calmer nd (nd(i := n'))"
  using quietD [of "nd i" n'] by (simp add: calmer_def)

lemma prop_ok_calmer:
  assumes "prop_ok M nd won pp g" and "calmer nd nd'"
  shows "prop_ok M nd' won pp g"
  unfolding prop_ok_def
proof (intro allI impI)
  fix l T k pr assume pr: "pp (l, T, k) = Some pr"
  note old = prop_okD [OF assms(1) pr]
  have "T \<le> currentTerm (nd' l)" using old(7) calmerD(1) [OF assms(2)] by (rule order_trans)
  moreover have "state (nd' l) \<noteq> StateCandidate" if "T = currentTerm (nd' l)"
    using old(8) calmerD(3,4) [OF assms(2)] that by auto
  ultimately show "l \<in> set M \<and> won l T \<and> le_Term (pr_entry pr) = T \<and> pr_newIndex pr = k \<and>
     unat k = Suc (unat (pr_prevIndex pr)) \<and> unat k < 2 ^ 62 \<and>
     T \<le> currentTerm (nd' l) \<and> (T = currentTerm (nd' l) \<longrightarrow> state (nd' l) \<noteq> StateCandidate) \<and>
     (\<exists>B. path (proposed pp) B \<and> length B = unat (pr_prevIndex pr) \<and> last_term B = pr_prevTerm pr \<and>
        take (length (g l T)) B = g l T)"
    using old by blast
qed

lemma reqs_ok_calmer:
  assumes "reqs_ok M nd pp an ac" and "calmer nd nd'"
  shows "reqs_ok M nd' pp an ac"
  using assms(1) unfolding reqs_ok_def calmerD(2) [OF assms(2)] .

lemma cand_ok_calmer:
  assumes "cand_ok M nd vc g" and "calmer nd nd'"
  shows "cand_ok M nd' vc g"
  unfolding cand_ok_def
proof (intro ballI impI)
  fix i assume i: "i \<in> set M" "state (nd' i) = StateCandidate"
  show "\<forall>q. (\<forall>x. vc i (currentTerm (nd' i)) q = VRead x \<longrightarrow> x = word_of_nat (length (g i (currentTerm (nd' i))))) \<and>
      (\<forall>req. vc i (currentTerm (nd' i)) q = VSent req \<longrightarrow>
         rvq_LastLogIndex req = word_of_nat (length (g i (currentTerm (nd' i)))) \<and>
         rvq_LastLogTerm req = last_term (g i (currentTerm (nd' i))))"
    using assms(1) i calmerD(3,4) [OF assms(2) i(2)] unfolding cand_ok_def by simp
qed

lemma voters_ok_calmer:
  assumes "voters_ok M nd vc won pp ac g" and "calmer nd nd'"
  shows "voters_ok M nd' vc won pp ac g"
  unfolding voters_ok_def
proof (intro conjI ballI)
  fix i assume i: "i \<in> set M"
  show "state (nd' i) = StateCandidate \<longrightarrow> (\<forall>l. won l (currentTerm (nd' i)) \<longrightarrow> l = i) \<longrightarrow>
      (\<forall>q. granted (vc i (currentTerm (nd' i)) q) \<longrightarrow> supports pp ac g i (currentTerm (nd' i)) q)"
    using assms(1) i calmerD(3,4) [OF assms(2)] unfolding voters_ok_def by simp
qed (use assms(1) in \<open>simp_all add: voters_ok_def\<close>)

lemmas parts_calmer = prop_ok_calmer reqs_ok_calmer cand_ok_calmer voters_ok_calmer

lemma accept_ok_terms:
  assumes "accept_ok M nd pp ac" and "\<And>j. currentTerm (nd j) \<le> currentTerm (nd' j)"
    and "\<And>j. node_log (nd' j) = node_log (nd j)"
  shows "accept_ok M nd' pp ac"
  using assms(1,2) order_trans unfolding accept_ok_def assms(3) by blast

lemma parts_node:
  assumes parts: "log_parts M nd vc pp an ac g" and "quiet (nd i) n'" and "node_log n' = node_log (nd i)"
    and commit: "i \<in> set M \<Longrightarrow> commitIndex n' \<le> lastApplied n'"
  shows "log_parts M (nd(i := n')) vc pp an ac g"
proof -
  let ?nd = "nd(i := n')"
  note d = log_partsD [OF parts]
  have q: "calmer nd ?nd" using calmer_quiet [of nd i n'] assms(2) by blast
  have lg: "node_log (?nd j) = node_log (nd j)" for j using assms(3) by simp
  have won: "has_won ?nd vc = has_won nd vc" by (rule has_won_peers) (rule calmerD(2) [OF q])
  have "log_ok pp g j (?nd j)" if "j \<in> set M" for j
    using d(2) [OF that] log_ok_quiet [OF _ assms(2,3), of pp g] commit that by (cases "j = i") auto
  then show ?thesis
    unfolding log_parts_def won
    using d parts_calmer [OF _ q] accept_ok_terms [OF d(8) calmerD(1) [OF q] lg] by blast
qed

subsection \<open>Elections\<close>

lemma supports_mono:
  assumes "supports pp ac g i t q" and "\<And>T k. T < t \<Longrightarrow> accepted pp' ac' q T k \<Longrightarrow> accepted pp ac q T k"
    and "\<And>T k e t. proposed pp T k e t \<Longrightarrow> proposed pp' T k e t" and "g' i t = g i t"
  shows "supports pp' ac' g' i t q"
  unfolding supports_def assms(4)
proof (intro allI impI)
  fix T k assume "accepted pp' ac' q T k" "T < t"
  then have "(\<exists>U. T < U \<and> U < t \<and> bypassed (proposed pp) U T k) \<or>
      (\<exists>V. path (proposed pp) V \<and> holds V T k \<and> up_to_date (g i t) V)"
    using assms(1,2) unfolding supports_def by blast
  then show "(\<exists>U. T < U \<and> U < t \<and> bypassed (proposed pp') U T k) \<or>
      (\<exists>V. path (proposed pp') V \<and> holds V T k \<and> up_to_date (g i t) V)"
    using bypassed_mono [of "proposed pp" _ _ _ "proposed pp'"] path_mono [of "proposed pp" _ "proposed pp'"] assms(3)
    by blast
qed

lemma not_won_start:
  assumes "\<And>p. \<not> counted (vc i t p)" and "(\<exists>p. vc i t p \<noteq> VNone) \<Longrightarrow> peers_of (nd i) \<noteq> []"
  shows "\<not> has_won nd vc i t"
proof
  assume "has_won nd vc i t"
  then obtain G where G: "\<forall>p \<in> G. counted (vc i t p)" "quorum (nd i) \<le> 1 + int (card G)" "peers_of (nd i) \<noteq> []"
    using assms(2) unfolding has_won_def by blast
  then have "G = {}" using assms(1) by blast
  moreover have "1 \<le> length (peers_of (nd i))" using G(3) by (simp add: Suc_leI)
  ultimately show False using G(2) by (simp add: quorum_def)
qed

text \<open>The start of an election: the log is remembered.\<close>

lemma parts_start:
  assumes parts: "log_parts M nd vc pp an ac g" and ok: "votes_ok M nd vc el vn" and i: "i \<in> set M"
    and fit: "currentTerm (nd i) < - 1" and run: "startElection c (nd i) = (n', t)"
    and vc': "vc' = vc(i := (vc i)(t := (\<lambda>p. if p \<in> set (peers_of (nd i)) then VSpawned else VNone)))"
    and g': "g' = g(i := (g i)(t := node_log (nd i)))"
  shows "log_parts M (nd(i := n')) vc' pp an ac g'"
proof -
  let ?nd = "nd(i := n')"
  note d = log_partsD [OF parts]
  have n': "t = currentTerm (nd i) + 1" "currentTerm n' = t" "state n' = StateCandidate" "node_log n' = node_log (nd i)"
    "peers_of n' = peers_of (nd i)" "commitIndex n' = commitIndex (nd i)" "lastApplied n' = lastApplied (nd i)"
    using run by (auto simp: startElection_def Let_def)
  have lt: "currentTerm (nd i) < t" unfolding n'(1) by (rule less_plus1 [OF fit])
  have calls: "calls_ok M nd vc" using ok by (simp add: votes_ok_def)
  have none: "vc i t p = VNone" for p
    using calls_okD(3) [OF calls, of i t p] lt by (auto simp: bound_to_def dest: order.asym)
  have vcs: "vc' j u p = (if j = i \<and> u = t then (if p \<in> set (peers_of (nd i)) then VSpawned else VNone) else vc j u p)"
    for j u p unfolding vc' by auto
  have gs: "g' j u = g j u" if "\<not> (j = i \<and> u = t)" for j u using that unfolding g' by auto
  have started: "(j = i \<and> u = t) \<or> vc j u p \<noteq> VNone \<and> \<not> (j = i \<and> u = t)" if "vc' j u p \<noteq> VNone" for j u p
    using that vcs [of j u p] none by (auto split: if_splits)
  have grant: "granted (vc' j u p) = granted (vc j u p)" "counted (vc' j u p) = counted (vc j u p)" for j u p
    using vcs [of j u p] none by auto
  have won: "has_won ?nd vc' = has_won nd vc"
  proof (intro ext)
    fix j u
    show "has_won ?nd vc' j u = has_won nd vc j u"
    proof (cases "j = i \<and> u = t")
      case True
      have "\<not> has_won ?nd vc' i t"
        by (rule not_won_start) (use vcs [of i t] n'(5) in \<open>auto split: if_splits\<close>)
      moreover have "\<not> has_won nd vc i t" by (rule not_won_start) (use none in auto)
      ultimately show ?thesis using True by simp
    next
      case False
      then have "vc' j u = vc j u" using vcs [of j u] by auto
      then show ?thesis using n'(5) by (simp add: has_won_def quorum_def)
    qed
  qed
  have old: "log_ok pp g i (nd i)" by (rule d(2) [OF i])
  have terms: "le_Term x < t" if "x \<in> set (node_log (nd i))" for x
    using old that lt unfolding log_ok_def by (meson order.strict_trans1)
  have "log_ok pp g' j (?nd j)" if "j \<in> set M" for j
  proof (cases "j = i")
    case True
    have "t \<noteq> 0" using lt by auto
    then show ?thesis
      using True old n' terms unfolding log_ok_def by (auto simp: g' intro: order.strict_implies_order)
  next
    case False
    then show ?thesis using d(2) [OF that] gs by (simp add: log_ok_def)
  qed
  moreover have "prop_ok M ?nd (has_won nd vc) pp g'"
    unfolding prop_ok_def
  proof (intro allI impI)
    fix l T k pr assume pr: "pp (l, T, k) = Some pr"
    note o = prop_okD [OF d(3) pr]
    have "\<not> (l = i \<and> T = t)" using o(7) lt by auto
    moreover have "T \<le> currentTerm (?nd l)" "T = currentTerm (?nd l) \<longrightarrow> state (?nd l) \<noteq> StateCandidate"
      using o(7,8) lt n'(2) by (auto dest: order.strict_trans1)
    ultimately show "l \<in> set M \<and> has_won nd vc l T \<and> le_Term (pr_entry pr) = T \<and> pr_newIndex pr = k \<and>
     unat k = Suc (unat (pr_prevIndex pr)) \<and> unat k < 2 ^ 62 \<and>
     T \<le> currentTerm (?nd l) \<and> (T = currentTerm (?nd l) \<longrightarrow> state (?nd l) \<noteq> StateCandidate) \<and>
     (\<exists>B. path (proposed pp) B \<and> length B = unat (pr_prevIndex pr) \<and> last_term B = pr_prevTerm pr \<and>
        take (length (g' l T)) B = g' l T)"
      using o gs by simp
  qed
  moreover have "starts_ok pp g'"
    using d(4) old terms gs unfolding starts_ok_def log_ok_def by (auto simp: g')
  moreover have "reqs_ok M ?nd pp an ac" using d(5) n'(5) unfolding reqs_ok_def by simp
  moreover have "cand_ok M ?nd vc' g'"
    unfolding cand_ok_def
  proof (intro ballI impI allI)
    fix j q assume j: "j \<in> set M" "state (?nd j) = StateCandidate"
    show "(\<forall>x. vc' j (currentTerm (?nd j)) q = VRead x \<longrightarrow> x = word_of_nat (length (g' j (currentTerm (?nd j))))) \<and>
      (\<forall>req. vc' j (currentTerm (?nd j)) q = VSent req \<longrightarrow>
         rvq_LastLogIndex req = word_of_nat (length (g' j (currentTerm (?nd j)))) \<and>
         rvq_LastLogTerm req = last_term (g' j (currentTerm (?nd j))))"
    proof (cases "j = i")
      case True
      then show ?thesis using vcs [of i t q] n'(2) by simp
    next
      case False
      then show ?thesis using j d(6) vcs gs unfolding cand_ok_def by simp
    qed
  qed
  moreover have "voters_ok M ?nd vc' (has_won nd vc) pp ac g'"
  proof -
    have self: "supports pp ac g' i t i"
      unfolding supports_def
    proof (intro allI impI)
      fix T k assume "accepted pp ac i T k" "T < t"
      then consider "holds (node_log (nd i)) T k" | U where "T < U" "U \<le> currentTerm (nd i)" "bypassed (proposed pp) U T k"
        using d(8) i unfolding accept_ok_def by blast
      then show "(\<exists>U. T < U \<and> U < t \<and> bypassed (proposed pp) U T k) \<or>
          (\<exists>V. path (proposed pp) V \<and> holds V T k \<and> up_to_date (g' i t) V)"
      proof cases
        case 1
        then show ?thesis using old up_to_date_refl by (auto simp: log_ok_def g')
      next
        case 2
        then show ?thesis using lt by (meson order.strict_trans1)
      qed
    qed
    have keep: "supports pp ac g' j u q" if "supports pp ac g j u q" "\<not> (j = i \<and> u = t)" for j u q
      by (rule supports_mono [OF that(1)]) (use gs that(2) in auto)
    have v: "vc j u p \<noteq> VNone \<Longrightarrow> supports pp ac g j u j"
      "has_won nd vc j u \<Longrightarrow> counted (vc j u p) \<Longrightarrow> supports pp ac g j u p"
      "j \<in> set M \<Longrightarrow> state (nd j) = StateCandidate \<Longrightarrow> (\<forall>l. has_won nd vc l (currentTerm (nd j)) \<longrightarrow> l = j) \<Longrightarrow>
         granted (vc j (currentTerm (nd j)) p) \<Longrightarrow> supports pp ac g j (currentTerm (nd j)) p" for j u p
      using d(7) unfolding voters_ok_def by blast+
    show ?thesis
      unfolding voters_ok_def grant
    proof (intro conjI allI impI ballI)
      fix j u p assume "vc' j u p \<noteq> VNone"
      then show "supports pp ac g' j u j" using started self keep v(1) by blast
    next
      fix j u q assume w: "has_won nd vc j u" "counted (vc j u q)"
      then have "\<not> (j = i \<and> u = t)" using none by auto
      then show "supports pp ac g' j u q" using keep v(2) w by blast
    next
      fix j q assume j: "j \<in> set M" "state (?nd j) = StateCandidate" "\<forall>l. has_won nd vc l (currentTerm (?nd j)) \<longrightarrow> l = j"
        "granted (vc j (currentTerm (?nd j)) q)"
      then have "j \<noteq> i" using none n'(2) by auto
      then show "supports pp ac g' j (currentTerm (?nd j)) q" using keep v(3) j by simp
    qed
  qed
  moreover have "accept_ok M ?nd pp ac"
    by (rule accept_ok_terms [OF d(8)]) (use n'(2,4) lt in \<open>auto intro: order.strict_implies_order\<close>)
  ultimately show ?thesis unfolding log_parts_def won using d(1) by blast
qed

lemma voters_okD:
  assumes "voters_ok M nd vc won pp ac g"
  shows "vc i t p \<noteq> VNone \<Longrightarrow> supports pp ac g i t i"
    and "won i t \<Longrightarrow> counted (vc i t q) \<Longrightarrow> supports pp ac g i t q"
    and "i \<in> set M \<Longrightarrow> state (nd i) = StateCandidate \<Longrightarrow> (\<And>l. won l (currentTerm (nd i)) \<Longrightarrow> l = i) \<Longrightarrow>
      granted (vc i (currentTerm (nd i)) q) \<Longrightarrow> supports pp ac g i (currentTerm (nd i)) q"
  using assms unfolding voters_ok_def by blast+

lemma has_won_calls:
  assumes "\<And>p. vc' i t p = VNone \<longleftrightarrow> vc i t p = VNone" and "\<And>p. counted (vc' i t p) = counted (vc i t p)"
  shows "has_won nd vc' i t = has_won nd vc i t"
  unfolding has_won_def assms ..

text \<open>A vote call moves on without a new vote.\<close>

lemma parts_move:
  assumes parts: "log_parts M nd vc pp an ac g" and old: "vc i t p \<noteq> VNone" and "c \<noteq> VNone"
    and "granted c \<Longrightarrow> granted (vc i t p)" and "counted c = counted (vc i t p)"
    and cand: "i \<in> set M \<Longrightarrow> state (nd i) = StateCandidate \<Longrightarrow> currentTerm (nd i) = t \<Longrightarrow>
      (\<forall>x. c = VRead x \<longrightarrow> x = word_of_nat (length (g i t))) \<and>
      (\<forall>req. c = VSent req \<longrightarrow> rvq_LastLogIndex req = word_of_nat (length (g i t)) \<and> rvq_LastLogTerm req = last_term (g i t))"
  shows "log_parts M nd (move vc i t p c) pp an ac g"
proof -
  let ?vc = "move vc i t p c"
  note d = log_partsD [OF parts]
  have none: "?vc j u q = VNone \<longleftrightarrow> vc j u q = VNone" for j u q using old assms(3) by (simp add: move_cases)
  have grant: "granted (?vc j u q) \<Longrightarrow> granted (vc j u q)" for j u q using assms(4) by (auto simp: move_cases split: if_splits)
  have count: "counted (?vc j u q) = counted (vc j u q)" for j u q using assms(5) by (simp add: move_cases)
  have won: "has_won nd ?vc = has_won nd vc" by (intro ext has_won_calls none count)
  have "cand_ok M nd ?vc g"
    unfolding cand_ok_def
  proof (intro ballI impI allI)
    fix j q assume j: "j \<in> set M" "state (nd j) = StateCandidate"
    show "(\<forall>x. ?vc j (currentTerm (nd j)) q = VRead x \<longrightarrow> x = word_of_nat (length (g j (currentTerm (nd j))))) \<and>
      (\<forall>req. ?vc j (currentTerm (nd j)) q = VSent req \<longrightarrow>
         rvq_LastLogIndex req = word_of_nat (length (g j (currentTerm (nd j)))) \<and>
         rvq_LastLogTerm req = last_term (g j (currentTerm (nd j))))"
    proof (cases "j = i \<and> currentTerm (nd j) = t \<and> q = p")
      case True
      then have "j = i" "q = p" "currentTerm (nd i) = t" by auto
      then show ?thesis using cand j by (simp add: move_cases)
    next
      case False
      then have "?vc j (currentTerm (nd j)) q = vc j (currentTerm (nd j)) q" by (auto simp: move_cases)
      then show ?thesis using j d(6) unfolding cand_ok_def by simp
    qed
  qed
  moreover have "voters_ok M nd ?vc (has_won nd vc) pp ac g"
    unfolding voters_ok_def
  proof (intro conjI allI impI ballI)
    fix j u q
    show "supports pp ac g j u j" if "?vc j u q \<noteq> VNone" using that voters_okD(1) [OF d(7)] none by blast
    show "supports pp ac g j u q" if "has_won nd vc j u" "counted (?vc j u q)"
      using that voters_okD(2) [OF d(7)] count by blast
    show "supports pp ac g j (currentTerm (nd j)) q" if "j \<in> set M" "state (nd j) = StateCandidate"
      "\<forall>l. has_won nd vc l (currentTerm (nd j)) \<longrightarrow> l = j" "granted (?vc j (currentTerm (nd j)) q)"
      using that grant voters_okD(3) [OF d(7)] by blast
  qed
  ultimately show ?thesis unfolding log_parts_def won using d by blast
qed

text \<open>A granted vote is counted by a candidate.\<close>

lemma parts_count:
  assumes parts: "log_parts M nd vc pp an ac g" and ret: "vc i t p = VReturned resp" and i: "i \<in> set M"
    and "state (nd i) = StateCandidate" and "currentTerm (nd i) = t"
    and ok: "votes_ok M nd (move vc i t p (VCounted resp)) el vn"
  shows "log_parts M nd (move vc i t p (VCounted resp)) pp an ac g"
proof -
  let ?vc = "move vc i t p (VCounted resp)"
  note d = log_partsD [OF parts]
  have none: "?vc j u q = VNone \<longleftrightarrow> vc j u q = VNone" for j u q using ret by (simp add: move_cases)
  have grant: "granted (?vc j u q) = granted (vc j u q)" for j u q using ret by (simp add: move_cases)
  have mono: "has_won nd ?vc j u" if "has_won nd vc j u" for j u
    by (rule has_won_cong [of nd j nd vc u ?vc]) (use that ret in \<open>auto simp: move_cases\<close>)
  have one: "j = k" if "has_won nd ?vc j u" "has_won nd ?vc k u" for j k u
    using one_winner [OF _ _ _ that] ok by (auto simp: votes_ok_def)
  have "cand_ok M nd ?vc g"
    using d(6) unfolding cand_ok_def by (auto simp: move_cases split: if_splits)
  moreover have "prop_ok M nd (has_won nd ?vc) pp g" using d(3) mono unfolding prop_ok_def by blast
  moreover have "voters_ok M nd ?vc (has_won nd ?vc) pp ac g"
    unfolding voters_ok_def
  proof (intro conjI allI impI ballI)
    fix j u q
    show "supports pp ac g j u j" if "?vc j u q \<noteq> VNone" using that voters_okD(1) [OF d(7)] none by blast
    show "supports pp ac g j (currentTerm (nd j)) q" if "j \<in> set M" "state (nd j) = StateCandidate"
      "\<forall>l. has_won nd ?vc l (currentTerm (nd j)) \<longrightarrow> l = j" "granted (?vc j (currentTerm (nd j)) q)"
      using that grant mono voters_okD(3) [OF d(7)] by blast
    show "supports pp ac g j u q" if w: "has_won nd ?vc j u" "counted (?vc j u q)"
    proof (cases "j = i \<and> u = t")
      case True
      have "granted (vc i t q)" using counted_granted [OF w(2)] grant True by simp
      moreover have "l = i" if "has_won nd vc l t" for l using one [OF mono [OF that]] w(1) True by blast
      ultimately show ?thesis using voters_okD(3) [OF d(7) i assms(4)] assms(5) True by blast
    next
      case False
      then have "?vc j u = vc j u" by (auto simp: move_def)
      moreover from this have "has_won nd vc j u" using w(1) by (simp add: has_won_def)
      ultimately show ?thesis using voters_okD(2) [OF d(7)] w(2) by simp
    qed
  qed
  ultimately show ?thesis unfolding log_parts_def using d by blast
qed

text \<open>A vote is granted: the log of the voter is not ahead of the candidate's.\<close>

lemma parts_grant:
  assumes parts: "log_parts M nd vc pp an ac g" and ok: "votes_ok M nd vc el vn" and sent: "vc i t p = VSent req"
    and run: "HandleRequestVote c (nd p) req = (n', resp)"
  shows "log_parts M (nd(p := n')) (move vc i t p (VReturned resp)) pp an ac g"
proof -
  let ?nd = "nd(p := n')" and ?vc = "move vc i t p (VReturned resp)"
  have calls: "calls_ok M nd vc" and conf: "config_ok M nd" using ok by (auto simp: votes_ok_def)
  have req: "rvq_Term req = t" "rvq_CandidateID req = i" "i \<in> set M" "p \<in> set (peers_of (nd i))"
    using calls_okD [OF calls, of i t p] sent by auto
  then have p: "p \<noteq> i" "p \<in> set M" using conf by (auto simp: config_ok_def)
  note vote = HandleRequestVote_cases [OF run, unfolded req(1,2)]
  have "quiet (nd p) n'" using quiet_RequestVote [of "nd p" c req] run by simp
  moreover have "commitIndex n' \<le> lastApplied n'"
    using log_partsD(2) [OF parts p(2)] vote(7,8) by (simp add: log_ok_def)
  ultimately have parts': "log_parts M ?nd vc pp an ac g" by (rule parts_node [OF parts _ vote(6)])
  note d = log_partsD [OF parts'] and d0 = log_partsD [OF parts]
  show ?thesis
  proof (cases "rvp_VoteGranted resp")
    case False
    show ?thesis by (rule parts_move [OF parts']) (use sent False in simp_all)
  next
    case True
    have none: "?vc j u q = VNone \<longleftrightarrow> vc j u q = VNone" for j u q using sent by (simp add: move_cases)
    have count: "counted (?vc j u q) = counted (vc j u q)" for j u q using sent by (simp add: move_cases)
    have won: "has_won ?nd ?vc = has_won ?nd vc" by (intro ext has_won_calls none count)
    have win: "has_won ?nd vc = has_won nd vc" by (rule has_won_peers) (simp add: vote(10))
    have new: "supports pp ac g i t p"
      if cand: "state (nd i) = StateCandidate" "currentTerm (nd i) = t" and only: "\<And>l. has_won nd vc l t \<Longrightarrow> l = i"
      unfolding supports_def
    proof (intro allI impI)
      fix T k assume acc: "accepted pp ac p T k" "T < t"
      have ct: "currentTerm (nd p) \<le> t" "isLogUpToDate (nd p) (rvq_LastLogIndex req) (rvq_LastLogTerm req)"
        using vote(3) True by simp_all
      have lp: "path (proposed pp) (node_log (nd p))" using d0(2) [OF p(2)] by (simp add: log_ok_def)
      have "path (proposed pp) (g i t)" using d0(4) by (simp add: starts_ok_def)
      moreover have "rvq_LastLogIndex req = word_of_nat (length (g i t))" "rvq_LastLogTerm req = last_term (g i t)"
        using d0(6) req(3) cand sent unfolding cand_ok_def by auto
      ultimately have upd: "up_to_date (g i t) (node_log (nd p))"
        using ct(2) isLogUpToDate_eq [of "nd p" "g i t"] path_bound [OF lp] path_bound by simp
      have no: "\<not> bypassed (proposed pp) t T k"
      proof
        assume "bypassed (proposed pp) t T k"
        then obtain L where "path (proposed pp) L" "L \<noteq> []" "last_term L = t" by (auto simp: bypassed_def)
        then have "proposed pp t (length L) (last L) (last_term (butlast L))" using path_last by blast
        then obtain l pr where "pp (l, t, word_of_nat (length L)) = Some pr" by (auto simp: proposed_def)
        note pr = prop_okD [OF d0(3) this]
        show False using pr(8) only [OF pr(2)] cand by simp
      qed
      consider "holds (node_log (nd p)) T k" | U where "T < U" "U \<le> currentTerm (nd p)" "bypassed (proposed pp) U T k"
        using d0(8) p(2) acc(1) unfolding accept_ok_def by blast
      then show "(\<exists>U. T < U \<and> U < t \<and> bypassed (proposed pp) U T k) \<or>
          (\<exists>V. path (proposed pp) V \<and> holds V T k \<and> up_to_date (g i t) V)"
      proof cases
        case 1
        then show ?thesis using lp upd by blast
      next
        case 2
        then have "U < t" using ct(1) no by (metis order.not_eq_order_implies_strict order_trans)
        then show ?thesis using 2 by blast
      qed
    qed
    have "cand_ok M ?nd ?vc g" using d(6) unfolding cand_ok_def by (auto simp: move_cases split: if_splits)
    moreover have "voters_ok M ?nd ?vc (has_won ?nd vc) pp ac g"
      unfolding voters_ok_def
    proof (intro conjI allI impI ballI)
      fix j u q
      show "supports pp ac g j u j" if "?vc j u q \<noteq> VNone" using that voters_okD(1) [OF d(7)] none by blast
      show "supports pp ac g j u q" if "has_won ?nd vc j u" "counted (?vc j u q)"
        using that voters_okD(2) [OF d(7)] count by blast
      show "supports pp ac g j (currentTerm (?nd j)) q" if j: "j \<in> set M" "state (?nd j) = StateCandidate"
        "\<forall>l. has_won ?nd vc l (currentTerm (?nd j)) \<longrightarrow> l = j" "granted (?vc j (currentTerm (?nd j)) q)"
      proof (cases "j = i \<and> currentTerm (?nd j) = t \<and> q = p")
        case True
        then have e: "j = i" "q = p" "currentTerm (nd i) = t" using p(1) by auto
        then show ?thesis using new j p(1) unfolding win by simp
      next
        case False
        then have "granted (vc j (currentTerm (?nd j)) q)" using j(4) by (auto simp: move_cases split: if_splits)
        then show ?thesis using voters_okD(3) [OF d(7) j(1,2)] j(3) by blast
      qed
    qed
    ultimately show ?thesis unfolding log_parts_def won using d by blast
  qed
qed

text \<open>The winner becomes leader.\<close>

lemma parts_leader:
  assumes parts: "log_parts M nd vc pp an ac g"
  shows "log_parts M (nd(i := becomeLeader (nd i))) vc pp an ac g"
proof (cases "state (nd i) = StateCandidate \<and> leaderID (nd i) \<noteq> node_id (nd i)")
  case True
  let ?n = "becomeLeader (nd i)" and ?nd = "nd(i := becomeLeader (nd i))"
  note d = log_partsD [OF parts]
  have n: "state ?n = StateLeader" "currentTerm ?n = currentTerm (nd i)" "node_log ?n = node_log (nd i)"
    "peers_of ?n = peers_of (nd i)" "commitIndex ?n = commitIndex (nd i)" "lastApplied ?n = lastApplied (nd i)"
    using True by (simp_all add: becomeLeader_def)
  have q: "calmer nd ?nd" using n by (simp add: calmer_def)
  have won: "has_won ?nd vc = has_won nd vc" by (rule has_won_peers) (rule calmerD(2) [OF q])
  have fresh: "pp (i, currentTerm (nd i), k) = None" for k
    using prop_okD(8) [OF d(3), of i "currentTerm (nd i)" k] True by (cases "pp (i, currentTerm (nd i), k)") auto
  have "log_ok pp g j (?nd j)" if "j \<in> set M" for j
    using d(2) [OF that] True n fresh by (cases "j = i") (auto simp: log_ok_def)
  moreover have "accept_ok M ?nd pp ac" by (rule accept_ok_terms [OF d(8)]) (simp_all add: n)
  ultimately show ?thesis unfolding log_parts_def won using d parts_calmer [OF _ q] by blast
next
  case False
  then have "becomeLeader (nd i) = nd i" by (auto simp: becomeLeader_def)
  then show ?thesis using parts by simp
qed

subsection \<open>Requests\<close>

lemma parts_net:
  assumes "log_parts M nd vc pp an ac g" and "p \<in> set M"
    and "aeq_Entries req = [] \<or> (\<exists>key pr. pp key = Some pr \<and> carries pr req)"
  shows "log_parts M nd vc pp (insert (p, req) an) ac g"
proof -
  have "reqs_ok M nd pp (insert (p, req) an) ac"
    using log_partsD(5) [OF assms(1)] assms(2,3) unfolding reqs_ok_def by blast
  then show ?thesis using log_partsD [OF assms(1)] unfolding log_parts_def by blast
qed

definition set_call :: "(proposal_key \<Rightarrow> string \<Rightarrow> append_call) \<Rightarrow> proposal_key \<Rightarrow> string \<Rightarrow> append_call \<Rightarrow>
    proposal_key \<Rightarrow> string \<Rightarrow> append_call" where
  "set_call ac key p c = (\<lambda>key' p'. if key' = key \<and> p' = p then c else ac key' p')"

lemma append_calls_set [simp]: "append_calls (set_append_call s k p c) = set_call (append_calls s) k p c"
  by (simp add: set_append_call_def set_call_def fun_eq_iff)

lemma set_call_cases: "set_call ac key p c key' p' = (if key' = key \<and> p' = p then c else ac key' p')"
  by (simp add: set_call_def)

lemma reqs_ok_call:
  assumes "reqs_ok M nd pp an ac" and "ac key p \<noteq> ANone" and "\<And>req pr. c = ASent req \<Longrightarrow> pp key = Some pr \<Longrightarrow> carries pr req"
  shows "reqs_ok M nd pp an (set_call ac key p c)"
  unfolding reqs_ok_def
proof (intro conjI allI impI)
  fix key' q pr req
  show "pp key' \<noteq> None" if "set_call ac key p c key' q \<noteq> ANone"
    using that assms(2) reqs_okD(3) [OF assms(1)] by (auto simp: set_call_cases split: if_splits)
  show "q \<in> set (peers_of (nd (fst key')))" if "set_call ac key p c key' q \<noteq> ANone"
    using that assms(2) reqs_okD(4) [OF assms(1)] by (auto simp: set_call_cases split: if_splits)
  show "carries pr req" if "set_call ac key p c key' q = ASent req" "pp key' = Some pr"
    using that assms(3) reqs_okD(5) [OF assms(1)] by (auto simp: set_call_cases split: if_splits)
qed (use reqs_okD(1,2) [OF assms(1)] in blast)+

text \<open>A call moves on without an acknowledgement, or with one that is already known.\<close>

lemma parts_call:
  assumes parts: "log_parts M nd vc pp an ac g" and old: "ac key p \<noteq> ANone" and same: "acked c = acked (ac key p)"
    and "\<And>req pr. c = ASent req \<Longrightarrow> pp key = Some pr \<Longrightarrow> carries pr req"
  shows "log_parts M nd vc pp an (set_call ac key p c) g"
proof -
  let ?ac = "set_call ac key p c"
  note d = log_partsD [OF parts]
  have "acked (?ac key' q) = acked (ac key' q)" for key' q using same by (simp add: set_call_cases)
  then have acc: "accepted pp ?ac = accepted pp ac" by (intro ext) (simp add: accepted_def)
  have "supports pp ?ac = supports pp ac" by (intro ext) (simp add: supports_def acc)
  then have "voters_ok M nd vc (has_won nd vc) pp ?ac g" "accept_ok M nd pp ?ac"
    using d(7,8) unfolding voters_ok_def accept_ok_def acc by simp_all
  moreover have "reqs_ok M nd pp an ?ac" by (rule reqs_ok_call [of M nd pp an ac key p c, OF d(5) old assms(4)])
  ultimately show ?thesis unfolding log_parts_def using d by blast
qed

text \<open>The entry of a proposal is acknowledged by a node that holds it and is still in its term.\<close>

lemma parts_ack:
  assumes parts: "log_parts M nd vc pp an ac g" and calls: "calls_ok M nd vc" and old: "ac (l, T, k) p \<noteq> ANone"
    and h: "holds (node_log (nd p)) T (unat k)" and ct: "currentTerm (nd p) = T"
  shows "log_parts M nd vc pp an (set_call ac (l, T, k) p (AReturned resp)) g"
proof -
  let ?ac = "set_call ac (l, T, k) p (AReturned resp)"
  note d = log_partsD [OF parts]
  have acc: "accepted pp ac q U j \<or> q = p \<and> U = T \<and> j = unat k" if "accepted pp ?ac q U j" for q U j
  proof -
    have "unat (word_of_nat j :: u64) = j" if "j < 2 ^ 62" using that by (rule unat_word_small)
    then show ?thesis using that by (auto simp: accepted_def set_call_cases split: if_splits)
  qed
  have keep: "supports pp ?ac g i t q" if "supports pp ac g i t q" "q = p \<Longrightarrow> t \<le> T" for i t q
  proof (rule supports_mono [OF that(1)])
    show "accepted pp ac q U j" if "U < t" "accepted pp ?ac q U j" for U j
      using acc [OF that(2)] that(1) \<open>q = p \<Longrightarrow> t \<le> T\<close> by auto
  qed simp_all
  have bound: "t \<le> T" if "bound_to (nd p) t c" for t c using that ct by (auto simp: bound_to_def)
  have "voters_ok M nd vc (has_won nd vc) pp ?ac g"
    unfolding voters_ok_def
  proof (intro conjI allI impI ballI)
    fix i t q
    show "supports pp ?ac g i t i" if "vc i t q \<noteq> VNone"
      using voters_okD(1) [OF d(7) that] calls_okD(3) [OF calls that] bound keep by blast
    show "supports pp ?ac g i t q" if "has_won nd vc i t" "counted (vc i t q)"
      using voters_okD(2) [OF d(7) that] calls_okD(5) [OF calls counted_granted [OF that(2)]] bound keep by blast
    show "supports pp ?ac g i (currentTerm (nd i)) q" if "i \<in> set M" "state (nd i) = StateCandidate"
      "\<forall>l. has_won nd vc l (currentTerm (nd i)) \<longrightarrow> l = i" "granted (vc i (currentTerm (nd i)) q)"
      using voters_okD(3) [OF d(7) that(1,2) _ that(4)] that(3) calls_okD(5) [OF calls that(4)] bound keep by blast
  qed
  moreover have "accept_ok M nd pp ?ac"
    using d(8) acc h ct unfolding accept_ok_def by blast
  moreover have "reqs_ok M nd pp an ?ac" by (rule reqs_ok_call [OF d(5) old]) simp
  ultimately show ?thesis unfolding log_parts_def using d by blast
qed

text \<open>A request is handled.\<close>

lemma parts_handle:
  assumes parts: "log_parts M nd vc pp an ac g" and p: "p \<in> set M"
    and req: "aeq_Entries req = [] \<or> (\<exists>key pr. pp key = Some pr \<and> carries pr req)"
    and run: "HandleAppendEntries now c (nd p) req = Some (n', resp, es)"
  shows "log_parts M (nd(p := n')) vc pp an ac g"
    and "aep_Success resp \<Longrightarrow> pp (l, T, k) = Some pr \<Longrightarrow> carries pr req \<Longrightarrow>
      holds (node_log n') T (unat k) \<and> currentTerm n' = T"
proof -
  let ?nd = "nd(p := n')" and ?Q = "proposed pp"
  note d = log_partsD [OF parts]
  have old: "log_ok pp g p (nd p)" by (rule d(2) [OF p])
  have "length (aeq_Entries req) < 2 ^ 62" using req by (auto simp: carries_def)
  then obtain n'' resp' es' where
    "HandleAppendEntries now c (nd p) req = Some (n'', resp', es')"
    "currentTerm n'' = max (currentTerm (nd p)) (aeq_Term req)" "aep_Success resp' \<longleftrightarrow> accepts (nd p) req"
    "node_log n'' = (if accepts (nd p) req then new_log (nd p) req else node_log (nd p))" "commitIndex n'' \<le> lastApplied n''"
    "state n'' = (if accepts (nd p) req \<or> currentTerm (nd p) < aeq_Term req then StateFollower else state (nd p))"
    using HandleAppendEntries_result [OF node_ok_log [OF old], of req now c] by blast
  then have n': "currentTerm n' = max (currentTerm (nd p)) (aeq_Term req)" "aep_Success resp \<longleftrightarrow> accepts (nd p) req"
    "node_log n' = (if accepts (nd p) req then new_log (nd p) req else node_log (nd p))" "commitIndex n' \<le> lastApplied n'"
    "state n' = (if accepts (nd p) req \<or> currentTerm (nd p) < aeq_Term req then StateFollower else state (nd p))"
    using run by simp_all
  have q: "quiet (nd p) n'" by (rule quiet_AppendEntries [OF run])
  have entry: "path ?Q (node_log n') \<and> holds (node_log n') T (unat k) \<and> currentTerm n' = T \<and> currentTerm (nd p) \<le> T \<and>
      state n' = StateFollower \<and> (\<forall>x \<in> set (node_log n'). x \<in> set (node_log (nd p)) \<or> le_Term x = T) \<and>
      (\<forall>T' k'. holds (node_log (nd p)) T' k' \<longrightarrow> T' \<le> T \<longrightarrow> holds (node_log n') T' k' \<or> T' < T \<and> bypassed ?Q T T' k')"
    if acc: "accepts (nd p) req" and pr: "pp (l, T, k) = Some pr" "carries pr req" for l T k pr
  proof -
    let ?j = "unat (pr_prevIndex pr)"
    note pok = prop_okD [OF d(3) pr(1)]
    have fields: "aeq_Term req = T" "aeq_Entries req = [pr_entry pr]" "aeq_PrevLogIndex req = pr_prevIndex pr"
      "aeq_PrevLogTerm req = pr_prevTerm pr"
      using pr(2) pok(3) by (auto simp: carries_def)
    have m: "currentTerm (nd p) \<le> T" "matchPrevLog (nd p) (pr_prevIndex pr) (pr_prevTerm pr)"
      using acc fields by (auto simp: accepts_def)
    have len: "length (node_log (nd p)) < 2 ^ 62" using old path_bound by (auto simp: log_ok_def)
    have j: "?j \<le> length (node_log (nd p))" by (rule matchPrevLog_bound [OF m(2) len])
    have prev: "?j = 0 \<or> le_Term (node_log (nd p) ! (?j - 1)) = pr_prevTerm pr"
    proof (cases "pr_prevIndex pr = 0")
      case False
      then have "le_Term (node_log (nd p) ! unat (pr_prevIndex pr - 1)) = pr_prevTerm pr"
        using m(2) by (auto simp: matchPrevLog_def split: if_splits)
      moreover have "unat (pr_prevIndex pr - 1) = ?j - 1" using False by (simp add: unat_minus_one)
      ultimately show ?thesis by simp
    qed simp
    have Q: "?Q T (Suc ?j) (pr_entry pr) (pr_prevTerm pr)" using proposed_key [OF d(3) pr(1)] pok(5) by simp
    have lp: "path ?Q (node_log (nd p))" using old by (simp add: log_ok_def)
    have new: "node_log n' = overwrite (node_log (nd p)) ?j [pr_entry pr]"
      using n'(3) acc fields by (simp add: new_log_def)
    note a = accept_entry [OF d(1) lp Q j prev, folded new]
    have "currentTerm n' = T" using n'(1) fields(1) m(1) by (simp add: max_absorb2)
    then show ?thesis using a pok(5) m(1) n'(5) acc by auto
  qed
  show "holds (node_log n') T (unat k) \<and> currentTerm n' = T"
    if "aep_Success resp" "pp (l, T, k) = Some pr" "carries pr req"
    using entry [OF _ that(2,3)] that(1) n'(2) by blast
  show "log_parts M ?nd vc pp an ac g"
  proof (cases "accepts (nd p) req \<and> aeq_Entries req \<noteq> []")
    case False
    then have "node_log n' = node_log (nd p)" using n'(3) by (auto simp: new_log_def)
    then show ?thesis by (rule parts_node [OF parts q _ n'(4)])
  next
    case True
    then obtain l T k pr where pr: "pp (l, T, k) = Some pr" "carries pr req" using req by auto
    note e = entry [OF conjunct1 [OF True] pr]
    have c: "calmer nd ?nd" using calmer_quiet [of nd p n'] q by blast
    have won: "has_won ?nd vc = has_won nd vc" by (rule has_won_peers) (rule calmerD(2) [OF c])
    have "le_Term x \<le> currentTerm n'" if x: "x \<in> set (node_log n')" for x
    proof (cases "x \<in> set (node_log (nd p))")
      case True
      then have "le_Term x \<le> currentTerm (nd p)" using old by (simp add: log_ok_def)
      then show ?thesis using e by (auto intro: order_trans)
    next
      case False
      then have "le_Term x = T" using e x by blast
      then show ?thesis using e by simp
    qed
    then have "log_ok pp g p n'" using e n'(4) by (simp add: log_ok_def)
    then have "log_ok pp g j (?nd j)" if "j \<in> set M" for j using d(2) [OF that] by (cases "j = p") auto
    moreover have "accept_ok M ?nd pp ac"
      unfolding accept_ok_def
    proof (intro ballI allI impI)
      fix q' T' k' assume q': "q' \<in> set M" "accepted pp ac q' T' k'"
      have o: "T' \<le> currentTerm (nd q')" "holds (node_log (nd q')) T' k' \<or>
          (\<exists>U. T' < U \<and> U \<le> currentTerm (nd q') \<and> bypassed ?Q U T' k')"
        using d(8) q' unfolding accept_ok_def by blast+
      show "T' \<le> currentTerm (?nd q') \<and> (holds (node_log (?nd q')) T' k' \<or>
          (\<exists>U. T' < U \<and> U \<le> currentTerm (?nd q') \<and> bypassed ?Q U T' k'))"
      proof (cases "q' = p")
        case True
        have le: "T' \<le> T" using o(1) e True by (auto intro: order_trans)
        from o(2) show ?thesis
        proof
          assume "holds (node_log (nd q')) T' k'"
          then have "holds (node_log n') T' k' \<or> T' < T \<and> bypassed ?Q T T' k'" using e le True by blast
          then show ?thesis using e le True by auto
        next
          assume "\<exists>U. T' < U \<and> U \<le> currentTerm (nd q') \<and> bypassed ?Q U T' k'"
          then show ?thesis using e le True by (auto intro: order_trans)
        qed
      qed (use o in simp)
    qed
    ultimately show ?thesis unfolding log_parts_def won using d parts_calmer [OF _ c] by blast
  qed
qed

subsection \<open>Proposals\<close>

lemma parts_propose:
  assumes parts: "log_parts M nd vc pp an ac g" and ok: "votes_ok M nd vc el vn" and i: "i \<in> set M"
    and lead: "state (nd i) = StateLeader" and len: "length (node_log (nd i)) + 1 < 2 ^ 62"
    and run: "Propose (nd i) cmd = Inr (n', pr)" and key: "key = (i, currentTerm (nd i), pr_newIndex pr)"
    and pp': "pp' = pp(key \<mapsto> pr)" and ac': "ac' = ac(key := (\<lambda>p. if p \<in> set (peers_of (nd i)) then ASpawned else ANone))"
  shows "log_parts M (nd(i := n')) vc pp' an ac' g"
proof -
  let ?nd = "nd(i := n')" and ?L = "node_log (nd i)" and ?T = "currentTerm (nd i)"
  let ?k = "length (node_log (nd i)) + 1" and ?e = "pr_entry pr"
  note d = log_partsD [OF parts]
  have pr: "pr_prevIndex pr = word_of_nat (length ?L)" "pr_prevTerm pr = last_term ?L" "le_Term ?e = ?T"
    "pr_newIndex pr = word_of_nat ?k" and n': "n' = (nd i)\<lparr>node_log := ?L @ [?e]\<rparr>"
    using run lead by (auto simp: Propose_def Let_def lastLogIndex_def lastLogTerm_eq)
  have unats: "unat (pr_newIndex pr) = ?k" "unat (pr_prevIndex pr) = length ?L"
    using pr(1,4) len unat_word_small [of ?k] unat_word_small [of "length ?L"] by simp_all
  have old: "log_ok pp g i (nd i)" by (rule d(2) [OF i])
  have L: "path (proposed pp) ?L" "\<forall>x \<in> set ?L. le_Term x \<le> ?T" "?T \<noteq> 0" "take (length (g i ?T)) ?L = g i ?T"
    "\<And>k. pp (i, ?T, k) \<noteq> None \<Longrightarrow> holds ?L ?T (unat k)"
    using old lead by (auto simp: log_ok_def)
  have calls: "calls_ok M nd vc" and iwon: "has_won nd vc i ?T"
    using ok i lead by (auto simp: votes_ok_def leaders_ok_def)
  have mine: "l = i" if some: "pp (l, ?T, k) \<noteq> None" for l k
  proof -
    obtain r where "pp (l, ?T, k) = Some r" using some by blast
    then have "has_won nd vc l ?T" by (rule prop_okD(2) [OF d(3)])
    then show ?thesis using one_winner [OF _ _ _ _ iwon] ok by (auto simp: votes_ok_def)
  qed
  have below: "k \<le> length ?L" if "proposed pp ?T k e t" for k e t
  proof -
    obtain l r where "k < 2 ^ 62" "pp (l, ?T, word_of_nat k) = Some r" using \<open>proposed pp ?T k e t\<close> by (auto simp: proposed_def)
    then show ?thesis using mine [of l] L(5) [of "word_of_nat k"] unat_word_small by (auto simp: holds_def)
  qed
  have fresh: "pp key = None" using L(5) [of "pr_newIndex pr"] unats(1) unfolding key by (fastforce simp: holds_def)
  have props: "proposed pp' T k e t \<longleftrightarrow> proposed pp T k e t \<or> T = ?T \<and> k = ?k \<and> e = ?e \<and> t = last_term ?L" for T k e t
  proof
    assume "proposed pp' T k e t"
    then obtain l r where r: "k < 2 ^ 62" "pp' (l, T, word_of_nat k) = Some r" "pr_entry r = e" "pr_prevTerm r = t"
      by (auto simp: proposed_def)
    show "proposed pp T k e t \<or> T = ?T \<and> k = ?k \<and> e = ?e \<and> t = last_term ?L"
    proof (cases "(l, T, word_of_nat k) = key")
      case True
      then have "r = pr" "T = ?T" "unat (word_of_nat k :: u64) = ?k" using r(2) unats(1) unfolding pp' key by auto
      then show ?thesis using r pr(2) unat_word_small [OF r(1)] by simp
    next
      case False
      then have "pp (l, T, word_of_nat k) = Some r" using r(2) unfolding pp' by (metis fun_upd_other)
      then show ?thesis using r(1,3,4) unfolding proposed_def by blast
    qed
  next
    assume a: "proposed pp T k e t \<or> T = ?T \<and> k = ?k \<and> e = ?e \<and> t = last_term ?L"
    have "pp' (l, T, k) = Some r" if "pp (l, T, k) = Some r" for l T k r
      using that fresh unfolding pp' by (metis fun_upd_other option.distinct(1))
    moreover have "pp' (i, ?T, word_of_nat ?k) = Some pr" unfolding pp' key pr(4) [symmetric] by simp
    ultimately show "proposed pp' T k e t" using a len pr(2) unfolding proposed_def by metis
  qed
  have mono: "proposed pp T k e t \<Longrightarrow> proposed pp' T k e t" for T k e t using props by blast
  have pmono: "path (proposed pp) A \<Longrightarrow> path (proposed pp') A" for A
    using path_mono [of "proposed pp" A "proposed pp'"] mono by blast
  have new: "path (proposed pp') (?L @ [?e])" using L(1) pmono props pr(3) by (simp add: path_snoc)
  have c: "calmer nd ?nd" unfolding calmer_def n' by simp
  have won: "has_won ?nd vc = has_won nd vc" by (rule has_won_peers) (rule calmerD(2) [OF c])
  have "props_ok (proposed pp')"
    unfolding props_ok_def
  proof (intro conjI allI impI)
    fix T k e t e' t' assume both: "proposed pp' T k e t" "proposed pp' T k e' t'"
    have "e' = e \<and> t' = t"
    proof (cases "T = ?T \<and> k = ?k")
      case True
      then have "\<not> proposed pp T k e t" "\<not> proposed pp T k e' t'" using below by fastforce+
      then show ?thesis using both unfolding props by simp
    next
      case False
      then have "proposed pp T k e t" "proposed pp T k e' t'" using both unfolding props by blast+
      then show ?thesis by (rule props_okD(1) [OF d(1)])
    qed
    then show "e' = e" "t' = t" by blast+
  next
    fix T k e t assume q: "proposed pp' T k e t"
    show "T \<noteq> 0" using q props_okD(2) [OF d(1), of T k e t] L(3) unfolding props by auto
    show "le_Term e = T" using q props_okD(3) [OF d(1), of T k e t] pr(3) unfolding props by auto
    show "\<exists>B. path (proposed pp') B \<and> Suc (length B) = k \<and> last_term B = t \<and> (\<forall>x \<in> set B. le_Term x \<le> T) \<and>
        (\<forall>j e' t'. j < k \<longrightarrow> proposed pp' T j e' t' \<longrightarrow> holds B T j)"
    proof (cases "proposed pp T k e t")
      case True
      then obtain B where B: "path (proposed pp) B" "Suc (length B) = k" "last_term B = t" "\<forall>x \<in> set B. le_Term x \<le> T"
        "\<forall>j e' t'. j < k \<longrightarrow> proposed pp T j e' t' \<longrightarrow> holds B T j"
        using props_okD(4) [OF d(1)] by blast
      have "proposed pp T j e' t'" if "j < k" "proposed pp' T j e' t'" for j e' t'
      proof (rule ccontr)
        assume "\<not> proposed pp T j e' t'"
        then have "T = ?T" "j = ?k" using that(2) unfolding props by blast+
        then show False using below True that(1) by fastforce
      qed
      then show ?thesis using B pmono by blast
    next
      case False
      then have T: "T = ?T" "k = ?k" "t = last_term ?L" using q props by blast+
      have "holds ?L ?T j" if "j < ?k" "proposed pp' ?T j e' t'" for j e' t'
      proof -
        have "proposed pp ?T j e' t'" using that props by auto
        then obtain l r where "j < 2 ^ 62" "pp (l, ?T, word_of_nat j) = Some r" by (auto simp: proposed_def)
        then show ?thesis using mine [of l "word_of_nat j"] L(5) [of "word_of_nat j"] unat_word_small by auto
      qed
      then show ?thesis using L(1,2) pmono T by (intro exI [of _ ?L]) simp
    qed
  qed
  moreover have "log_ok pp' g j (?nd j)" if "j \<in> set M" for j
  proof (cases "j = i")
    case True
    have "length (g i ?T) \<le> length ?L" using L(4) by (metis length_take min.cobounded1)
    then have "take (length (g i ?T)) (?L @ [?e]) = g i ?T" using L(4) by simp
    moreover have "holds (?L @ [?e]) ?T (unat k)" if "pp' (i, ?T, k) \<noteq> None" for k
    proof (cases "k = pr_newIndex pr")
      case True
      then show ?thesis using unats(1) pr(3) by (simp add: holds_def)
    next
      case False
      then have "holds ?L ?T (unat k)" using that L(5) unfolding pp' key by simp
      then show ?thesis using holds_prefix [of ?L "?L @ [?e]"] by simp
    qed
    ultimately show ?thesis
      using True new old L(2,3) pr(3) lead unfolding log_ok_def n' by auto
  next
    case False
    then show ?thesis using d(2) [OF that] pmono unfolding log_ok_def pp' key by auto
  qed
  moreover have "prop_ok M ?nd (has_won nd vc) pp' g"
    unfolding prop_ok_def
  proof (intro allI impI)
    fix l T k r assume r: "pp' (l, T, k) = Some r"
    show "l \<in> set M \<and> has_won nd vc l T \<and> le_Term (pr_entry r) = T \<and> pr_newIndex r = k \<and>
     unat k = Suc (unat (pr_prevIndex r)) \<and> unat k < 2 ^ 62 \<and>
     T \<le> currentTerm (?nd l) \<and> (T = currentTerm (?nd l) \<longrightarrow> state (?nd l) \<noteq> StateCandidate) \<and>
     (\<exists>B. path (proposed pp') B \<and> length B = unat (pr_prevIndex r) \<and> last_term B = pr_prevTerm r \<and>
        take (length (g l T)) B = g l T)"
    proof (cases "(l, T, k) = key")
      case True
      then have "r = pr" "l = i" "T = ?T" "k = pr_newIndex pr" using r unfolding pp' key by auto
      then show ?thesis using i iwon pr unats len lead L(1,4) pmono unfolding n' by auto
    next
      case False
      then have "pp (l, T, k) = Some r" using r unfolding pp' by auto
      note o = prop_okD [OF prop_ok_calmer [OF d(3) c] this]
      then show ?thesis using pmono by blast
    qed
  qed
  moreover have "starts_ok pp' g" using d(4) pmono unfolding starts_ok_def by blast
  moreover have acalls: "ac key p = ANone" for p using reqs_okD(3) [OF d(5), of key p] fresh by blast
  have "reqs_ok M ?nd pp' an ac'"
    unfolding reqs_ok_def calmerD(2) [OF c]
  proof (intro conjI allI impI)
    fix key' p req r
    show "p \<in> set M" if "(p, req) \<in> an" using that reqs_okD(1) [OF d(5)] by blast
    show "aeq_Entries req = [] \<or> (\<exists>key pr. pp' key = Some pr \<and> carries pr req)" if "(p, req) \<in> an"
    proof -
      have "pp' k = Some r" if "pp k = Some r" for k r using that fresh unfolding pp' by auto
      then show ?thesis using reqs_okD(2) [OF d(5) that] by blast
    qed
    show "pp' key' \<noteq> None" if "ac' key' p \<noteq> ANone"
      using that reqs_okD(3) [OF d(5)] unfolding pp' ac' by (auto split: if_splits)
    show "p \<in> set (peers_of (nd (fst key')))" if "ac' key' p \<noteq> ANone"
      using that reqs_okD(4) [OF d(5)] key unfolding ac' by (auto split: if_splits)
    show "carries r req" if "ac' key' p = ASent req" "pp' key' = Some r"
      using that reqs_okD(5) [OF d(5)] unfolding pp' ac' by (auto split: if_splits)
  qed
  moreover have acc: "accepted pp ac q T k \<or> q = i \<and> T = ?T \<and> k = ?k" if a: "accepted pp' ac' q T k" for q T k
  proof -
    have "acked (ac' key' q) = acked (ac key' q)" for key' using acalls unfolding ac' by auto
    moreover have "pp' (q, T, word_of_nat k) \<noteq> None \<Longrightarrow> pp (q, T, word_of_nat k) \<noteq> None \<or> q = i \<and> T = ?T \<and> k = ?k"
      using a unat_word_small [of k] unats(1) unfolding pp' key accepted_def by (auto split: if_splits)
    ultimately show ?thesis using a unfolding accepted_def by blast
  qed
  have keep: "supports pp' ac' g j t q" if "supports pp ac g j t q" "q = i \<Longrightarrow> t \<le> ?T" for j t q
  proof (rule supports_mono [OF that(1) _ mono])
    show "accepted pp ac q U k" if "U < t" "accepted pp' ac' q U k" for U k
      using acc [OF that(2)] that(1) \<open>q = i \<Longrightarrow> t \<le> ?T\<close> by auto
  qed simp_all
  have bound: "t \<le> ?T" if "bound_to (nd i) t b" for t b using that by (auto simp: bound_to_def)
  have "voters_ok M nd vc (has_won nd vc) pp' ac' g"
    unfolding voters_ok_def
  proof (intro conjI allI impI ballI)
    fix j t q
    show "supports pp' ac' g j t j" if "vc j t q \<noteq> VNone"
      using voters_okD(1) [OF d(7) that] calls_okD(3) [OF calls that] bound keep by blast
    show "supports pp' ac' g j t q" if "has_won nd vc j t" "counted (vc j t q)"
      using voters_okD(2) [OF d(7) that] calls_okD(5) [OF calls counted_granted [OF that(2)]] bound keep by blast
    show "supports pp' ac' g j (currentTerm (nd j)) q" if "j \<in> set M" "state (nd j) = StateCandidate"
      "\<forall>l. has_won nd vc l (currentTerm (nd j)) \<longrightarrow> l = j" "granted (vc j (currentTerm (nd j)) q)"
      using voters_okD(3) [OF d(7) that(1,2) _ that(4)] that(3) calls_okD(5) [OF calls that(4)] bound keep by blast
  qed
  moreover have "accept_ok M ?nd pp' ac'"
    unfolding accept_ok_def
  proof (intro ballI allI impI)
    fix q T k assume q: "q \<in> set M" "accepted pp' ac' q T k"
    have ext: "holds (node_log (?nd q)) T k" if "holds (node_log (nd q)) T k"
      using that holds_prefix [of ?L "?L @ [?e]"] unfolding n' by (cases "q = i") auto
    have ct: "currentTerm (?nd q) = currentTerm (nd q)" unfolding n' by simp
    from acc [OF q(2)] show "T \<le> currentTerm (?nd q) \<and> (holds (node_log (?nd q)) T k \<or>
        (\<exists>U. T < U \<and> U \<le> currentTerm (?nd q) \<and> bypassed (proposed pp') U T k))"
    proof
      assume "accepted pp ac q T k"
      then show ?thesis
        using d(8) q(1) ext bypassed_mono [of "proposed pp" _ _ _ "proposed pp'", OF _ mono]
        unfolding accept_ok_def ct by blast
    next
      assume "q = i \<and> T = ?T \<and> k = ?k"
      then show ?thesis using pr(3) unfolding n' by (simp add: holds_def)
    qed
  qed
  ultimately show ?thesis
    unfolding log_parts_def won using d parts_calmer [OF _ c] by blast
qed

end
