(* ===== verification/RaftSafety.thy ===== *)
theory RaftSafety
  imports RaftLog
begin

text \<open>
  The executions of a group keep the invariant of the logs. From it: two logs that agree on the term
  of an entry agree up to it; an entry for which the client was told that it is replicated is in the
  log of every later leader; and no node ever panics.
\<close>

section \<open>Executions\<close>

definition props_of :: "Cluster \<Rightarrow> prop_map" where
  "props_of s key = map_option pt_proposal (proposals s key)"

text \<open>A majority of the nodes has accepted the entry of a proposal.\<close>

definition chosen_by :: "(string \<Rightarrow> Node) \<Rightarrow> (proposal_key \<Rightarrow> string \<Rightarrow> append_call) \<Rightarrow> proposal_key \<Rightarrow> bool" where
  "chosen_by nd ac key \<longleftrightarrow> (\<exists>G \<subseteq> set (peers_of (nd (fst key))).
     (\<forall>p \<in> G. acked (ac key p)) \<and> quorum (nd (fst key)) \<le> 1 + int (card G))"

definition thread_ok :: "(string \<Rightarrow> Node) \<Rightarrow> (proposal_key \<Rightarrow> string \<Rightarrow> append_call) \<Rightarrow> proposal_key \<Rightarrow> proposal_thread \<Rightarrow> bool" where
  "thread_ok nd ac key th \<longleftrightarrow>
     (pt_result th = None \<longrightarrow> distinct (pt_awaited th) \<and>
        (\<exists>G \<subseteq> set (peers_of (nd (fst key))) - set (pt_awaited th).
           (\<forall>p \<in> G. acked (ac key p)) \<and> pt_acks th = 1 + int (card G))) \<and>
     (pt_result th = Some None \<longrightarrow> chosen_by nd ac key)"

definition log_inv :: "starts \<Rightarrow> Cluster \<Rightarrow> bool" where
  "log_inv g s \<longleftrightarrow> election_inv s \<and>
     log_parts (members s) (node_at s) (vote_calls s) (props_of s) (append_net s) (append_calls s) g \<and>
     (\<forall>key th. proposals s key = Some th \<longrightarrow> thread_ok (node_at s) (append_calls s) key th) \<and>
     (\<forall>i t p. (i, t, p) \<in> beats s \<longrightarrow> p \<in> set (members s)) \<and> \<not> crashed s"

lemma chosen_mono:
  assumes "chosen_by nd ac key" and "peers_of (nd' (fst key)) = peers_of (nd (fst key))"
    and "\<And>p. acked (ac key p) \<Longrightarrow> acked (ac' key p)"
  shows "chosen_by nd' ac' key"
  using assms unfolding chosen_by_def quorum_def by metis

lemma thread_ok_mono:
  assumes "thread_ok nd ac key th" and "peers_of (nd' (fst key)) = peers_of (nd (fst key))"
    and "\<And>p. acked (ac key p) \<Longrightarrow> acked (ac' key p)"
  shows "thread_ok nd' ac' key th"
proof -
  have "\<exists>G \<subseteq> set (peers_of (nd' (fst key))) - set (pt_awaited th).
      (\<forall>p \<in> G. acked (ac' key p)) \<and> pt_acks th = 1 + int (card G)" if "pt_result th = None"
    using assms(1) that assms(3) unfolding thread_ok_def assms(2) by blast
  then show ?thesis
    using assms(1) chosen_mono [of nd ac key nd' ac', OF _ assms(2,3)] unfolding thread_ok_def by blast
qed

lemma log_invD:
  assumes "log_inv g s"
  shows "election_inv s" and "votes_ok (members s) (node_at s) (vote_calls s) (election_of s) (vote_net s)"
    and "log_parts (members s) (node_at s) (vote_calls s) (props_of s) (append_net s) (append_calls s) g"
    and "proposals s key = Some th \<Longrightarrow> thread_ok (node_at s) (append_calls s) key th"
    and "(i, t, p) \<in> beats s \<Longrightarrow> p \<in> set (members s)" and "\<not> crashed s"
  using assms unfolding log_inv_def election_inv_def by blast+

subsection \<open>Completeness in a state\<close>

lemma path_leader:
  assumes "log_parts M nd vc pp an ac g" and "path (proposed pp) L" and "L \<noteq> []"
  shows "\<exists>l. has_won nd vc l (last_term L) \<and> take (length (g l (last_term L))) L = g l (last_term L)"
proof -
  let ?U = "last_term L"
  note d = log_partsD [OF assms(1)]
  have q: "proposed pp ?U (length L) (last L) (last_term (butlast L))" by (rule path_last [OF assms(2,3)])
  then obtain l pr where pr: "length L < 2 ^ 62" "pp (l, ?U, word_of_nat (length L)) = Some pr"
    "pr_prevTerm pr = last_term (butlast L)"
    by (auto simp: proposed_def)
  note p = prop_okD [OF d(3) pr(2)]
  obtain B where B: "path (proposed pp) B" "length B = unat (pr_prevIndex pr)" "last_term B = pr_prevTerm pr"
    "take (length (g l ?U)) B = g l ?U"
    using p(9) by blast
  have "Suc (length B) = length L" using p(5) B(2) unat_word_small [OF pr(1)] by simp
  moreover have "path (proposed pp) (butlast L)" using path_take [OF assms(2)] by (simp add: butlast_conv_take)
  ultimately have eq: "B = butlast L" using path_eq [OF d(1) B(1)] B(3) pr(3) by simp
  have "length (g l ?U) \<le> length B" using B(4) by (metis length_take min.cobounded1)
  then have "take (length (g l ?U)) (B @ [last L]) = g l ?U" using B(4) by simp
  moreover have "B @ [last L] = L" using eq assms(3) by simp
  ultimately show ?thesis using p(2) by auto
qed

lemma chosen_complete:
  assumes parts: "log_parts M nd vc pp an ac g" and ok: "votes_ok M nd vc el vn"
    and pr: "pp (l, T, k) = Some pr" and ch: "chosen_by nd ac (l, T, k)"
  shows "has_won nd vc i t \<Longrightarrow> T < t \<Longrightarrow> holds (g i t) T (unat k)"
proof (rule completeness [of "proposed pp" "has_won nd vc" g])
  note d = log_partsD [OF parts]
  note p = prop_okD [OF d(3) pr]
  show "props_ok (proposed pp)" by (rule d(1))
  show "\<And>L. path (proposed pp) L \<Longrightarrow> L \<noteq> [] \<Longrightarrow>
      \<exists>l. has_won nd vc l (last_term L) \<and> take (length (g l (last_term L))) L = g l (last_term L)"
    by (rule path_leader [OF parts])
  show "\<And>i t. has_won nd vc i t \<Longrightarrow> path (proposed pp) (g i t) \<and> (\<forall>x \<in> set (g i t). le_Term x < t)"
    using d(4) by (simp add: starts_ok_def)
  fix i t assume w: "has_won nd vc i t" "T < t"
  obtain r H where H: "vc i t r \<noteq> VNone" "H \<subseteq> set (peers_of (nd i))" "\<forall>q \<in> H. counted (vc i t q)"
    "quorum (nd i) \<le> 1 + int (card H)"
    using w(1) by (auto simp: has_won_def)
  obtain G where G: "G \<subseteq> set (peers_of (nd l))" "\<forall>q \<in> G. acked (ac (l, T, k) q)" "quorum (nd l) \<le> 1 + int (card G)"
    using ch by (auto simp: chosen_by_def)
  have "config_ok M nd" "calls_ok M nd vc" using ok by (auto simp: votes_ok_def)
  moreover from this(2) have "i \<in> set M" using H(1) by (rule calls_okD(1))
  ultimately obtain q where q: "q \<in> insert l G" "q \<in> insert i H"
    using quorum_meet [OF _ p(1) _ G(1,3) H(2,4)] by blast
  have "accepted pp ac q T (unat k)" using q(1) G(2) pr p(6) unfolding accepted_def by auto
  moreover have "supports pp ac g i t q" using q(2) H(1,3) w(1) voters_okD(1,2) [OF d(7)] by blast
  ultimately show "(\<exists>U. T < U \<and> U < t \<and> bypassed (proposed pp) U T (unat k)) \<or>
      (\<exists>V. path (proposed pp) V \<and> holds V T (unat k) \<and> up_to_date (g i t) V)"
    using w(2) unfolding supports_def by blast
qed

text \<open>A chosen entry is still in the log of the node that proposed it.\<close>

lemma chosen_held:
  assumes parts: "log_parts M nd vc pp an ac g" and ok: "votes_ok M nd vc el vn"
    and pr: "pp (l, T, k) = Some pr" and ch: "chosen_by nd ac (l, T, k)"
  shows "holds (node_log (nd l)) T (unat k)"
proof -
  note d = log_partsD [OF parts]
  note p = prop_okD [OF d(3) pr]
  have "accepted pp ac l T (unat k)" using pr p(6) by (simp add: accepted_def)
  then consider "holds (node_log (nd l)) T (unat k)" | U where "T < U" "bypassed (proposed pp) U T (unat k)"
    using d(8) p(1) unfolding accept_ok_def by blast
  then show ?thesis
  proof cases
    case 2
    then obtain L where L: "path (proposed pp) L" "L \<noteq> []" "last_term L = U" "\<not> holds L T (unat k)"
      by (auto simp: bypassed_def)
    obtain l' where l': "has_won nd vc l' U" "take (length (g l' U)) L = g l' U"
      using path_leader [OF parts L(1,2)] L(3) by blast
    show ?thesis
      using chosen_complete [OF parts ok pr ch l'(1) 2(1)] holds_prefix [OF l'(2)] L(4) by blast
  qed
qed

subsection \<open>The actions\<close>

lemma enqueue_crashed [simp]: "crashed (enqueue s i es) = crashed s"
  by (simp add: enqueue_def)

lemma set_call_crashed [simp]:
  "crashed (set_vote_call s i t p c) = crashed s" "crashed (set_append_call s k p a) = crashed s"
  by (simp_all add: set_vote_call_def set_append_call_def)

text \<open>An action that leaves proposals and their calls alone.\<close>

lemma log_inv_nodes:
  assumes inv: "log_inv g s" and run: "exec a s = Some s'"
    and same: "proposals s' = proposals s" "append_calls s' = append_calls s" "crashed s' = crashed s"
    and peers: "\<And>i. peers_of (node_at s' i) = peers_of (node_at s i)"
    and beats: "\<And>i t p. (i, t, p) \<in> beats s' \<Longrightarrow> p \<in> set (members s)"
    and parts: "log_parts (members s) (node_at s') (vote_calls s') (props_of s) (append_net s') (append_calls s) g'"
  shows "log_inv g' s'"
proof -
  have m: "members s' = members s" by (rule members_exec [OF run])
  have p: "props_of s' = props_of s" unfolding props_of_def same ..
  have "thread_ok (node_at s') (append_calls s') key th" if "proposals s' key = Some th" for key th
    using thread_ok_mono [OF log_invD(4) [OF inv], of key th "node_at s'" "append_calls s'"] that same peers by simp
  then show ?thesis
    unfolding log_inv_def m p using election_inv_exec [OF log_invD(1) [OF inv] run] parts beats same log_invD(6) [OF inv]
    by simp
qed

lemma HandleRequestVote_commit:
  assumes "HandleRequestVote c n req = (n', resp)" and "commitIndex n \<le> lastApplied n"
  shows "commitIndex n' \<le> lastApplied n'"
  using HandleRequestVote_cases(7,8) [OF assms(1)] assms(2) by simp

lemma applied_ok: "log_parts M nd vc pp an ac g \<Longrightarrow> i \<in> set M \<Longrightarrow> commitIndex (nd i) \<le> lastApplied (nd i)"
  using log_partsD(2) by (fastforce simp: log_ok_def)

lemma log_inv_timeout:
  assumes inv: "log_inv g s" and run: "exec (Timeout i c) s = Some s'"
  shows "\<exists>g'. log_inv g' s'"
proof -
  let ?n = "node_at s i"
  note d = log_invD [OF inv]
  have guard: "i \<in> set (members s)" "currentTerm ?n < - 1"
    using run by (auto simp: exec_timeout_def Let_def split: if_splits)
  obtain n' t where el: "startElection c ?n = (n', t)" by fastforce
  have peers: "peers_of n' = peers_of ?n" using el by (auto simp: startElection_def Let_def)
  show ?thesis
  proof (cases "onElectionTimeout ?n")
    case True
    let ?g = "g(i := (g i)(t := node_log ?n))"
    have "log_inv ?g s'"
      by (rule log_inv_nodes [OF inv run])
        (use run True el guard peers d(5) parts_start [OF d(3,2) guard el HOL.refl HOL.refl] in
          \<open>auto simp: exec_timeout_def Let_def split: if_splits\<close>)
    then show ?thesis by blast
  next
    case False
    have "quiet ?n (resetElectionTimer c ?n)" by simp
    then have "log_parts (members s) ((node_at s)(i := resetElectionTimer c ?n)) (vote_calls s) (props_of s)
        (append_net s) (append_calls s) g"
      by (rule parts_node [OF d(3)]) (use applied_ok [OF d(3) guard(1)] in simp_all)
    then have "log_inv g s'"
      by (intro log_inv_nodes [OF inv run])
        (use run False guard d(5) in \<open>auto simp: exec_timeout_def Let_def split: if_splits\<close>)
    then show ?thesis by blast
  qed
qed

lemma log_inv_calls:
  assumes inv: "log_inv g s"
  shows "exec (ReadIndex i t p) s = Some s' \<Longrightarrow> log_inv g s'"
    and "exec (SendVote i t p) s = Some s' \<Longrightarrow> log_inv g s'"
    and "exec (DeliverVote i t p c) s = Some s' \<Longrightarrow> log_inv g s'"
    and "exec (FailVote i t p) s = Some s' \<Longrightarrow> log_inv g s'"
proof -
  note d = log_invD [OF inv]
  have cand: "node_log (node_at s i) = g i t"
    if "i \<in> set (members s)" "state (node_at s i) = StateCandidate" "currentTerm (node_at s i) = t"
    using log_partsD(2) [OF d(3) that(1)] that(2,3) by (simp add: log_ok_def)
  show "log_inv g s'" if run: "exec (ReadIndex i t p) s = Some s'"
  proof -
    have call: "vote_calls s i t p = VSpawned" using run by (auto simp: exec_read_index_def split: vote_call.splits)
    let ?c = "VRead (lastLogIndex (node_at s i))"
    have "log_parts (members s) (node_at s) (move (vote_calls s) i t p ?c) (props_of s) (append_net s) (append_calls s) g"
      by (rule parts_move [OF d(3)]) (use call cand in \<open>simp_all add: lastLogIndex_def\<close>)
    then show ?thesis
      by (intro log_inv_nodes [OF inv run]) (use run call d(5) in \<open>auto simp: exec_read_index_def\<close>)
  qed
  show "log_inv g s'" if run: "exec (SendVote i t p) s = Some s'"
  proof -
    obtain idx where call: "vote_calls s i t p = VRead idx"
      using run by (auto simp: exec_send_vote_def split: vote_call.splits)
    let ?c = "VSent (voteRequest (node_at s i) t idx (lastLogTerm (node_at s i)))"
    have idx: "idx = word_of_nat (length (g i t))"
      if "i \<in> set (members s)" "state (node_at s i) = StateCandidate" "currentTerm (node_at s i) = t"
      using log_partsD(6) [OF d(3)] that call unfolding cand_ok_def by blast
    have "log_parts (members s) (node_at s) (move (vote_calls s) i t p ?c) (props_of s) (append_net s) (append_calls s) g"
      by (rule parts_move [OF d(3)]) (use call cand idx in \<open>simp_all add: voteRequest_def lastLogTerm_eq\<close>)
    then show ?thesis
      by (intro log_inv_nodes [OF inv run]) (use run call d(5) in \<open>auto simp: exec_send_vote_def Let_def\<close>)
  qed
  show "log_inv g s'" if run: "exec (DeliverVote i t p c) s = Some s'"
  proof -
    obtain req where call: "vote_calls s i t p = VSent req"
      using run by (auto simp: exec_deliver_vote_def split: vote_call.splits)
    obtain n' resp where h: "HandleRequestVote c (node_at s p) req = (n', resp)" by fastforce
    show ?thesis
      by (rule log_inv_nodes [OF inv run])
        (use run call h d(5) parts_grant [OF d(3,2) call h] HandleRequestVote_cases(10) [OF h] in
          \<open>auto simp: exec_deliver_vote_def\<close>)
  qed
  show "log_inv g s'" if run: "exec (FailVote i t p) s = Some s'"
  proof -
    obtain req where call: "vote_calls s i t p = VSent req"
      using run by (auto simp: exec_fail_vote_def split: vote_call.splits)
    have "log_parts (members s) (node_at s) (move (vote_calls s) i t p (VReturned \<lparr>rvp_Term = t, rvp_VoteGranted = False\<rparr>))
        (props_of s) (append_net s) (append_calls s) g"
      by (rule parts_move [OF d(3)]) (use call in simp_all)
    then show ?thesis
      by (intro log_inv_nodes [OF inv run]) (use run call d(5) in \<open>auto simp: exec_fail_vote_def\<close>)
  qed
qed

lemma log_inv_count:
  assumes inv: "log_inv g s" and run: "exec (CountVote i p c) s = Some s'"
  shows "log_inv g s'"
proof -
  note d = log_invD [OF inv]
  obtain t votes awaited resp where st: "election_of s i = Voting t votes awaited" "vote_calls s i t p = VReturned resp"
    "p \<in> set awaited"
    using run by (auto simp: exec_count_vote_def split: election.splits vote_call.splits if_splits)
  obtain n' b where h: "onVoteResponse c (node_at s i) t votes resp = (n', b)" by fastforce
  have i: "i \<in> set (members s)" using calls_okD(1) [of "members s" "node_at s" "vote_calls s" i t p] d(2) st(2)
    by (simp add: votes_ok_def)
  have ok: "votes_ok (members s) (node_at s') (vote_calls s') (election_of s') (vote_net s')"
    using election_inv_exec [OF d(1) run] members_exec [OF run] by (simp add: election_inv_def)
  show ?thesis
  proof (cases "b = Abandoned")
    case True
    have q: "quiet (node_at s i) n'" using quiet_VoteResponse [of "node_at s i" c t votes resp] h by simp
    have n': "node_log n' = node_log (node_at s i)" "commitIndex n' \<le> lastApplied n'"
      using h applied_ok [OF d(3) i] by (auto simp: onVoteResponse_def Let_def split: if_splits)
    show ?thesis
      by (rule log_inv_nodes [OF inv run])
        (use run st h True d(5) quietD(2) [OF q] parts_node [OF d(3) q n'] in \<open>auto simp: exec_count_vote_def Let_def\<close>)
  next
    case False
    then have n': "n' = node_at s i" "state (node_at s i) = StateCandidate" "currentTerm (node_at s i) = t"
      using h by (auto simp: onVoteResponse_def Let_def split: if_splits)
    have eq: "node_at s' = node_at s" "vote_calls s' = move (vote_calls s) i t p (VCounted resp)"
      using run st h False n'(1) by (auto simp: exec_count_vote_def Let_def)
    have "log_parts (members s) (node_at s) (move (vote_calls s) i t p (VCounted resp)) (props_of s) (append_net s) (append_calls s) g"
      by (rule parts_count [OF d(3) st(2) i n'(2,3)]) (use ok eq in simp)
    then show ?thesis
      by (intro log_inv_nodes [OF inv run])
        (use run st h False d(5) n' in \<open>auto simp: exec_count_vote_def Let_def\<close>)
  qed
qed

lemma log_inv_quiet:
  assumes inv: "log_inv g s"
  shows "exec (LateVote p vreq c) s = Some s' \<Longrightarrow> log_inv g s'"
    and "exec (CancelElection i) s = Some s' \<Longrightarrow> log_inv g s'"
    and "exec (BecomeLeader i) s = Some s' \<Longrightarrow> log_inv g s'"
    and "exec (Heartbeat i now) s = Some s' \<Longrightarrow> log_inv g s'"
    and "exec (SendBeat i t p x y) s = Some s' \<Longrightarrow> log_inv g s'"
    and "exec (BeatReply i t reply c) s = Some s' \<Longrightarrow> log_inv g s'"
    and "exec (Apply i n) s = Some s' \<Longrightarrow> log_inv g s'"
proof -
  note d = log_invD [OF inv]
  have conf: "config_ok (members s) (node_at s)" and net: "net_ok (members s) (vote_net s)"
    using d(2) by (simp_all add: votes_ok_def)
  show "log_inv g s'" if run: "exec (LateVote p vreq c) s = Some s'"
  proof -
    obtain n' resp where h: "HandleRequestVote c (node_at s p) vreq = (n', resp)" by fastforce
    have p: "p \<in> set (members s)" using run net by (auto simp: exec_late_vote_def net_ok_def split: if_splits)
    have q: "quiet (node_at s p) n'" using quiet_RequestVote [of "node_at s p" c vreq] h by simp
    show ?thesis
      by (rule log_inv_nodes [OF inv run])
        (use run h d(5) quietD(2) [OF q] HandleRequestVote_commit [OF h applied_ok [OF d(3) p]]
          parts_node [OF d(3) q HandleRequestVote_cases(6) [OF h]] in \<open>auto simp: exec_late_vote_def split: if_splits\<close>)
  qed
  show "log_inv g s'" if run: "exec (CancelElection i) s = Some s'"
    by (rule log_inv_nodes [OF inv run]) (use run d in \<open>auto simp: exec_cancel_election_def split: election.splits\<close>)
  show "log_inv g s'" if run: "exec (BecomeLeader i) s = Some s'"
    by (rule log_inv_nodes [OF inv run])
      (use run d parts_leader [OF d(3)] in \<open>auto simp: exec_become_leader_def becomeLeader_def split: election.splits\<close>)
  show "log_inv g s'" if run: "exec (Heartbeat i now) s = Some s'"
  proof -
    let ?n = "fst (sendHeartbeats now (node_at s i))"
    have i: "i \<in> set (members s)" using run by (auto simp: exec_heartbeat_def split: if_splits)
    have n: "quiet (node_at s i) ?n" "node_log ?n = node_log (node_at s i)" "commitIndex ?n \<le> lastApplied ?n"
      using quiet_sendHeartbeats applied_ok [OF d(3) i] by (auto simp: sendHeartbeats_def)
    have st: "node_at s' = (node_at s)(i := ?n)" "beats s' \<subseteq> beats s \<union> (\<lambda>p. (i, currentTerm (node_at s i), p)) ` set (peers_of ?n)"
      "proposals s' = proposals s" "append_calls s' = append_calls s" "crashed s' = crashed s" "append_net s' = append_net s"
      "vote_calls s' = vote_calls s"
      using run by (auto simp: exec_heartbeat_def sendHeartbeats_def split: if_splits)
    have "set (peers_of ?n) \<subseteq> set (members s)" using conf i quietD(2) [OF n(1)] by (auto simp: config_ok_def)
    then show ?thesis
      using st quietD(2) [OF n(1)] d(5) parts_node [OF d(3) n]
      by (intro log_inv_nodes [OF inv run]) auto
  qed
  show "log_inv g s'" if run: "exec (SendBeat i t p x y) s = Some s'"
  proof -
    let ?req = "heartbeatRequest (node_at s i) t x y (commitIndex (node_at s i))"
    have p: "p \<in> set (members s)" using run d(5) by (auto simp: exec_send_beat_def split: if_splits)
    have "log_parts (members s) (node_at s) (vote_calls s) (props_of s) (insert (p, ?req) (append_net s)) (append_calls s) g"
      by (rule parts_net [OF d(3) p]) (simp add: heartbeatRequest_def)
    then show ?thesis
      by (intro log_inv_nodes [OF inv run]) (use run d(5) in \<open>auto simp: exec_send_beat_def Let_def split: if_splits\<close>)
  qed
  show "log_inv g s'" if run: "exec (BeatReply i t reply c) s = Some s'"
  proof -
    let ?n = "onHeartbeatResponse c (node_at s i) t reply"
    have n: "quiet (node_at s i) ?n" "node_log ?n = node_log (node_at s i)"
      "commitIndex ?n = commitIndex (node_at s i)" "lastApplied ?n = lastApplied (node_at s i)"
      using quiet_HeartbeatResponse by (auto simp: onHeartbeatResponse_def Let_def)
    have "commitIndex ?n \<le> lastApplied ?n" if "i \<in> set (members s)" using n(3,4) applied_ok [OF d(3) that] by simp
    note parts = parts_node [OF d(3) n(1,2) this]
    show ?thesis
      by (rule log_inv_nodes [OF inv run])
        (use run d(5) quietD(2) [OF n(1)] parts in \<open>auto simp: exec_beat_reply_def split: if_splits\<close>)
  qed
  show "log_inv g s'" if run: "exec (Apply i n) s = Some s'"
    by (rule log_inv_nodes [OF inv run]) (use run d in \<open>auto simp: exec_apply_def split: if_splits list.splits\<close>)
qed

lemma handle_runs:
  assumes "log_parts M nd vc pp an ac g" and "p \<in> set M"
    and "aeq_Entries req = [] \<or> (\<exists>key pr. pp key = Some pr \<and> carries pr req)"
  shows "\<exists>n' resp es. HandleAppendEntries now c (nd p) req = Some (n', resp, es)"
proof -
  have "length (aeq_Entries req) < 2 ^ 62" using assms(3) by (auto simp: carries_def)
  then show ?thesis
    using HandleAppendEntries_result [OF node_ok_log [OF log_partsD(2) [OF assms(1,2)]], of req now c] by blast
qed

lemma log_inv_deliver:
  assumes inv: "log_inv g s" and run: "exec (DeliverAppend p req now c) s = Some s'"
  shows "log_inv g s'"
proof -
  note d = log_invD [OF inv]
  have net: "(p, req) \<in> append_net s" using run by (auto simp: exec_deliver_append_def split: if_splits)
  note r = reqs_okD(1,2) [OF log_partsD(5) [OF d(3)] net]
  obtain n' resp es where h: "HandleAppendEntries now c (node_at s p) req = Some (n', resp, es)"
    using handle_runs [OF d(3) r] by blast
  show ?thesis
    by (rule log_inv_nodes [OF inv run])
      (use run net h d(5) parts_handle(1) [OF d(3) r h] HandleAppendEntries_frame(2) [OF h] in
        \<open>auto simp: exec_deliver_append_def\<close>)
qed

lemma props_of_upd: "props_of (s\<lparr>proposals := pm\<rparr>) = (\<lambda>key. map_option pt_proposal (pm key))"
  by (simp add: props_of_def fun_eq_iff)

lemma log_invI:
  assumes "log_inv g s" and "exec a s = Some s'" and "\<not> crashed s'" and "beats s' = beats s"
    and "log_parts (members s) (node_at s') (vote_calls s') (props_of s') (append_net s') (append_calls s') g"
    and "\<And>key th. proposals s' key = Some th \<Longrightarrow> thread_ok (node_at s') (append_calls s') key th"
  shows "log_inv g s'"
  using assms election_inv_exec [OF log_invD(1) [OF assms(1)] assms(2)] log_invD(5) [OF assms(1)] members_exec [OF assms(2)]
  unfolding log_inv_def by simp

text \<open>A leader proposes at an index at which it has not proposed in this term.\<close>

lemma propose_fresh:
  assumes "log_inv g s" and "i \<in> set (members s)" and "length (node_log (node_at s i)) + 1 < 2 ^ 62"
    and "Propose (node_at s i) cmd = Inr (n', pr)"
  shows "proposals s (i, currentTerm (node_at s i), pr_newIndex pr) = None"
proof (rule ccontr)
  let ?n = "node_at s i"
  have lead: "state ?n = StateLeader" using assms(4) by (auto simp: Propose_def Let_def split: if_splits)
  assume "\<not> ?thesis"
  then have "holds (node_log ?n) (currentTerm ?n) (unat (pr_newIndex pr))"
    using log_partsD(2) [OF log_invD(3) [OF assms(1)] assms(2)] lead by (simp add: log_ok_def props_of_def)
  moreover have "unat (pr_newIndex pr) = length (node_log ?n) + 1"
    using assms(3,4) lead unat_word_small [of "length (node_log ?n) + 1"]
    by (auto simp: Propose_def Let_def lastLogIndex_def)
  ultimately show False by (simp add: holds_def)
qed

lemma log_inv_propose:
  assumes inv: "log_inv g s" and run: "exec (ClientPropose i cmd) s = Some s'"
  shows "log_inv g s'"
proof (cases "Propose (node_at s i) cmd")
  case (Inl e)
  then have "s' = s" using run by (auto simp: exec_propose_def has_room_def Let_def split: if_splits)
  then show ?thesis using inv by simp
next
  case (Inr r)
  obtain n' pr where r: "r = (n', pr)" by fastforce
  note d = log_invD [OF inv]
  let ?key = "(i, currentTerm (node_at s i), pr_newIndex pr)" and ?ps = "peers_of (node_at s i)"
  let ?th = "\<lparr>pt_proposal = pr, pt_acks = 1, pt_awaited = ?ps,
     pt_result = (if ?ps = [] then Some (Some ErrReplicationFailed) else None)\<rparr>"
  let ?ac = "(append_calls s)(?key := (\<lambda>p. if p \<in> set ?ps then ASpawned else ANone))"
  have g: "i \<in> set (members s)" "length (node_log (node_at s i)) + 1 < 2 ^ 62" "state (node_at s i) = StateLeader"
    using run Inr by (auto simp: exec_propose_def has_room_def Propose_def Let_def split: if_splits)
  have e: "le_Term (pr_entry pr) = currentTerm (node_at s i)" "peers_of n' = ?ps"
    using Inr r g(3) by (auto simp: Propose_def Let_def)
  have st: "s' = (set_node s i n')\<lparr>proposals := (proposals s)(?key \<mapsto> ?th), append_calls := ?ac\<rparr>"
    using run Inr r g e by (simp add: exec_propose_def has_room_def Let_def)
  have pp: "props_of s' = (props_of s)(?key \<mapsto> pr)" unfolding st by (simp add: props_of_def fun_eq_iff)
  note parts = parts_propose [OF d(3,2) g(1,3,2) Inr [unfolded r] HOL.refl HOL.refl HOL.refl]
  have fresh: "props_of s ?key = None" using propose_fresh [OF inv g(1,2) Inr [unfolded r]] by (simp add: props_of_def)
  have none: "append_calls s ?key p = ANone" for p using reqs_okD(3) [OF log_partsD(5) [OF d(3)], of ?key p] fresh by blast
  have dist: "distinct ?ps" using d(2) g(1) by (simp add: votes_ok_def config_ok_def)
  have "thread_ok (node_at s') (append_calls s') key th" if th: "proposals s' key = Some th" for key th
  proof (cases "key = ?key")
    case True
    then have "th = ?th" using th unfolding st by simp
    then show ?thesis using True dist e(2) unfolding st thread_ok_def by (auto intro!: exI [of _ "{}"])
  next
    case False
    then have "proposals s key = Some th" using th unfolding st by simp
    from d(4) [OF this] show ?thesis
      by (rule thread_ok_mono) (use False e(2) none in \<open>auto simp: st\<close>)
  qed
  then show ?thesis
    using parts pp d(6) by (intro log_invI [OF inv run]) (auto simp: st)
qed

lemma log_inv_send_append:
  assumes inv: "log_inv g s" and run: "exec (SendAppend key p) s = Some s'"
  shows "log_inv g s'"
proof -
  note d = log_invD [OF inv]
  obtain th where th: "proposals s key = Some th" "append_calls s key p = ASpawned"
    using run by (auto simp: exec_send_append_def split: option.splits append_call.splits)
  obtain i T k where key: "key = (i, T, k)" by (cases key) auto
  let ?req = "proposalRequest (node_at s i) (pt_proposal th) (commitIndex (node_at s i))"
  have st: "s' = (set_append_call s key p (ASent ?req))\<lparr>append_net := insert (p, ?req) (append_net s)\<rparr>"
    using run th key by (simp add: exec_send_append_def Let_def)
  have pp: "props_of s key = Some (pt_proposal th)" using th(1) by (simp add: props_of_def)
  have carry: "carries (pt_proposal th) ?req" by (simp add: carries_def proposalRequest_def)
  have r: "aeq_Entries ?req = [] \<or> (\<exists>key pr. props_of s key = Some pr \<and> carries pr ?req)" using pp carry by blast
  have "i \<in> set (members s)" using prop_okD(1) [OF log_partsD(3) [OF d(3)]] pp key by blast
  then have p: "p \<in> set (members s)"
    using reqs_okD(4) [OF log_partsD(5) [OF d(3)], of key p] th(2) d(2) key
    by (auto simp: votes_ok_def config_ok_def)
  have "log_parts (members s) (node_at s) (vote_calls s) (props_of s) (insert (p, ?req) (append_net s))
      (set_call (append_calls s) key p (ASent ?req)) g"
    by (rule parts_net [OF parts_call [OF d(3)] p r]) (use th(2) pp carry in auto)
  moreover have "props_of s' = props_of s" by (simp add: props_of_def fun_eq_iff st)
  moreover have "thread_ok (node_at s') (append_calls s') key' th'" if "proposals s' key' = Some th'" for key' th'
    by (rule thread_ok_mono [OF d(4), of key' th']) (use that th(2) in \<open>auto simp: st set_call_cases\<close>)
  ultimately show ?thesis using d(6) by (intro log_invI [OF inv run]) (auto simp: st)
qed

lemma log_inv_fail_append:
  assumes inv: "log_inv g s" and run: "exec (FailAppend key p) s = Some s'"
  shows "log_inv g s'"
proof -
  note d = log_invD [OF inv]
  obtain req where c: "append_calls s key p = ASent req"
    using run by (auto simp: exec_fail_append_def split: append_call.splits)
  let ?c = "AReturned \<lparr>aep_Term = aeq_Term req, aep_Success = False\<rparr>"
  have st: "s' = set_append_call s key p ?c" using run c by (simp add: exec_fail_append_def)
  have "log_parts (members s) (node_at s) (vote_calls s) (props_of s) (append_net s) (set_call (append_calls s) key p ?c) g"
    by (rule parts_call [OF d(3)]) (use c in auto)
  moreover have "props_of s' = props_of s" by (simp add: props_of_def fun_eq_iff st)
  moreover have "thread_ok (node_at s') (append_calls s') key' th'" if "proposals s' key' = Some th'" for key' th'
    by (rule thread_ok_mono [OF d(4), of key' th']) (use that c in \<open>auto simp: st set_call_cases\<close>)
  ultimately show ?thesis using d(6) by (intro log_invI [OF inv run]) (auto simp: st)
qed

lemma log_inv_cancel_proposal:
  assumes inv: "log_inv g s" and run: "exec (CancelProposal key) s = Some s'"
  shows "log_inv g s'"
proof -
  note d = log_invD [OF inv]
  obtain th where th: "proposals s key = Some th" "pt_result th = None"
    using run by (auto simp: exec_cancel_proposal_def split: option.splits if_splits)
  let ?th = "th\<lparr>pt_result := Some (Some ErrCancelled)\<rparr>"
  have st: "s' = s\<lparr>proposals := (proposals s)(key \<mapsto> ?th)\<rparr>"
    using run th by (simp add: exec_cancel_proposal_def)
  have "props_of s' = props_of s" using th(1) by (simp add: props_of_def fun_eq_iff st)
  moreover have "thread_ok (node_at s') (append_calls s') key' th'" if "proposals s' key' = Some th'" for key' th'
  proof (cases "key' = key")
    case True
    then have "th' = ?th" using that by (simp add: st)
    then show ?thesis by (simp add: thread_ok_def)
  next
    case False
    then have "proposals s key' = Some th'" using that by (simp add: st)
    then show ?thesis using d(4) by (simp add: st)
  qed
  moreover have "node_at s' = node_at s" "append_calls s' = append_calls s" "append_net s' = append_net s"
    "vote_calls s' = vote_calls s" "beats s' = beats s" "crashed s' = crashed s"
    by (simp_all add: st)
  ultimately show ?thesis using d(3,6) by (intro log_invI [OF inv run]) simp_all
qed

lemma log_inv_answer:
  assumes inv: "log_inv g s" and run: "exec (AnswerAppend key p now c) s = Some s'"
  shows "log_inv g s'"
proof -
  note d = log_invD [OF inv]
  obtain req where call: "append_calls s key p = ASent req"
    using run by (auto simp: exec_answer_append_def split: append_call.splits)
  obtain l T k where key: "key = (l, T, k)" by (cases key) auto
  note rq = log_partsD(5) [OF d(3)]
  obtain pr where pr: "props_of s key = Some pr" using reqs_okD(3) [OF rq, of key p] call by auto
  have carry: "carries pr req" by (rule reqs_okD(5) [OF rq call pr])
  have "l \<in> set (members s)" using prop_okD(1) [OF log_partsD(3) [OF d(3)]] pr key by blast
  then have p: "p \<in> set (members s)"
    using reqs_okD(4) [OF rq, of key p] call d(2) key by (auto simp: votes_ok_def config_ok_def)
  have r: "aeq_Entries req = [] \<or> (\<exists>key pr. props_of s key = Some pr \<and> carries pr req)" using pr carry by blast
  obtain n' resp es where h: "HandleAppendEntries now c (node_at s p) req = Some (n', resp, es)"
    using handle_runs [OF d(3) p r] by blast
  let ?s = "set_node (set_append_call s key p (AReturned resp)) p n'"
  have st: "s' = enqueue ?s p es" using run call h by (simp add: exec_answer_append_def)
  have parts: "log_parts (members s) ((node_at s)(p := n')) (vote_calls s) (props_of s) (append_net s) (append_calls s) g"
    by (rule parts_handle(1) [OF d(3) p r h])
  have ok: "votes_ok (members s) (node_at s') (vote_calls s') (election_of s') (vote_net s')"
    using election_inv_exec [OF d(1) run] members_exec [OF run] by (simp add: election_inv_def)
  have "log_parts (members s) ((node_at s)(p := n')) (vote_calls s) (props_of s) (append_net s)
      (set_call (append_calls s) key p (AReturned resp)) g"
  proof (cases "aep_Success resp")
    case True
    then have new: "holds (node_log n') T (unat k)" "currentTerm n' = T"
      using parts_handle(2) [OF d(3) p r h _ _ carry] pr key by blast+
    have "calls_ok (members s) ((node_at s)(p := n')) (vote_calls s)" using ok st by (simp add: votes_ok_def)
    then show ?thesis
      unfolding key using parts_ack [OF parts, of l T k p resp] new call key by simp
  next
    case False
    show ?thesis by (rule parts_call [OF parts]) (use call False in auto)
  qed
  moreover have "props_of s' = props_of s" by (simp add: props_of_def fun_eq_iff st)
  moreover have "thread_ok (node_at s') (append_calls s') key' th'" if "proposals s' key' = Some th'" for key' th'
    by (rule thread_ok_mono [OF d(4), of key' th'])
      (use that call HandleAppendEntries_frame(2) [OF h] in \<open>auto simp: st set_call_cases\<close>)
  ultimately show ?thesis using d(6) by (intro log_invI [OF inv run]) (auto simp: st)
qed

lemma ack_result:
  assumes "commitIndex n \<le> lastApplied n"
    and fit: "aep_Success resp \<Longrightarrow> quorum n \<le> acks + 1 \<Longrightarrow> unat (pr_newIndex pr) \<le> length (node_log n)"
  obtains n' r where "onAppendResponse n pr acks resp = Some (n', r)" and "node_log n' = node_log n"
    and "commitIndex n' \<le> lastApplied n'" and "\<And>es. r = Committed es \<Longrightarrow> aep_Success resp \<and> quorum n \<le> acks + 1"
    and "\<And>a. r = Pending a \<Longrightarrow> a = (if aep_Success resp then acks + 1 else acks)"
proof (cases "\<not> aep_Term resp > le_Term (pr_entry pr) \<and> aep_Success resp \<and> quorum n \<le> acks + 1 \<and> commitIndex n < pr_newIndex pr")
  case True
  let ?n = "n\<lparr>commitIndex := pr_newIndex pr\<rparr>"
  have "commitIndex ?n \<le> lastApplied ?n \<or> unat (commitIndex ?n) \<le> length (node_log ?n)" using fit True by simp
  from collectCommitted_eq [OF this] show ?thesis
    using True by (intro that [of "?n\<lparr>lastApplied := max (lastApplied ?n) (commitIndex ?n)\<rparr>"
          "Committed (drop (unat (lastApplied ?n)) (take (unat (commitIndex ?n)) (node_log ?n)))"])
      (auto simp: onAppendResponse_def Let_def)
next
  case False
  have "\<exists>n' r. onAppendResponse n pr acks resp = Some (n', r) \<and> node_log n' = node_log n \<and>
      commitIndex n' \<le> lastApplied n' \<and> (\<forall>es. r = Committed es \<longrightarrow> aep_Success resp \<and> quorum n \<le> acks + 1) \<and>
      (\<forall>a. r = Pending a \<longrightarrow> a = (if aep_Success resp then acks + 1 else acks))"
    using False assms(1) by (auto simp: onAppendResponse_def Let_def)
  then show ?thesis using that by blast
qed

lemma log_inv_count_ack:
  assumes inv: "log_inv g s" and run: "exec (CountAck key p) s = Some s'"
  shows "log_inv g s'"
proof -
  note d = log_invD [OF inv]
  obtain th resp where th: "proposals s key = Some th" "append_calls s key p = AReturned resp" "pt_result th = None"
    "p \<in> set (pt_awaited th)"
    using run by (auto simp: exec_count_ack_def split: option.splits append_call.splits if_splits)
  obtain l T k where key: "key = (l, T, k)" by (cases key) auto
  let ?n = "node_at s l" and ?pr = "pt_proposal th" and ?rest = "remove1 p (pt_awaited th)"
  have pr: "props_of s key = Some ?pr" using th(1) by (simp add: props_of_def)
  note po = prop_okD [OF log_partsD(3) [OF d(3)] pr [unfolded key]]
  obtain G where G: "distinct (pt_awaited th)" "G \<subseteq> set (peers_of ?n) - set (pt_awaited th)" "\<forall>q \<in> G. acked (append_calls s key q)"
    "pt_acks th = 1 + int (card G)"
    using d(4) [OF th(1)] th(3) key unfolding thread_ok_def by auto
  define G' where "G' = (if aep_Success resp then insert p G else G)"
  have peer: "p \<in> set (peers_of ?n)" using reqs_okD(4) [OF log_partsD(5) [OF d(3)], of key p] th(2) key by simp
  have G': "G' \<subseteq> set (peers_of ?n) - set ?rest" "\<forall>q \<in> G'. acked (append_calls s key q)"
    using G(1-3) peer th(2) by (auto simp: G'_def)
  have "finite G" "p \<notin> G" using G(2) th(4) finite_subset by blast+
  then have card: "1 + int (card G') = (if aep_Success resp then pt_acks th + 1 else pt_acks th)"
    by (simp add: G'_def G(4))
  have chosen: "chosen_by (node_at s) (append_calls s) key" if "aep_Success resp" "quorum ?n \<le> pt_acks th + 1"
    unfolding chosen_by_def using G' card that key by (intro exI [of _ G']) auto
  have fit: "unat (pr_newIndex ?pr) \<le> length (node_log ?n)" if "aep_Success resp" "quorum ?n \<le> pt_acks th + 1"
    using chosen_held [OF d(3,2) pr [unfolded key] chosen [OF that, unfolded key]] po(4) by (simp add: holds_def)
  obtain n' r where res: "onAppendResponse ?n ?pr (pt_acks th) resp = Some (n', r)" "node_log n' = node_log ?n"
    "commitIndex n' \<le> lastApplied n'" "\<And>es. r = Committed es \<Longrightarrow> aep_Success resp \<and> quorum ?n \<le> pt_acks th + 1"
    "\<And>a. r = Pending a \<Longrightarrow> a = (if aep_Success resp then pt_acks th + 1 else pt_acks th)"
    using ack_result [OF applied_ok [OF d(3) po(1)] fit] by blast
  define th' where "th' = (case r of
      Refused e \<Rightarrow> th\<lparr>pt_awaited := ?rest, pt_result := Some (Some e)\<rparr>
    | Pending a \<Rightarrow> th\<lparr>pt_acks := a, pt_awaited := ?rest,
        pt_result := (if ?rest = [] then Some (Some ErrReplicationFailed) else None)\<rparr>
    | Committed es \<Rightarrow> th\<lparr>pt_acks := pt_acks th + 1, pt_awaited := ?rest, pt_result := Some None\<rparr>)"
  define es where "es = (case r of Committed es \<Rightarrow> es | _ \<Rightarrow> [])"
  have st: "s' = enqueue ((set_node (set_append_call s key p (ACounted resp)) l n')\<lparr>proposals := (proposals s)(key \<mapsto> th')\<rparr>) l es"
    using run th res(1) key by (simp add: exec_count_ack_def Let_def th'_def es_def)
  have q: "quiet ?n n'" by (rule quiet_AppendResponse [OF res(1)])
  let ?ac = "set_call (append_calls s) key p (ACounted resp)"
  have "log_parts (members s) ((node_at s)(l := n')) (vote_calls s) (props_of s) (append_net s) ?ac g"
    by (rule parts_call [OF parts_node [OF d(3) q res(2,3)]]) (use th(2) in auto)
  moreover have pt: "pt_proposal th' = ?pr" by (simp add: th'_def split: tally.splits)
  then have "props_of s' = props_of s" using th(1) by (simp add: props_of_def fun_eq_iff st)
  moreover have acks: "acked (append_calls s key' q) \<Longrightarrow> acked (?ac key' q)" for key' q
    using th(2) by (auto simp: set_call_cases)
  moreover have peers: "peers_of (((node_at s)(l := n')) j) = peers_of (node_at s j)" for j using quietD(2) [OF q] by simp
  have "thread_ok ((node_at s)(l := n')) ?ac key th'"
  proof (cases r)
    case (Refused e)
    then show ?thesis by (simp add: thread_ok_def th'_def)
  next
    case (Committed e)
    then have "chosen_by (node_at s) (append_calls s) key" using chosen res(4) by blast
    then have "chosen_by ((node_at s)(l := n')) ?ac key" by (rule chosen_mono) (use peers acks in blast)+
    then show ?thesis using Committed by (simp add: thread_ok_def th'_def)
  next
    case (Pending a)
    then have "a = 1 + int (card G')" using res(5) card by simp
    moreover have "\<forall>q \<in> G'. acked (?ac key q)" using G'(2) acks by blast
    ultimately show ?thesis
      using Pending G(1) G'(1) key quietD(2) [OF q] unfolding thread_ok_def th'_def by auto
  qed
  moreover have "thread_ok ((node_at s)(l := n')) ?ac key' th''" if "proposals s key' = Some th''" for key' th''
    by (rule thread_ok_mono [OF d(4) [OF that]]) (use peers acks in blast)+
  ultimately show ?thesis
    using d(6) by (intro log_invI [OF inv run]) (auto simp: st split: if_splits)
qed

lemma log_inv_exec:
  assumes inv: "log_inv g s" and run: "exec a s = Some s'"
  shows "\<exists>g'. log_inv g' s'"
proof (cases a)
  case (Timeout i c)
  then show ?thesis using log_inv_timeout inv run by blast
next
  case (CountVote i p c)
  then show ?thesis using log_inv_count inv run by blast
qed (use run in \<open>auto intro: log_inv_calls [OF inv] log_inv_quiet [OF inv] log_inv_deliver [OF inv] log_inv_propose [OF inv]
  log_inv_send_append [OF inv] log_inv_fail_append [OF inv] log_inv_cancel_proposal [OF inv] log_inv_answer [OF inv]
  log_inv_count_ack [OF inv] simp del: exec.simps\<close>)

lemma log_inv_initial:
  assumes "initial s"
  shows "log_inv (\<lambda>_ _. []) s"
proof -
  have s: "proposals s = Map.empty" "append_calls s = (\<lambda>_ _. ANone)" "append_net s = {}" "beats s = {}" "\<not> crashed s"
    "vote_calls s = (\<lambda>_ _ _. VNone)"
    using assms by (simp_all add: initial_def)
  have pp: "props_of s = (\<lambda>_. None)" by (simp add: props_of_def fun_eq_iff s)
  have none: "\<not> proposed (\<lambda>_. None) T k e t" for T k e t by (simp add: proposed_def)
  have "log_parts (members s) (node_at s) (vote_calls s) (props_of s) (append_net s) (append_calls s) (\<lambda>_ _. [])"
    unfolding pp s
    using initial_node [OF assms] none
    by (simp add: log_parts_def props_ok_def log_ok_def prop_ok_def starts_ok_def reqs_ok_def cand_ok_def voters_ok_def
        accept_ok_def accepted_def)
  then show ?thesis using election_inv_initial [OF assms] s by (simp add: log_inv_def)
qed

lemma log_inv_steps: "steps s s' \<Longrightarrow> log_inv g s \<Longrightarrow> \<exists>g'. log_inv g' s'"
  by (induction rule: steps.induct) (use log_inv_exec in blast)+

lemma reachable_log_inv: "reachable s \<Longrightarrow> \<exists>g. log_inv g s"
  using log_inv_initial log_inv_steps unfolding reachable_def by blast

subsection \<open>Proposals that have succeeded\<close>

lemma enqueue_proposals [simp]: "proposals (enqueue s i es) = proposals s"
  by (simp add: enqueue_def)

lemma set_vote_call_proposals [simp]: "proposals (set_vote_call s i t p c) = proposals s"
  by (simp add: set_vote_call_def)

text \<open>The outcome of a call of \<^verbatim>\<open>Propose\<close> stays what it is.\<close>

lemma succeeded_exec:
  assumes inv: "log_inv g s" and th: "proposals s key = Some th" "pt_result th = Some None"
    and run: "exec a s = Some s'"
  shows "proposals s' key = Some th"
proof (cases a)
  case (ClientPropose i cmd)
  show ?thesis
  proof (cases "Propose (node_at s i) cmd")
    case (Inl e)
    then show ?thesis using run ClientPropose th by (auto simp: exec_propose_def has_room_def Let_def split: if_splits)
  next
    case (Inr r)
    obtain n' pr where r: "r = (n', pr)" by fastforce
    have g: "i \<in> set (members s)" "length (node_log (node_at s i)) + 1 < 2 ^ 62"
      using run ClientPropose by (auto simp: exec_propose_def has_room_def Let_def split: if_splits)
    have "le_Term (pr_entry pr) = currentTerm (node_at s i)"
      using Inr r by (auto simp: Propose_def Let_def split: if_splits)
    moreover have "(i, currentTerm (node_at s i), pr_newIndex pr) \<noteq> key"
      using propose_fresh [OF inv g Inr [unfolded r]] th(1) by auto
    ultimately show ?thesis using run ClientPropose Inr r g th(1) by (auto simp: exec_propose_def has_room_def Let_def)
  qed
next
  case (CountAck k p)
  then show ?thesis
    using run th by (auto simp: exec_count_ack_def Let_def split: option.splits append_call.splits if_splits)
next
  case (CancelProposal k)
  then show ?thesis using run th by (auto simp: exec_cancel_proposal_def split: option.splits if_splits)
qed (use run th(1) in \<open>auto simp: exec_timeout_def exec_read_index_def exec_send_vote_def exec_deliver_vote_def
  exec_late_vote_def exec_fail_vote_def exec_count_vote_def exec_cancel_election_def exec_become_leader_def
  exec_heartbeat_def exec_send_beat_def exec_deliver_append_def exec_beat_reply_def exec_send_append_def
  exec_answer_append_def exec_fail_append_def exec_apply_def Let_def
  split: option.splits vote_call.splits append_call.splits election.splits if_splits prod.splits list.splits\<close>)

lemma succeeded_steps:
  "steps s s' \<Longrightarrow> log_inv g s \<Longrightarrow> proposals s key = Some th \<Longrightarrow> pt_result th = Some None \<Longrightarrow> proposals s' key = Some th"
proof (induction rule: steps.induct)
  case (step s s' a s'')
  then show ?case using log_inv_steps succeeded_exec by metis
qed simp

lemma leader_holds:
  assumes inv: "log_inv g s" and th: "proposals s (l, T, k) = Some th" "pt_result th = Some None"
    and i: "i \<in> set (members s)" "state (node_at s i) = StateLeader" "T \<le> currentTerm (node_at s i)"
  shows "holds (node_log (node_at s i)) T (unat k)"
proof -
  let ?n = "node_at s i"
  note d = log_invD [OF inv]
  have pr: "props_of s (l, T, k) = Some (pt_proposal th)" using th(1) by (simp add: props_of_def)
  note p = prop_okD [OF log_partsD(3) [OF d(3)] pr]
  have ok: "log_ok (props_of s) g i ?n" by (rule log_partsD(2) [OF d(3) i(1)])
  have won: "has_won (node_at s) (vote_calls s) i (currentTerm ?n)" by (rule leader_has_won [OF d(1) i(1,2)])
  show ?thesis
  proof (cases "T < currentTerm ?n")
    case True
    have "chosen_by (node_at s) (append_calls s) (l, T, k)" using d(4) [OF th(1)] th(2) by (simp add: thread_ok_def)
    from chosen_complete [OF d(3,2) pr this won True] show ?thesis
      using ok i(2) holds_prefix [of "g i (currentTerm ?n)" "node_log ?n"] by (simp add: log_ok_def)
  next
    case False
    then have T: "T = currentTerm ?n" using i(3) by simp
    have "l = i" by (rule one_winner_inv [OF d(1) p(2)]) (use won T in simp)
    then show ?thesis using ok i(2) pr T by (simp add: log_ok_def)
  qed
qed

lemma held_entry:
  assumes inv: "log_inv g s" and th: "proposals s (l, T, k) = Some th"
    and i: "i \<in> set (members s)" and h: "holds (node_log (node_at s i)) T (unat k)"
  shows "node_log (node_at s i) ! (unat k - 1) = pr_entry (pt_proposal th)"
proof -
  note d = log_invD [OF inv]
  have pr: "props_of s (l, T, k) = Some (pt_proposal th)" using th(1) by (simp add: props_of_def)
  have "path (proposed (props_of s)) (node_log (node_at s i))"
    using log_partsD(2) [OF d(3) i] by (simp add: log_ok_def)
  from path_nth [OF this h] have
    "proposed (props_of s) T (unat k) (node_log (node_at s i) ! (unat k - 1)) (last_term (take (unat k - 1) (node_log (node_at s i))))" .
  moreover have "proposed (props_of s) T (unat k) (pr_entry (pt_proposal th)) (pr_prevTerm (pt_proposal th))"
    using pr prop_okD(6) [OF log_partsD(3) [OF d(3)] pr] by (auto simp: proposed_def)
  ultimately show ?thesis using props_okD(1) [OF log_partsD(1) [OF d(3)]] by blast
qed

section \<open>What a client and an operator rely on\<close>

text \<open>
  C3: log matching. In every execution of a group of coordinators, if the logs of two nodes have an
  entry of the same term at the same index, then they are identical up to this index.
\<close>

theorem log_matching:
  assumes "reachable s" and "i \<in> set (members s)" and "j \<in> set (members s)"
    and "m < length (node_log (node_at s i))" and "m < length (node_log (node_at s j))"
    and "le_Term (node_log (node_at s i) ! m) = le_Term (node_log (node_at s j) ! m)"
  shows "take (Suc m) (node_log (node_at s i)) = take (Suc m) (node_log (node_at s j))"
proof -
  obtain g where inv: "log_inv g s" using reachable_log_inv [OF assms(1)] by blast
  note d = log_invD(3) [OF inv]
  have "path (proposed (props_of s)) (node_log (node_at s i))" "path (proposed (props_of s)) (node_log (node_at s j))"
    using log_partsD(2) [OF d] assms(2,3) by (simp_all add: log_ok_def)
  then show ?thesis
    by (rule path_match [OF log_partsD(1) [OF d]]) (use assms(4-6) in \<open>auto simp: holds_def\<close>)
qed

text \<open>
  C1: durability of acknowledged commands. Once a call of \<^verbatim>\<open>Propose\<close> has returned without an error, the
  proposed entry is, at its index, in the log of every node that is leader of the same or a later
  term, then or at any later point of the execution, whatever messages are lost, delayed or repeated.
\<close>

theorem acknowledged_durable:
  assumes "reachable s" and "proposals s (l, T, k) = Some th" and "pt_result th = Some None"
    and "steps s s'" and "i \<in> set (members s)" and "state (node_at s' i) = StateLeader"
    and "T \<le> currentTerm (node_at s' i)"
  shows "0 < unat k \<and> unat k \<le> length (node_log (node_at s' i)) \<and>
    node_log (node_at s' i) ! (unat k - 1) = pr_entry (pt_proposal th)"
proof -
  obtain g g' where inv: "log_inv g s" "log_inv g' s'"
    using reachable_log_inv [OF assms(1)] log_inv_steps [OF assms(4)] by blast
  have th: "proposals s' (l, T, k) = Some th" by (rule succeeded_steps [OF assms(4) inv(1) assms(2,3)])
  have i: "i \<in> set (members s')" using members_steps [OF assms(4)] assms(5) by simp
  have h: "holds (node_log (node_at s' i)) T (unat k)" by (rule leader_holds [OF inv(2) th assms(3) i assms(6,7)])
  from held_entry [OF inv(2) th i h] show ?thesis using h by (simp add: holds_def)
qed

text \<open>
  C23: no node ever panics. In no execution does a node index its log out of range, neither when it
  handles an append request nor when it counts an acknowledgement.
\<close>

theorem no_panic:
  assumes "reachable s"
  shows "\<not> crashed s"
  using reachable_log_inv [OF assms] log_invD(6) by blast

theorem no_panic_witness: "reachable (example_cluster [''a'', ''b'', ''c'']) \<and> \<not> crashed (example_cluster [''a'', ''b'', ''c''])"
proof -
  have "reachable (example_cluster [''a'', ''b'', ''c''])"
    using reachable_example [of "[]" "[''a'', ''b'', ''c'']"] by simp
  then show ?thesis using no_panic by blast
qed

text \<open>
  In the following execution \<open>a\<close> is elected by \<open>b\<close> and proposes a command, which it replicates to \<open>b\<close>;
  then \<open>b\<close> is elected by \<open>c\<close>.
\<close>

definition replicate_to :: "string \<Rightarrow> u64 \<Rightarrow> u64 \<Rightarrow> string \<Rightarrow> action list" where
  "replicate_to i t k p = [SendAppend (i, t, k) p, AnswerAppend (i, t, k) p 0 0, CountAck (i, t, k) p]"

definition example_schedule :: "action list" where
  "example_schedule = elect ''a'' 1 [''b''] @ [ClientPropose ''a'' ''x''] @ replicate_to ''a'' 1 1 ''b''"

lemma example_replicated:
  "case run example_schedule (example_cluster [''a'', ''b'', ''c'']) of
     None \<Rightarrow> False
   | Some s \<Rightarrow> members s = [''a'', ''b'', ''c''] \<and>
       map_option (\<lambda>th. (pt_result th, pr_entry (pt_proposal th))) (proposals s (''a'', 1, 1))
         = Some (Some None, \<lparr>le_Term = 1, le_Command = ''x''\<rparr>) \<and>
       node_log (node_at s ''a'') = [\<lparr>le_Term = 1, le_Command = ''x''\<rparr>] \<and>
       node_log (node_at s ''b'') = [\<lparr>le_Term = 1, le_Command = ''x''\<rparr>] \<and>
       (case run (elect ''b'' 2 [''c'']) s of
          None \<Rightarrow> False
        | Some s' \<Rightarrow> state (node_at s' ''b'') = StateLeader \<and> currentTerm (node_at s' ''b'') = 2)"
  by code_simp

theorem log_matching_witness:
  "\<exists>s i j m. reachable s \<and> i \<in> set (members s) \<and> j \<in> set (members s) \<and> i \<noteq> j \<and>
     m < length (node_log (node_at s i)) \<and> m < length (node_log (node_at s j)) \<and>
     le_Term (node_log (node_at s i) ! m) = le_Term (node_log (node_at s j) ! m) \<and>
     take (Suc m) (node_log (node_at s i)) = take (Suc m) (node_log (node_at s j))"
proof -
  obtain s where run: "run example_schedule (example_cluster [''a'', ''b'', ''c'']) = Some s"
    and m: "members s = [''a'', ''b'', ''c'']" and e: "node_log (node_at s ''a'') = [\<lparr>le_Term = 1, le_Command = ''x''\<rparr>]"
    "node_log (node_at s ''b'') = [\<lparr>le_Term = 1, le_Command = ''x''\<rparr>]"
    using example_replicated by (auto split: option.splits)
  have r: "reachable s" by (rule reachable_example [OF run]) simp_all
  have "take (Suc 0) (node_log (node_at s ''a'')) = take (Suc 0) (node_log (node_at s ''b''))"
    by (rule log_matching [OF r]) (simp_all add: m e)
  then show ?thesis
    using r by (intro exI [of _ s] exI [of _ "''a''"] exI [of _ "''b''"] exI [of _ 0]) (simp add: m e)
qed

theorem acknowledged_durable_witness:
  "\<exists>s s' th. reachable s \<and> proposals s (''a'', 1, 1) = Some th \<and> pt_result th = Some None \<and> steps s s' \<and>
     state (node_at s' ''b'') = StateLeader \<and> currentTerm (node_at s' ''b'') = 2 \<and>
     node_log (node_at s' ''b'') ! 0 = pr_entry (pt_proposal th)"
proof -
  obtain s s' th where run: "run example_schedule (example_cluster [''a'', ''b'', ''c'']) = Some s"
    "run (elect ''b'' 2 [''c'']) s = Some s'"
    and e: "members s = [''a'', ''b'', ''c'']" "proposals s (''a'', 1, 1) = Some th" "pt_result th = Some None"
    "state (node_at s' ''b'') = StateLeader" "currentTerm (node_at s' ''b'') = 2"
    using example_replicated by (auto split: option.splits)
  have r: "reachable s" "steps s s'" using reachable_example [OF run(1)] run_steps [OF run(2)] by simp_all
  have "node_log (node_at s' ''b'') ! (unat (1 :: u64) - 1) = pr_entry (pt_proposal th)"
    using acknowledged_durable [OF r(1) e(2,3) r(2), of "''b''"] e by simp
  then show ?thesis using r e by (intro exI [of _ s] exI [of _ s'] exI [of _ th]) simp
qed

section \<open>Where the code departs from the protocol\<close>

text \<open>
  C38: a group of one coordinator never has a leader. The votes are compared with the quorum only when a
  response arrives, and a node without peers gets none.
\<close>

theorem single_never_leads:
  assumes "reachable s" and "members s = [i]"
  shows "state (node_at s i) \<noteq> StateLeader"
proof
  assume lead: "state (node_at s i) = StateLeader"
  have inv: "election_inv s" by (rule reachable_election_inv [OF assms(1)])
  then have ok: "calls_ok (members s) (node_at s) (vote_calls s)" "config_ok (members s) (node_at s)"
    by (auto simp: election_inv_def votes_ok_def)
  obtain p where "vote_calls s i (currentTerm (node_at s i)) p \<noteq> VNone"
    using leader_has_won [OF inv _ lead] assms(2) by (auto simp: has_won_def)
  then have "p \<in> set (peers_of (node_at s i))" by (rule calls_okD(2) [OF ok(1)])
  then show False using ok(2) assms(2) by (simp add: config_ok_def)
qed

theorem single_never_leads_witness:
  "reachable (example_cluster [''a'']) \<and> state (node_at (example_cluster [''a'']) ''a'') \<noteq> StateLeader"
proof -
  have "reachable (example_cluster [''a''])" using reachable_example [of "[]" "[''a'']"] by simp
  moreover have "members (example_cluster [''a'']) = [''a'']" by (simp add: example_cluster_def)
  ultimately show ?thesis using single_never_leads by blast
qed

text \<open>
  In this execution \<open>a\<close>, leader of term 1, appends \<open>x\<close> to its log, and then loses contact; \<open>b\<close> is elected
  in term 2, commits \<open>y\<close> with \<open>c\<close>, and sends a heartbeat to \<open>a\<close>.
\<close>

definition divergent_schedule :: "action list" where
  "divergent_schedule = elect ''a'' 1 [''b''] @ [ClientPropose ''a'' ''x''] @
     elect ''b'' 2 [''c''] @ [ClientPropose ''b'' ''y''] @ replicate_to ''b'' 2 1 ''c'' @ [Apply ''b'' 0] @
     [Heartbeat ''b'' 0, SendBeat ''b'' 2 ''a'' 1 2,
      DeliverAppend ''a'' \<lparr>aeq_Term = 2, aeq_LeaderID = ''b'', aeq_PrevLogIndex = 1, aeq_PrevLogTerm = 2, aeq_Entries = [],
        aeq_LeaderCommit = 1\<rparr> 0 0, Apply ''a'' 0]"

lemma divergent_run:
  "case run divergent_schedule (example_cluster [''a'', ''b'', ''c'']) of
     None \<Rightarrow> False
   | Some s \<Rightarrow> applied s ''a'' = [\<lparr>le_Term = 1, le_Command = ''x''\<rparr>] \<and> applied s ''b'' = [\<lparr>le_Term = 2, le_Command = ''y''\<rparr>] \<and>
       map_option pt_result (proposals s (''b'', 2, 1)) = Some (Some None) \<and>
       append_calls s (''a'', 1, 1) ''b'' = ASpawned \<and> append_calls s (''a'', 1, 1) ''c'' = ASpawned"
  by code_simp

text \<open>
  C39: an empty append request makes a follower commit entries that no majority has. There is an execution
  of three coordinators in which the command \<open>y\<close> is acknowledged and applied as the first command of
  \<open>b\<close>, while \<open>a\<close>, on a heartbeat of \<open>b\<close>, applies as its first command \<open>x\<close>, which it has sent to nobody.
\<close>

theorem heartbeat_commits_divergent:
  "\<exists>s. reachable s \<and> applied s ''a'' = [\<lparr>le_Term = 1, le_Command = ''x''\<rparr>] \<and>
     applied s ''b'' = [\<lparr>le_Term = 2, le_Command = ''y''\<rparr>] \<and>
     map_option pt_result (proposals s (''b'', 2, 1)) = Some (Some None) \<and>
     append_calls s (''a'', 1, 1) ''b'' = ASpawned \<and> append_calls s (''a'', 1, 1) ''c'' = ASpawned"
proof -
  obtain s where run: "run divergent_schedule (example_cluster [''a'', ''b'', ''c'']) = Some s"
    and e: "applied s ''a'' = [\<lparr>le_Term = 1, le_Command = ''x''\<rparr>]" "applied s ''b'' = [\<lparr>le_Term = 2, le_Command = ''y''\<rparr>]"
    "map_option pt_result (proposals s (''b'', 2, 1)) = Some (Some None)"
    "append_calls s (''a'', 1, 1) ''b'' = ASpawned" "append_calls s (''a'', 1, 1) ''c'' = ASpawned"
    using divergent_run by (auto split: option.splits)
  have "reachable s" by (rule reachable_example [OF run]) simp_all
  then show ?thesis using e by blast
qed

end
