(* ===== verification/Message.thy ===== *)
theory Message
  imports GoText Sha256
begin

text \<open>
  The wire format of the programs (\<^verbatim>\<open>cmd/node/message.go\<close>, \<^verbatim>\<open>cmd/coordinator/message.go\<close>): frames with a
  length in front, and messages whose parts are separated by bars. A connection is the bytes that will
  still arrive, and the error that ends them.
\<close>

section \<open>Frames\<close>

datatype io_error = EOF | ErrUnexpectedEOF | ErrClosed | OtherError string

record Reader =
  rd_data :: "byte list"
  rd_end :: io_error

text \<open>\<^verbatim>\<open>io.ReadFull\<close>, for a positive number of bytes.\<close>

definition ReadFull :: "Reader \<Rightarrow> nat \<Rightarrow> Reader \<times> (io_error + byte list)" where
  "ReadFull reader n =
     (if n \<le> length (rd_data reader)
      then (reader\<lparr>rd_data := drop n (rd_data reader)\<rparr>, Inr (take n (rd_data reader)))
      else (reader\<lparr>rd_data := []\<rparr>,
            Inl (if rd_end reader = EOF \<and> rd_data reader \<noteq> [] then ErrUnexpectedEOF else rd_end reader)))"

definition PutUint32 :: "u32 \<Rightarrow> byte list" where
  "PutUint32 w = be_bytes32 w"

fun BigEndian_Uint32 :: "byte list \<Rightarrow> u32" where
  "BigEndian_Uint32 (a # b # c # d # _) =
     push_bit 24 (ucast a) OR push_bit 16 (ucast b) OR push_bit 8 (ucast c) OR ucast d"
| "BigEndian_Uint32 _ = 0"

definition readFrame :: "Reader \<Rightarrow> Reader \<times> (io_error + byte list)" where
  "readFrame reader =
     (case ReadFull reader 4 of
        (reader, Inl err) \<Rightarrow> (reader, Inl err)
      | (reader, Inr header) \<Rightarrow>
          let n = unat (BigEndian_Uint32 header)
          in if n = 0 then (reader, Inr [])
             else ReadFull reader n)"

text \<open>The bytes that a successful write sends.\<close>

definition writeFrame :: "byte list \<Rightarrow> byte list" where
  "writeFrame payload =
     (let header = PutUint32 (word_of_nat (length payload))
      in header @ (if 0 < length payload then payload else []))"

section \<open>Messages\<close>

definition parseMessage :: "(string \<Rightarrow> string) \<Rightarrow> string \<Rightarrow> string \<times> string list" where
  "parseMessage unicode message =
     (case Split message CHR ''|'' of
        [] \<Rightarrow> ('''', [])
      | part # parts \<Rightarrow> (ToUpper unicode (TrimSpace part), parts))"

definition coordinator_parseMessage :: "(string \<Rightarrow> string) \<Rightarrow> string \<Rightarrow> string \<times> string list" where
  "coordinator_parseMessage unicode message =
     (case Split (TrimSpace message) CHR ''|'' of
        [] \<Rightarrow> ('''', [])
      | part # parts \<Rightarrow> (ToUpper unicode (TrimSpace part), parts))"

fun cleanItems :: "string list \<Rightarrow> string list" where
  "cleanItems [] = []"
| "cleanItems (item # items) =
     (let trimmed = TrimSpace item in if trimmed = '''' then cleanItems items else trimmed # cleanItems items)"

definition splitAndTrim :: "string \<Rightarrow> string list" where
  "splitAndTrim val = cleanItems (Split val CHR '','')"

section \<open>Round trips\<close>

lemma BigEndian_PutUint32: "BigEndian_Uint32 (PutUint32 w) = w"
  unfolding PutUint32_def be_bytes32_def BigEndian_Uint32.simps
proof (rule bit_word_eqI)
  fix n assume n: "n < LENGTH(32)"
  have split: "\<exists>j. n = k + j \<and> j < 8" if "k \<le> n" "n < k + 8" for k
    using that by (intro exI [of _ "n - k"]) auto
  consider "n < 8" | "8 \<le> n" "n < 8 + 8" | "16 \<le> n" "n < 16 + 8" | "24 \<le> n" "n < 24 + 8" using n by force
  then show "bit (push_bit 24 (ucast (ucast (drop_bit 24 w) :: byte)) OR push_bit 16 (ucast (ucast (drop_bit 16 w) :: byte)) OR
      push_bit 8 (ucast (ucast (drop_bit 8 w) :: byte)) OR ucast (ucast w :: byte) :: u32) n = bit w n"
    by cases (auto simp: bit_simps dest!: split)
qed

lemma length_PutUint32 [simp]: "length (PutUint32 w) = 4"
  by (simp add: PutUint32_def be_bytes32_def)

lemma readFrame_writeFrame:
  assumes "length payload < 2 ^ 32"
  shows "readFrame \<lparr>rd_data = writeFrame payload @ rest, rd_end = e\<rparr> = (\<lparr>rd_data = rest, rd_end = e\<rparr>, Inr payload)"
proof -
  have "unat (word_of_nat (length payload) :: u32) = length payload" using assms by (simp add: unat_of_nat)
  then show ?thesis
    by (simp add: readFrame_def writeFrame_def ReadFull_def Let_def BigEndian_PutUint32)
qed

text \<open>Reading frames until the connection ends.\<close>

function readFrames :: "Reader \<Rightarrow> byte list list \<times> io_error" where
  "readFrames reader =
     (case readFrame reader of
        (_, Inl err) \<Rightarrow> ([], err)
      | (reader', Inr payload) \<Rightarrow> let (payloads, err) = readFrames reader' in (payload # payloads, err))"
  by pat_completeness auto

lemma ReadFull_less:
  "ReadFull reader n = (reader', Inr bs) \<Longrightarrow> length (rd_data reader) = n + length (rd_data reader') \<and> rd_end reader' = rd_end reader"
  by (auto simp: ReadFull_def split: if_splits)

lemma readFrame_less: "readFrame reader = (reader', Inr payload) \<Longrightarrow> length (rd_data reader') + 4 \<le> length (rd_data reader)"
  by (auto simp: readFrame_def Let_def split: prod.splits sum.splits if_splits dest!: ReadFull_less)

termination readFrames
  by (relation "measure (\<lambda>r. length (rd_data r))") (auto dest!: readFrame_less [OF sym])

declare readFrames.simps [simp del]

text \<open>
  C15: frames survive the wire. What a peer writes as a sequence of frames shorter than 4 GiB is read as
  the same sequence of payloads, and then the end of the connection is reported.
\<close>

theorem frames_roundtrip:
  assumes "\<And>p. p \<in> set payloads \<Longrightarrow> length p < 2 ^ 32"
  shows "readFrames \<lparr>rd_data = concat (map writeFrame payloads), rd_end = e\<rparr> = (payloads, e)"
  using assms
proof (induction payloads)
  case Nil
  show ?case by (subst readFrames.simps) (simp add: readFrame_def ReadFull_def)
next
  case (Cons p ps)
  then show ?case by (subst readFrames.simps) (simp add: readFrame_writeFrame)
qed

theorem frames_roundtrip_witness:
  "readFrames \<lparr>rd_data = concat (map writeFrame [[1, 2, 3], [], [4]]), rd_end = EOF\<rparr> = ([[1, 2, 3], [], [4]], EOF)"
  using frames_roundtrip [of "[[1, 2, 3], [], [4]]" EOF] by fastforce

section \<open>Formats\<close>

text \<open>The type of a message, as the programs write it.\<close>

definition shouting :: "string \<Rightarrow> bool" where
  "shouting ty \<longleftrightarrow> ty \<noteq> [] \<and> list_all (\<lambda>c. graphic c \<and> c \<noteq> CHR ''|'' \<and> upper_char c = c) ty"

lemma shoutingD:
  assumes "shouting ty" and "c \<in> set ty"
  shows "graphic c" and "c \<noteq> CHR ''|''" and "upper_char c = c"
  using assms unfolding shouting_def list_all_iff by blast+

lemma ToUpper_shouting:
  assumes "shouting ty"
  shows "ToUpper unicode ty = ty"
proof -
  have "map upper_char ty = ty" by (rule map_idI) (rule shoutingD(3) [OF assms])
  moreover have "list_all (\<lambda>c. (of_char c :: nat) < 128) ty"
    using shoutingD(1) [OF assms] by (force simp: list_all_iff graphic_def)
  ultimately show ?thesis by (simp add: ToUpper_def)
qed

lemma TrimSpace_shouting: "shouting ty \<Longrightarrow> TrimSpace ty = ty"
  using shoutingD(1) [of ty] by (intro TrimSpace_graphic) (auto simp: shouting_def)

lemma parseMessage_Join:
  assumes "shouting ty" and "\<And>p. p \<in> set ps \<Longrightarrow> CHR ''|'' \<notin> set p"
  shows "parseMessage unicode (Join (ty # ps) ''|'') = (ty, ps)"
proof -
  have "CHR ''|'' \<notin> set ty" using shoutingD(2) [OF assms(1)] by blast
  then have "Split (Join (ty # ps) ''|'') CHR ''|'' = ty # ps" using assms(2) by (intro Split_Join) auto
  then show ?thesis by (simp add: parseMessage_def ToUpper_shouting [OF assms(1)] TrimSpace_shouting [OF assms(1)])
qed

lemma cleanItems_id: "(\<And>a. a \<in> set items \<Longrightarrow> a \<noteq> [] \<and> TrimSpace a = a) \<Longrightarrow> cleanItems items = items"
  by (induction items) (auto simp: Let_def)

lemma splitAndTrim_Join:
  assumes "items \<noteq> []" and "\<And>a. a \<in> set items \<Longrightarrow> a \<noteq> [] \<and> CHR '','' \<notin> set a \<and> TrimSpace a = a"
  shows "splitAndTrim (Join items '','') = items"
  using assms Split_Join [of items "CHR '',''"] cleanItems_id [of items] by (simp add: splitAndTrim_def)

text \<open>The items of any list are trimmed and not empty.\<close>

lemma splitAndTrim_clean: "a \<in> set (splitAndTrim s) \<Longrightarrow> a \<noteq> [] \<and> TrimSpace a = a \<and> set a \<subseteq> set s"
proof -
  have "TrimSpace x \<noteq> [] \<Longrightarrow> set (TrimSpace x) \<subseteq> set x" for x
    unfolding TrimSpace_def by (meson order_trans set_mono_prefix set_mono_suffix trim_left_suffix trim_right_prefix)
  then have "a \<in> set (cleanItems items) \<Longrightarrow> a \<noteq> [] \<and> TrimSpace a = a \<and> (\<exists>x \<in> set items. set a \<subseteq> set x)" for items
    by (induction items) (auto simp: Let_def split: if_splits)
  then show "a \<in> set (splitAndTrim s) \<Longrightarrow> a \<noteq> [] \<and> TrimSpace a = a \<and> set a \<subseteq> set s"
    unfolding splitAndTrim_def using Split_parts by fastforce
qed

end
