(* ===== verification/NodeState.thy ===== *)
theory NodeState
  imports Sensor Message "HOL-Library.AList" "HOL-Library.List_Lexorder" "HOL-Library.Char_ord"
begin

text \<open>
  The state that the goroutines of a sensor node share (\<^verbatim>\<open>cmd/node/state.go\<close>,
  \<^verbatim>\<open>cmd/node/sensor_state.go\<close>), with one definition for each operation under the lock, and the
  configuration of the node (\<^verbatim>\<open>cmd/node/config.go\<close>). The peers are an association list, because
  the program lists them; a list of addresses is sorted, so that the order of the map does not show.
\<close>

section \<open>Shared state\<close>

record peerInfo =
  pi_nodeID :: string
  pi_addr :: string
  pi_lastSeen :: int

record nodeState =
  ns_self :: peerInfo
  ns_peers :: "(string \<times> peerInfo) list"
  ns_readings :: "string \<rightharpoonup> Reading"
  ns_seenGossip :: "string \<rightharpoonup> int"

definition upsertPeer :: "int \<Rightarrow> peerInfo \<Rightarrow> nodeState \<Rightarrow> nodeState" where
  "upsertPeer now peer s =
     (if pi_addr peer = '''' then s
      else s\<lparr>ns_peers := AList.update (pi_addr peer) (peer\<lparr>pi_lastSeen := now\<rparr>) (ns_peers s)\<rparr>)"

definition peerAddrs :: "nodeState \<Rightarrow> string list" where
  "peerAddrs s = sort (pi_addr (ns_self s) # map fst (ns_peers s))"

definition peerCount :: "nodeState \<Rightarrow> int" where
  "peerCount s = int (length (ns_peers s))"

definition setReading :: "Reading \<Rightarrow> nodeState \<Rightarrow> nodeState" where
  "setReading reading s = s\<lparr>ns_readings := (ns_readings s)(rd_NodeID reading \<mapsto> reading)\<rparr>"

definition shouldProcessGossip :: "int \<Rightarrow> string \<Rightarrow> nodeState \<Rightarrow> nodeState \<times> bool" where
  "shouldProcessGossip now messageID s =
     (case ns_seenGossip s messageID of
        Some _ \<Rightarrow> (s, False)
      | None \<Rightarrow> (s\<lparr>ns_seenGossip := (ns_seenGossip s)(messageID \<mapsto> now)\<rparr>, True))"

record sensorState =
  ss_reading :: Reading
  ss_hasReading :: bool

definition sensorState_Set :: "Reading \<Rightarrow> sensorState \<Rightarrow> sensorState" where
  "sensorState_Set reading s = s\<lparr>ss_reading := reading, ss_hasReading := True\<rparr>"

definition sensorState_Last :: "sensorState \<Rightarrow> Reading \<times> bool" where
  "sensorState_Last s = (ss_reading s, ss_hasReading s)"

section \<open>Configuration\<close>

record config =
  cf_nodeID :: string
  cf_listenAddr :: string
  cf_metricsAddr :: string
  cf_advertiseAddr :: string
  cf_peerAddr :: string
  cf_bootstrapAddrs :: "string list"
  cf_message :: string
  cf_retryInterval :: int
  cf_sensorInterval :: int
  cf_coordinatorAddr :: string
  cf_gossipFanout :: int
  cf_gossipTTL :: int

text \<open>
  \<open>Getenv\<close> gives the empty string for a variable that is not set. \<open>ParseDuration\<close>, in nanoseconds, stands for
  \<^verbatim>\<open>time.ParseDuration\<close>.
\<close>

definition getenvDefault :: "(string \<Rightarrow> string) \<Rightarrow> string \<Rightarrow> string \<Rightarrow> string" where
  "getenvDefault Getenv key fallback = (let val = TrimSpace (Getenv key) in if val \<noteq> '''' then val else fallback)"

definition durationFromEnv :: "(string \<Rightarrow> int option) \<Rightarrow> (string \<Rightarrow> string) \<Rightarrow> string \<Rightarrow> int \<Rightarrow> int" where
  "durationFromEnv ParseDuration Getenv key fallback =
     (let val = TrimSpace (Getenv key)
      in if val = '''' then fallback
         else case ParseDuration val of None \<Rightarrow> fallback | Some parsed \<Rightarrow> parsed)"

definition intFromEnv :: "(string \<Rightarrow> string) \<Rightarrow> string \<Rightarrow> int \<Rightarrow> int" where
  "intFromEnv Getenv key fallback =
     (let val = TrimSpace (Getenv key)
      in if val = '''' then fallback
         else case Atoi val of None \<Rightarrow> fallback | Some parsed \<Rightarrow> parsed)"

text \<open>The host name and the random bytes may be unavailable.\<close>

definition generateNodeID :: "string option \<Rightarrow> int \<Rightarrow> byte list option \<Rightarrow> string option" where
  "generateNodeID hostname now randBytes =
     (let host = (case hostname of None \<Rightarrow> ''node'' | Some h \<Rightarrow> if TrimSpace h = '''' then ''node'' else h)
      in case randBytes of
           None \<Rightarrow> None
         | Some bs \<Rightarrow>
             let input = host @ ''-'' @ Itoa now @ ''-'' @ EncodeToString bs;
                 hash = Sum256 (bytes_of input)
             in Some (host @ ''-'' @ EncodeToString hash))"

text \<open>The flags that the command line gives override the environment.\<close>

record flags =
  fl_string :: "string \<rightharpoonup> string"
  fl_int :: "string \<rightharpoonup> int"
  fl_duration :: "string \<rightharpoonup> int"

definition flag_or :: "('a \<rightharpoonup> 'b) \<Rightarrow> 'a \<Rightarrow> 'b \<Rightarrow> 'b" where
  "flag_or m name fallback = (case m name of None \<Rightarrow> fallback | Some v \<Rightarrow> v)"

definition loadConfig :: "(string \<Rightarrow> int option) \<Rightarrow> (string \<Rightarrow> string) \<Rightarrow> flags \<Rightarrow> string option \<Rightarrow> int \<Rightarrow> byte list option \<Rightarrow> config" where
  "loadConfig ParseDuration Getenv fl hostname now randBytes =
     (let str = (\<lambda>name key fallback. flag_or (fl_string fl) name (getenvDefault Getenv key fallback));
          nodeID = str ''node-id'' ''NODE_ID'' '''';
          listenAddr = str ''listen'' ''LISTEN_ADDR'' ''0.0.0.0:8000'';
          advertiseAddr = str ''advertise'' ''ADVERTISE_ADDR'' '''';
          bootstrap = str ''bootstrap'' ''BOOTSTRAP_ADDRS'' ''''
      in \<lparr>cf_nodeID =
            (if nodeID = '''' then
               (case generateNodeID hostname now randBytes of
                  None \<Rightarrow> ''node-'' @ Itoa now
                | Some generated \<Rightarrow> generated)
             else nodeID),
          cf_listenAddr = listenAddr,
          cf_metricsAddr = str ''metrics'' ''METRICS_ADDR'' ''0.0.0.0:9100'',
          cf_advertiseAddr = (if advertiseAddr = '''' then listenAddr else advertiseAddr),
          cf_peerAddr = str ''peer'' ''PEER_ADDR'' '''',
          cf_bootstrapAddrs = (if bootstrap \<noteq> '''' then splitAndTrim bootstrap else []),
          cf_message = str ''message'' ''MESSAGE'' ''hello'',
          cf_retryInterval = flag_or (fl_duration fl) ''retry'' (2 * 1000000000),
          cf_sensorInterval =
            flag_or (fl_duration fl) ''sensor-interval'' (durationFromEnv ParseDuration Getenv ''SENSOR_INTERVAL'' (5 * 1000000000)),
          cf_coordinatorAddr = str ''coordinator'' ''COORDINATOR_ADDR'' '''',
          cf_gossipFanout = flag_or (fl_int fl) ''gossip-fanout'' (intFromEnv Getenv ''GOSSIP_FANOUT'' 3),
          cf_gossipTTL = flag_or (fl_int fl) ''gossip-ttl'' (intFromEnv Getenv ''GOSSIP_TTL'' 3)\<rparr>)"

text \<open>The state with which the program starts.\<close>

definition initialState :: "int \<Rightarrow> config \<Rightarrow> nodeState" where
  "initialState now cfg =
     \<lparr>ns_self = \<lparr>pi_nodeID = cf_nodeID cfg, pi_addr = cf_advertiseAddr cfg, pi_lastSeen = now\<rparr>,
      ns_peers = [], ns_readings = Map.empty, ns_seenGossip = Map.empty\<rparr>"

section \<open>Invariant\<close>

text \<open>Each peer is filed once, under its address, which is not empty.\<close>

definition state_ok :: "nodeState \<Rightarrow> bool" where
  "state_ok s \<longleftrightarrow> distinct (map fst (ns_peers s)) \<and>
     (\<forall>(a, p) \<in> set (ns_peers s). pi_addr p = a \<and> a \<noteq> '''') \<and>
     (\<forall>k r. ns_readings s k = Some r \<longrightarrow> rd_NodeID r = k)"

lemma state_ok_initial: "state_ok (initialState now cfg)"
  by (simp add: state_ok_def initialState_def)

lemma set_update: "(k', v') \<in> set (AList.update k v al) \<Longrightarrow> (k', v') \<in> set al \<or> k' = k \<and> v' = v"
  by (induction al) (auto split: if_splits)

lemma state_ok_upsertPeer: "state_ok s \<Longrightarrow> state_ok (upsertPeer now p s)"
proof (cases "pi_addr p = ''''")
  case False
  assume ok: "state_ok s"
  let ?ps = "AList.update (pi_addr p) (p\<lparr>pi_lastSeen := now\<rparr>) (ns_peers s)"
  have "pi_addr q = a \<and> a \<noteq> ''''" if "(a, q) \<in> set ?ps" for a q
    using set_update [OF that] ok False unfolding state_ok_def by auto
  moreover have "distinct (map fst ?ps)" using ok by (simp add: state_ok_def distinct_update)
  ultimately show ?thesis using ok False by (auto simp: state_ok_def upsertPeer_def)
qed (simp add: upsertPeer_def)

interpretation node_readings: reading_store ns_readings "\<lambda>_ :: unit. setReading"
  by unfold_locales (simp add: setReading_def)

lemma state_ok_setReading:
  assumes "state_ok s"
  shows "state_ok (setReading r s)"
proof -
  have "\<forall>k r. ns_readings s k = Some r \<longrightarrow> rd_NodeID r = k" using assms by (simp add: state_ok_def)
  then have "\<forall>k r'. ns_readings (setReading r s) k = Some r' \<longrightarrow> rd_NodeID r' = k"
    by (intro allI impI) (rule node_readings.put_filed)
  moreover have "ns_peers (setReading r s) = ns_peers s" by (simp add: setReading_def)
  ultimately show ?thesis using assms unfolding state_ok_def by (elim conjE) (intro conjI, simp_all only:)
qed

lemma state_ok_shouldProcessGossip: "state_ok s \<Longrightarrow> state_ok (fst (shouldProcessGossip now m s))"
  by (simp add: state_ok_def shouldProcessGossip_def split: option.splits)

lemma set_peerAddrs: "set (peerAddrs s) = insert (pi_addr (ns_self s)) (fst ` set (ns_peers s))"
  by (simp add: peerAddrs_def set_insort_key)

lemma upsertPeer_addrs:
  "set (peerAddrs (upsertPeer now p s)) = (if pi_addr p = '''' then set (peerAddrs s) else insert (pi_addr p) (set (peerAddrs s)))"
  using dom_update [of "pi_addr p" "p\<lparr>pi_lastSeen := now\<rparr>" "ns_peers s"]
  by (auto simp: set_peerAddrs upsertPeer_def dom_map_of_conv_image_fst)

end
