(* ===== verification/Coordinator.thy ===== *)
theory Coordinator
  imports NodeState RaftNode
begin

text \<open>
  The coordinator (\<^verbatim>\<open>cmd/coordinator\<close>): its configuration, the store of the latest reading of each sensor,
  and the commands that are replicated by Raft. Its copies of the framing functions (\<^verbatim>\<open>message.go\<close>) and of
  \<^verbatim>\<open>splitAndTrim\<close> are those of the sensor node, line by line.
\<close>

section \<open>Configuration\<close>

definition coord_readFrame :: "Reader \<Rightarrow> Reader \<times> (io_error + byte list)" where
  "coord_readFrame reader = readFrame reader"

definition coord_writeFrame :: "byte list \<Rightarrow> byte list" where
  "coord_writeFrame payload = writeFrame payload"

definition coord_splitAndTrim :: "string \<Rightarrow> string list" where
  "coord_splitAndTrim val = splitAndTrim val"

record coord_config =
  co_gossipAddr :: string
  co_httpAddr :: string
  co_metricsAddr :: string
  co_raftID :: string
  co_raftAddr :: string
  co_raftPeers :: "(string \<times> string) list"
  co_totalNodes :: int
  co_targetRatio :: float64

text \<open>The variables are not trimmed here. \<open>ParseFloat\<close> stands for \<^verbatim>\<open>strconv.ParseFloat\<close>.\<close>

definition coord_getenvDefault :: "(string \<Rightarrow> string) \<Rightarrow> string \<Rightarrow> string \<Rightarrow> string" where
  "coord_getenvDefault Getenv key fallback = (let val = Getenv key in if val = '''' then fallback else val)"

definition coord_intFromEnv :: "(string \<Rightarrow> string) \<Rightarrow> string \<Rightarrow> int \<Rightarrow> int" where
  "coord_intFromEnv Getenv key fallback =
     (let val = Getenv key
      in if val = '''' then fallback
         else case Atoi val of None \<Rightarrow> fallback | Some parsed \<Rightarrow> parsed)"

definition floatFromEnv :: "(string \<Rightarrow> float64 option) \<Rightarrow> (string \<Rightarrow> string) \<Rightarrow> string \<Rightarrow> float64 \<Rightarrow> float64" where
  "floatFromEnv ParseFloat Getenv key fallback =
     (let val = Getenv key
      in if val = '''' then fallback
         else case ParseFloat val of None \<Rightarrow> fallback | Some parsed \<Rightarrow> parsed)"

text \<open>The map of the peers is an association list.\<close>

fun addPeers :: "string list \<Rightarrow> (string \<times> string) list \<Rightarrow> (string \<times> string) list" where
  "addPeers [] ps = ps"
| "addPeers (entry # entries) ps =
     (case SplitN2 entry CHR ''='' of
        [part0, part1] \<Rightarrow>
          let i = TrimSpace part0; addr = TrimSpace part1
          in if i = '''' \<or> addr = '''' then addPeers entries ps
             else addPeers entries (AList.update i addr ps)
      | _ \<Rightarrow> addPeers entries ps)"

definition raftPeersFromEnv :: "(string \<Rightarrow> string) \<Rightarrow> string \<Rightarrow> (string \<times> string) list" where
  "raftPeersFromEnv Getenv key =
     (let val = Getenv key in if val = '''' then [] else addPeers (coord_splitAndTrim val) [])"

text \<open>The order of the identifiers is that of the iteration of the map.\<close>

definition raftPeerIDs :: "nat list \<Rightarrow> (string \<times> string) list \<Rightarrow> string \<Rightarrow> string list" where
  "raftPeerIDs order ps selfID = filter (\<lambda>i. i \<noteq> selfID) (shuffle order (map fst ps))"

definition coord_loadConfig :: "(string \<Rightarrow> float64 option) \<Rightarrow> (string \<Rightarrow> string) \<Rightarrow> coord_config" where
  "coord_loadConfig ParseFloat Getenv =
     \<lparr>co_gossipAddr = coord_getenvDefault Getenv ''GOSSIP_ADDR'' ''0.0.0.0:9000'',
      co_httpAddr = coord_getenvDefault Getenv ''HTTP_ADDR'' ''0.0.0.0:8080'',
      co_metricsAddr = coord_getenvDefault Getenv ''METRICS_ADDR'' ''0.0.0.0:9200'',
      co_raftID = coord_getenvDefault Getenv ''RAFT_ID'' ''coord-1'',
      co_raftAddr = coord_getenvDefault Getenv ''RAFT_ADDR'' ''0.0.0.0:7000'',
      co_raftPeers = raftPeersFromEnv Getenv ''RAFT_PEERS'',
      co_totalNodes = coord_intFromEnv Getenv ''TOTAL_NODES'' 20,
      co_targetRatio = floatFromEnv ParseFloat Getenv ''TARGET_RATIO'' (round64 (9 / 10))\<rparr>"

text \<open>The configuration of the Raft node, with durations in nanoseconds.\<close>

definition raftConfig :: "nat list \<Rightarrow> coord_config \<Rightarrow> Config" where
  "raftConfig order cfg =
     \<lparr>cfg_ID = co_raftID cfg, cfg_Peers = raftPeerIDs order (co_raftPeers cfg) (co_raftID cfg), cfg_hasTransport = True,
      cfg_ElectionTimeoutMin = 150 * 1000000, cfg_ElectionTimeoutMax = 300 * 1000000,
      cfg_HeartbeatInterval = 50 * 1000000, cfg_RPCTimeout = 200 * 1000000, cfg_hasApplyFunc = True\<rparr>"

section \<open>The store\<close>

text \<open>The readings are an association list; \<open>None\<close> is the zero time.\<close>

record readingStore =
  rs_readings :: "(string \<times> Reading) list"
  rs_firstSeen :: "int option"
  rs_targetReached :: bool
  rs_targetCount :: int

text \<open>\<open>None\<close> when the language leaves the conversion to an integer to the implementation.\<close>

definition newReadingStore :: "int \<Rightarrow> float64 \<Rightarrow> readingStore option" where
  "newReadingStore totalNodes targetRatio =
     (let totalNodes = (if totalNodes \<le> 0 then 1 else totalNodes);
          targetRatio = (if fle targetRatio (Fin 0) \<or> flt (Fin 1) targetRatio then round64 (9 / 10) else targetRatio)
      in case int_of_float (fceil (fmul (float_of_int totalNodes) targetRatio)) of
           None \<Rightarrow> None
         | Some n \<Rightarrow> Some \<lparr>rs_readings = [], rs_firstSeen = None, rs_targetReached = False, rs_targetCount = n\<rparr>)"

text \<open>The clock is read twice, at \<open>now\<close> and then at \<open>now'\<close>.\<close>

definition upsert :: "int \<Rightarrow> int \<Rightarrow> Reading \<Rightarrow> readingStore \<Rightarrow> readingStore \<times> int \<times> bool \<times> int" where
  "upsert now now' reading s =
     (let first = (case rs_firstSeen s of None \<Rightarrow> now | Some t \<Rightarrow> t);
          s = s\<lparr>rs_firstSeen := Some first\<rparr>;
          s = s\<lparr>rs_readings := AList.update (rd_NodeID reading) reading (rs_readings s)\<rparr>;
          reached = int (length (rs_readings s))
      in if \<not> rs_targetReached s \<and> reached \<ge> rs_targetCount s
         then (s\<lparr>rs_targetReached := True\<rparr>, reached, True, now' - first)
         else (s, reached, False, 0))"

definition snapshot :: "nat list \<Rightarrow> readingStore \<Rightarrow> Reading list" where
  "snapshot order s = shuffle order (map snd (rs_readings s))"

section \<open>Replicated commands\<close>

definition encodeReadingCommand :: "(Reading \<Rightarrow> string + byte list) \<Rightarrow> Reading \<Rightarrow> string + string" where
  "encodeReadingCommand Marshal reading =
     (case EncodeReading Marshal reading of
        Inl err \<Rightarrow> Inl err
      | Inr payload \<Rightarrow> Inr (base64_encode payload))"

text \<open>The second component is the announcement that the target is reached: its count and the time in milliseconds.\<close>

definition storeAndLog :: "int \<Rightarrow> int \<Rightarrow> readingStore \<Rightarrow> Reading \<Rightarrow> readingStore \<times> (int \<times> int) option" where
  "storeAndLog now now' s reading =
     (let (s', cnt, reached, duration) = upsert now now' reading s
      in (s', if reached then Some (rs_targetCount s', duration div 1000000) else None))"

definition applyReadingCommand :: "(byte list \<Rightarrow> string + Reading) \<Rightarrow> int \<Rightarrow> int \<Rightarrow> readingStore \<Rightarrow> string \<Rightarrow>
    readingStore \<times> (int \<times> int) option" where
  "applyReadingCommand Unmarshal now now' s command =
     (case base64_decode command of
        None \<Rightarrow> (s, None)
      | Some payload \<Rightarrow>
          (case DecodeReading Unmarshal payload of
             Inl err \<Rightarrow> (s, None)
           | Inr reading \<Rightarrow> storeAndLog now now' s reading))"

section \<open>The target\<close>

lemma target_between:
  assumes "0 < l" and "near l = l" and "l \<le> r" and "r \<le> 1" and "1 \<le> n" and "n \<le> 2 ^ 53"
  shows "\<exists>t. int_of_float (fceil (fmul (float_of_int n) (Fin r))) = Some t \<and> 1 \<le> t \<and> t \<le> n"
proof -
  have n: "float_of_int n = Fin (of_int n)" "near (of_int n) = of_int n" using assms(5,6) by (simp_all add: float_of_int_exact near_int)
  have n1: "1 \<le> (of_int n :: rat)" "(of_int n :: rat) \<le> of_int (2 ^ 53)" using assms(5,6) by (simp_all only: of_int_le_iff of_int_1_le_iff)
  then have "(of_int n :: rat) < float_limit" using small_power by simp
  moreover have "l \<le> of_int n * r" using mult_mono [of 1 "of_int n" l r] n1(1) assms(1,3) by simp
  moreover have "of_int n * r \<le> of_int n" using mult_left_mono [of r 1 "of_int n"] assms(4) n1(1) by simp
  ultimately have q: "round64 (of_int n * r) = Fin (near (of_int n * r))" "l \<le> near (of_int n * r)" "near (of_int n * r) \<le> of_int n"
    using round64_between [OF assms(2) n(2), of "of_int n * r"] assms(1) small_power by auto
  define t where "t = \<lceil>near (of_int n * r)\<rceil>"
  have t: "1 \<le> t" "t \<le> n" using q(2,3) assms(1) by (simp_all add: t_def ceiling_le_iff le_ceiling_iff)
  have "int_of_float (Fin (of_int t)) = Some t" using t assms(6) by (simp add: Let_def)
  then show ?thesis using t by (intro exI [of _ t]) (simp add: n(1) fmul_def q(1) t_def)
qed

lemma default_ratio: "\<exists>r. round64 (9 / 10) = Fin r \<and> 1 / 2 \<le> r \<and> r \<le> 1" "near (1 / 2) = 1 / 2"
proof -
  show h: "near (1 / 2) = 1 / 2" using near_power [of "- 1"] by (simp add: power_int_minus)
  have "near 1 = 1" using near_int [of 1] by simp
  then show "\<exists>r. round64 (9 / 10) = Fin r \<and> 1 / 2 \<le> r \<and> r \<le> 1"
    using round64_between [OF h, of 1 "9 / 10"] small_power by simp
qed

text \<open>The ratio is a value of the format.\<close>

definition is_float :: "float64 \<Rightarrow> bool" where
  "is_float x \<longleftrightarrow> (case x of Fin r \<Rightarrow> near r = r | _ \<Rightarrow> True)"

lemma newReadingStore_target:
  assumes "totalNodes \<le> 2 ^ 53" and "is_float targetRatio" and "targetRatio \<noteq> NaN"
  obtains n where "newReadingStore totalNodes targetRatio =
      Some \<lparr>rs_readings = [], rs_firstSeen = None, rs_targetReached = False, rs_targetCount = n\<rparr>"
    and "1 \<le> n" and "n \<le> max 1 totalNodes"
proof -
  define m where "m = (if totalNodes \<le> 0 then 1 else totalNodes)"
  have m: "1 \<le> m" "m \<le> 2 ^ 53" "m \<le> max 1 totalNodes" using assms(1) by (simp_all add: m_def)
  define q where "q = (if fle targetRatio (Fin 0) \<or> flt (Fin 1) targetRatio then round64 (9 / 10) else targetRatio)"
  have "\<exists>r l. q = Fin r \<and> 0 < l \<and> near l = l \<and> l \<le> r \<and> r \<le> 1"
  proof (cases "fle targetRatio (Fin 0) \<or> flt (Fin 1) targetRatio")
    case True
    obtain r where "round64 (9 / 10) = Fin r" "1 / 2 \<le> r" "r \<le> 1" using default_ratio(1) by blast
    then show ?thesis using True default_ratio(2) by (intro exI [of _ r] exI [of _ "1 / 2"]) (simp add: q_def)
  next
    case False
    then obtain r where "targetRatio = Fin r" "0 < r" "r \<le> 1" using assms(3) by (cases targetRatio) auto
    then show ?thesis using assms(2) False by (auto simp: q_def is_float_def intro: exI [of _ r])
  qed
  then obtain t where "int_of_float (fceil (fmul (float_of_int m) q)) = Some t" "1 \<le> t" "t \<le> m"
    using target_between m(1,2) by metis
  then show ?thesis using that [of t] m(3) by (simp add: newReadingStore_def Let_def m_def [symmetric] q_def [symmetric])
qed

section \<open>Updates of the store\<close>

lemma upsert_simps [simp]:
  "rs_readings (fst (upsert now now' r s)) = AList.update (rd_NodeID r) r (rs_readings s)"
  "rs_targetCount (fst (upsert now now' r s)) = rs_targetCount s"
  by (simp_all add: upsert_def Let_def)

interpretation stored: reading_store "\<lambda>s. map_of (rs_readings s)" "\<lambda>(now, now') r s. fst (upsert now now' r s)"
  by unfold_locales (auto simp: update_conv')

text \<open>A sequence of updates, with what each returns.\<close>

fun upserts :: "((int \<times> int) \<times> Reading) list \<Rightarrow> readingStore \<Rightarrow> readingStore \<times> (int \<times> bool \<times> int) list" where
  "upserts [] s = (s, [])"
| "upserts (((now, now'), r) # trs) s =
     (let (s', out) = upsert now now' r s; (s'', outs) = upserts trs s' in (s'', out # outs))"

lemma upserts_fold: "fst (upserts trs s) = fold (\<lambda>(t, r). case t of (now, now') \<Rightarrow> \<lambda>s. fst (upsert now now' r s)) trs s"
  by (induction trs s rule: upserts.induct) (auto split: prod.splits)

definition nodes_of :: "readingStore \<Rightarrow> ((int \<times> int) \<times> Reading) list \<Rightarrow> string set" where
  "nodes_of s trs = fst ` set (rs_readings s) \<union> (\<lambda>(t, r). rd_NodeID r) ` set trs"

text \<open>Each node has one reading, and the target is marked as reached if and only if it is.\<close>

definition store_ok :: "readingStore \<Rightarrow> bool" where
  "store_ok s \<longleftrightarrow> distinct (map fst (rs_readings s)) \<and> (\<forall>(k, r) \<in> set (rs_readings s). rd_NodeID r = k) \<and>
     (rs_targetReached s \<longleftrightarrow> rs_targetCount s \<le> int (length (rs_readings s)))"

lemma store_length: "store_ok s \<Longrightarrow> length (rs_readings s) = card (nodes_of s [])"
  using distinct_card [of "map fst (rs_readings s)"] by (simp add: store_ok_def nodes_of_def)

lemma nodes_of_upsert: "nodes_of (fst (upsert now now' r s)) trs = nodes_of s (((now, now'), r) # trs)"
  using dom_update [of "rd_NodeID r" r "rs_readings s"] by (auto simp: nodes_of_def dom_map_of_conv_image_fst)

lemma length_update: "length xs \<le> length (AList.update k v xs)"
  by (induction xs) auto

lemma upsert_ok:
  assumes "store_ok s"
  shows "store_ok (fst (upsert now now' r s))"
    and "snd (upsert now now' r s) =
      (int (card (nodes_of s [((now, now'), r)])),
       int (card (nodes_of s [])) < rs_targetCount s \<and> rs_targetCount s \<le> int (card (nodes_of s [((now, now'), r)])),
       if int (card (nodes_of s [])) < rs_targetCount s \<and> rs_targetCount s \<le> int (card (nodes_of s [((now, now'), r)]))
       then now' - (case rs_firstSeen s of None \<Rightarrow> now | Some t \<Rightarrow> t) else 0)"
    and "rs_firstSeen (fst (upsert now now' r s)) = Some (case rs_firstSeen s of None \<Rightarrow> now | Some t \<Rightarrow> t)"
proof -
  let ?rs = "AList.update (rd_NodeID r) r (rs_readings s)"
  have d: "distinct (map fst ?rs)" using assms by (simp add: store_ok_def distinct_update)
  have "rd_NodeID r' = k" if "(k, r') \<in> set ?rs" for k r' using set_update [OF that] assms unfolding store_ok_def by auto
  then have filed: "\<forall>(k, r) \<in> set ?rs. rd_NodeID r = k" by blast
  have len: "length ?rs = card (nodes_of s [((now, now'), r)])"
    using distinct_card [OF d] nodes_of_upsert [of now now' r s "[]"] by (simp add: nodes_of_def)
  have grow: "length (rs_readings s) \<le> length ?rs" by (rule length_update)
  show "store_ok (fst (upsert now now' r s))"
    using assms d filed grow unfolding store_ok_def by (simp add: upsert_def Let_def)
  show "snd (upsert now now' r s) =
      (int (card (nodes_of s [((now, now'), r)])),
       int (card (nodes_of s [])) < rs_targetCount s \<and> rs_targetCount s \<le> int (card (nodes_of s [((now, now'), r)])),
       if int (card (nodes_of s [])) < rs_targetCount s \<and> rs_targetCount s \<le> int (card (nodes_of s [((now, now'), r)]))
       then now' - (case rs_firstSeen s of None \<Rightarrow> now | Some t \<Rightarrow> t) else 0)"
    using assms store_length [OF assms] unfolding store_ok_def by (simp add: upsert_def Let_def len not_le) 
  show "rs_firstSeen (fst (upsert now now' r s)) = Some (case rs_firstSeen s of None \<Rightarrow> now | Some t \<Rightarrow> t)"
    by (simp add: upsert_def Let_def)
qed

lemma upserts_outs:
  assumes "store_ok s" and "k < length trs"
  shows "snd (upserts trs s) ! k =
    (int (card (nodes_of s (take (Suc k) trs))),
     int (card (nodes_of s (take k trs))) < rs_targetCount s \<and> rs_targetCount s \<le> int (card (nodes_of s (take (Suc k) trs))),
     if int (card (nodes_of s (take k trs))) < rs_targetCount s \<and> rs_targetCount s \<le> int (card (nodes_of s (take (Suc k) trs)))
     then snd (fst (trs ! k)) - (case rs_firstSeen s of None \<Rightarrow> fst (fst (trs ! 0)) | Some t \<Rightarrow> t) else 0)"
  using assms
proof (induction trs arbitrary: s k)
  case (Cons tr trs)
  obtain now now' r where tr: "tr = ((now, now'), r)" by (metis surj_pair)
  obtain s' out where u: "upsert now now' r s = (s', out)" by (metis surj_pair)
  note ok = upsert_ok [OF Cons.prems(1), of now now' r, unfolded u fst_conv snd_conv]
  show ?case
  proof (cases k)
    case 0
    then show ?thesis using ok(2) by (cases "rs_firstSeen s") (simp_all add: tr u split: prod.splits)
  next
    case (Suc j)
    have n: "nodes_of s' xs = nodes_of s (((now, now'), r) # xs)" for xs using nodes_of_upsert [of now now' r s xs] u by simp
    have t: "rs_targetCount s' = rs_targetCount s" using upsert_simps(2) [of now now' r s] u by simp
    have "snd (upserts (tr # trs) s) ! Suc j = snd (upserts trs s') ! j" by (simp add: tr u split: prod.splits)
    then show ?thesis
      using Cons.IH [OF ok(1), of j, unfolded ok(3) n t option.case] Cons.prems(2) Suc by (cases "rs_firstSeen s") (simp_all add: tr)
  qed
qed simp

text \<open>
  C19: the target of the coordinator. With at most \<open>2 ^ 53\<close> nodes and a ratio that is a number, the target is at least
  one and at most the number of nodes. Whatever readings arrive, each update returns the number of
  nodes that have reported so far; the target is announced by the update that makes this number
  reach the target, and by no other, with the time since the first reading; and the store
  holds the latest reading of each node.
\<close>

theorem target_announced_once:
  assumes "totalNodes \<le> 2 ^ 53" and "is_float targetRatio" and "targetRatio \<noteq> NaN"
  shows "\<exists>s. newReadingStore totalNodes targetRatio = Some s \<and> 1 \<le> rs_targetCount s \<and> rs_targetCount s \<le> max 1 totalNodes \<and>
    (\<forall>trs. map_of (rs_readings (fst (upserts trs s))) = map_of (rev (map (\<lambda>(t, r). (rd_NodeID r, r)) trs)) \<and>
      (\<forall>k < length trs.
        let reached = (\<lambda>j. int (card ((\<lambda>(t, r). rd_NodeID r) ` set (take j trs))));
            now = reached k < rs_targetCount s \<and> rs_targetCount s \<le> reached (Suc k)
        in snd (upserts trs s) ! k = (reached (Suc k), now, if now then snd (fst (trs ! k)) - fst (fst (trs ! 0)) else 0)))"
proof -
  obtain n where n: "newReadingStore totalNodes targetRatio =
      Some \<lparr>rs_readings = [], rs_firstSeen = None, rs_targetReached = False, rs_targetCount = n\<rparr>" "1 \<le> n" "n \<le> max 1 totalNodes"
    by (rule newReadingStore_target [OF assms])
  let ?s = "\<lparr>rs_readings = [], rs_firstSeen = None, rs_targetReached = False, rs_targetCount = n\<rparr>"
  have "store_ok ?s" using n(2) by (simp add: store_ok_def)
  note outs = upserts_outs [OF this]
  have "map_of (rs_readings (fst (upserts trs ?s))) = map_of (rev (map (\<lambda>(t, r). (rd_NodeID r, r)) trs))" for trs
    unfolding upserts_fold using stored.get_fold [of trs ?s] by (simp add: case_prod_unfold)
  then show ?thesis using n outs by (intro exI [of _ ?s]) (simp add: nodes_of_def Let_def)
qed

theorem target_announced_once_witness:
  "\<exists>s. newReadingStore 1 (Fin 1) = Some s \<and> 1 \<le> rs_targetCount s \<and> rs_targetCount s \<le> 1 \<and>
     snd (upserts [((5, 6), example_reading), ((7, 8), example_reading)] s) = [(1, True, 1), (1, False, 0)]"
proof -
  let ?trs = "[((5 :: int, 6 :: int), example_reading), ((7, 8), example_reading)]"
  have "is_float (Fin 1)" "(1 :: int) \<le> 2 ^ 53" "Fin 1 \<noteq> NaN" using near_int [of 1] by (simp_all add: is_float_def)
  note t = target_announced_once [OF this(2,1,3)]
  then obtain s where s: "newReadingStore 1 (Fin 1) = Some s" "1 \<le> rs_targetCount s" "rs_targetCount s \<le> max 1 1" and
    k: "\<forall>k < length ?trs. let reached = (\<lambda>j. int (card ((\<lambda>(t, r). rd_NodeID r) ` set (take j ?trs))));
          now = reached k < rs_targetCount s \<and> rs_targetCount s \<le> reached (Suc k)
        in snd (upserts ?trs s) ! k = (reached (Suc k), now, if now then snd (fst (?trs ! k)) - fst (fst (?trs ! 0)) else 0)"
    by blast
  have "length (snd (upserts ?trs s)) = 2" by (simp split: prod.splits)
  then have "snd (upserts ?trs s) = [snd (upserts ?trs s) ! 0, snd (upserts ?trs s) ! 1]"
    by (auto intro!: nth_equalityI simp: less_Suc_eq numeral_2_eq_2)
  moreover have "snd (upserts ?trs s) ! 0 = (1, True, 1)" using k [rule_format, of 0] s by (simp add: Let_def)
  moreover have "snd (upserts ?trs s) ! 1 = (1, False, 0)" using k [rule_format, of 1] s by (simp add: Let_def)
  ultimately show ?thesis using s by (intro exI [of _ s]) (simp del: upserts.simps)
qed

end
