(* ===== verification/RaftTransport.thy ===== *)
theory RaftTransport
  imports RaftCluster
begin

text \<open>
  The transport of \<^verbatim>\<open>pkg/raft/transport.go\<close> that carries the requests of one Raft node to
  another in the same process. Nodes are shared by reference, so that the transport maps an
  identifier to an address and the nodes are in a heap. A locale states what the nodes expect of a
  transport, and that a node votes for one candidate in each term whatever it is sent.
\<close>

section \<open>The in-memory transport\<close>

type_synonym node_heap = "nat \<Rightarrow> Node"

record MemoryTransport =
  tr_nodes :: "string \<rightharpoonup> nat"

definition NewMemoryTransport :: MemoryTransport where
  "NewMemoryTransport = \<lparr>tr_nodes = Map.empty\<rparr>"

text \<open>The node is a pointer, which may be nil.\<close>

definition Register :: "node_heap \<Rightarrow> MemoryTransport \<Rightarrow> nat option \<Rightarrow> MemoryTransport \<times> raft_error option" where
  "Register h t node =
     (case node of
        None \<Rightarrow> (t, Some ErrInvalidConfig)
      | Some a \<Rightarrow>
          if node_id (h a) = '''' then (t, Some ErrInvalidConfig)
          else (t\<lparr>tr_nodes := (tr_nodes t)(node_id (h a) \<mapsto> a)\<rparr>, None))"

definition Unregister :: "MemoryTransport \<Rightarrow> string \<Rightarrow> MemoryTransport" where
  "Unregister t nodeID = t\<lparr>tr_nodes := (tr_nodes t)(nodeID := None)\<rparr>"

definition tr_lookup :: "MemoryTransport \<Rightarrow> string \<Rightarrow> raft_error + nat" where
  "tr_lookup t targetID =
     (case tr_nodes t targetID of
        None \<Rightarrow> Inl (ErrUnknownTarget targetID)
      | Some a \<Rightarrow> Inr a)"

definition tr_RequestVote :: "int \<Rightarrow> node_heap \<Rightarrow> MemoryTransport \<Rightarrow> string \<Rightarrow> RequestVoteRequest \<Rightarrow>
    node_heap \<times> (raft_error + RequestVoteResponse)" where
  "tr_RequestVote offset h t targetID req =
     (case tr_lookup t targetID of
        Inl err \<Rightarrow> (h, Inl err)
      | Inr a \<Rightarrow> let (n', resp) = HandleRequestVote offset (h a) req in (h(a := n'), Inr resp))"

text \<open>The last component is what the target applies, see \<^term>\<open>HandleAppendEntries\<close>.\<close>

definition tr_AppendEntries :: "int \<Rightarrow> int \<Rightarrow> node_heap \<Rightarrow> MemoryTransport \<Rightarrow> string \<Rightarrow> AppendEntriesRequest \<Rightarrow>
    (node_heap \<times> (raft_error + AppendEntriesResponse) \<times> LogEntry list) option" where
  "tr_AppendEntries now offset h t targetID req =
     (case tr_lookup t targetID of
        Inl err \<Rightarrow> Some (h, Inl err, [])
      | Inr a \<Rightarrow>
          (case HandleAppendEntries now offset (h a) req of
             None \<Rightarrow> None
           | Some (n', resp, es) \<Rightarrow> Some (h(a := n'), Inr resp, es)))"

subsection \<open>What a transport promises\<close>

datatype rpc = VoteRPC int RequestVoteRequest | AppendRPC int int AppendEntriesRequest

datatype rpc_result = VoteResult RequestVoteResponse | AppendResult AppendEntriesResponse

fun handle_rpc :: "Node \<Rightarrow> rpc \<Rightarrow> (Node \<times> rpc_result) option" where
  "handle_rpc n (VoteRPC offset req) =
     (let (n', resp) = HandleRequestVote offset n req in Some (n', VoteResult resp))"
| "handle_rpc n (AppendRPC now offset req) =
     (case HandleAppendEntries now offset n req of
        None \<Rightarrow> None
      | Some (n', resp, es) \<Rightarrow> Some (n', AppendResult resp))"

type_synonym 's rpc_call = "'s \<Rightarrow> string \<Rightarrow> rpc \<Rightarrow> ('s \<times> (raft_error + rpc_result)) option"

text \<open>A sequence of calls, with the results of all of them; it ends with a panic of a handler.\<close>

fun calls :: "'s rpc_call \<Rightarrow> 's \<Rightarrow> (string \<times> rpc) list \<Rightarrow> ('s \<times> (raft_error + rpc_result) list) option" where
  "calls call s [] = Some (s, [])"
| "calls call s ((i, q) # qs) =
     (case call s i q of
        None \<Rightarrow> None
      | Some (s', r) \<Rightarrow> map_option (\<lambda>(s'', rs). (s'', r # rs)) (calls call s' qs))"

lemma handle_quiet: "handle_rpc n q = Some (n', r) \<Longrightarrow> quiet n n'"
  using quiet_RequestVote quiet_AppendEntries
  by (cases q) (auto split: option.splits prod.splits simp: Let_def, metis fst_conv)

text \<open>A granted vote binds the node, and a node that is bound grants the term to nobody else.\<close>

lemma handle_grant:
  assumes "handle_rpc n (VoteRPC c req) = Some (n', VoteResult resp)" and "rvp_VoteGranted resp"
  shows "bound_to n' (rvq_Term req) (rvq_CandidateID req)"
    and "bound_to n (rvq_Term req) v \<Longrightarrow> v \<noteq> [] \<Longrightarrow> rvq_CandidateID req = v"
proof -
  have "HandleRequestVote c n req = (n', resp)" using assms(1) by (auto simp: Let_def split: prod.splits)
  note c = HandleRequestVote_cases [OF this]
  have le: "currentTerm n \<le> rvq_Term req" using c(3) assms(2) by simp
  show "bound_to n' (rvq_Term req) (rvq_CandidateID req)"
    using c(1,4) assms(2) le by (simp add: bound_to_def max_absorb2)
  show "bound_to n (rvq_Term req) v \<Longrightarrow> v \<noteq> [] \<Longrightarrow> rvq_CandidateID req = v"
    using c(3) assms(2) le by (auto simp: bound_to_def)
qed

locale rpc_transport =
  fixes ok :: "'s \<Rightarrow> bool" and node_of :: "'s \<Rightarrow> string \<Rightarrow> Node option" and call :: "'s rpc_call"
  assumes unknown: "ok s \<Longrightarrow> node_of s i = None \<Longrightarrow> call s i q = Some (s, Inl (ErrUnknownTarget i))"
    and handled: "ok s \<Longrightarrow> node_of s i = Some n \<Longrightarrow> handle_rpc n q = Some (n', r) \<Longrightarrow>
      \<exists>s'. call s i q = Some (s', Inr r) \<and> ok s' \<and> node_of s' = (node_of s)(i \<mapsto> n')"
    and panics: "ok s \<Longrightarrow> node_of s i = Some n \<Longrightarrow> handle_rpc n q = None \<Longrightarrow> call s i q = None"
begin

lemma call_cases:
  assumes "ok s" and "call s i q = Some (s', r)"
  obtains "node_of s i = None" "s' = s" "r = Inl (ErrUnknownTarget i)"
  | n n' r' where "node_of s i = Some n" "handle_rpc n q = Some (n', r')" "r = Inr r'"
      "node_of s' = (node_of s)(i \<mapsto> n')" "ok s'"
proof (cases "node_of s i")
  case None
  then show ?thesis using assms unknown that(1) by fastforce
next
  case (Some n)
  then obtain n' r' where "handle_rpc n q = Some (n', r')"
    using assms panics by (cases "handle_rpc n q") auto
  then show ?thesis using assms handled [OF assms(1) Some] that(2) Some by fastforce
qed

lemma call_quiet:
  assumes "ok s" and "call s j q = Some (s', r)" and "node_of s i = Some n"
  shows "ok s' \<and> (\<exists>n'. node_of s' i = Some n' \<and> quiet n n')"
  using assms(1,2)
proof (cases rule: call_cases)
  case (2 m m' r')
  then show ?thesis using assms(3) handle_quiet [OF 2(2)] by (cases "i = j") auto
qed (use assms in auto)

lemma calls_quiet:
  "ok s \<Longrightarrow> calls call s qs = Some (s', rs) \<Longrightarrow> node_of s i = Some n \<Longrightarrow>
     length rs = length qs \<and> ok s' \<and> (\<exists>n'. node_of s' i = Some n' \<and> quiet n n')"
proof (induction qs arbitrary: s n rs)
  case (Cons jq qs)
  obtain j q where jq: "jq = (j, q)" by fastforce
  with Cons.prems(2) obtain t r rs' where t: "call s j q = Some (t, r)" "calls call t qs = Some (s', rs')" "rs = r # rs'"
    by (auto split: option.splits)
  obtain m where m: "ok t" "node_of t i = Some m" "quiet n m"
    using call_quiet [OF Cons.prems(1) t(1) Cons.prems(3)] by blast
  show ?case using Cons.IH [OF m(1) t(2) m(2)] quiet_trans [OF m(3)] unfolding t(3) by auto
qed auto

text \<open>Once a node is bound to a candidate in a term, it grants the term to nobody else.\<close>

lemma bound_kept:
  "ok s \<Longrightarrow> calls call s qs = Some (s', rs) \<Longrightarrow> node_of s i = Some n \<Longrightarrow> bound_to n (rvq_Term req) v \<Longrightarrow>
     v \<noteq> [] \<Longrightarrow> k < length qs \<Longrightarrow> qs ! k = (i, VoteRPC c req) \<Longrightarrow> rs ! k = Inr (VoteResult resp) \<Longrightarrow>
     rvp_VoteGranted resp \<Longrightarrow> rvq_CandidateID req = v"
proof (induction qs arbitrary: s n rs k)
  case (Cons jq qs)
  obtain j q where jq: "jq = (j, q)" by fastforce
  with Cons.prems(2) obtain t r rs' where t: "call s j q = Some (t, r)" "calls call t qs = Some (s', rs')" "rs = r # rs'"
    by (auto split: option.splits)
  obtain m where m: "ok t" "node_of t i = Some m" "quiet n m"
    using call_quiet [OF Cons.prems(1) t(1) Cons.prems(3)] by blast
  show ?case
  proof (cases k)
    case 0
    then have q: "j = i" "q = VoteRPC c req" "r = Inr (VoteResult resp)" using Cons.prems(7,8) jq t(3) by auto
    obtain m' where "handle_rpc n q = Some (m', VoteResult resp)"
      using Cons.prems(1) t(1) by (cases rule: call_cases) (use Cons.prems(3) q in auto)
    then show ?thesis using handle_grant(2) Cons.prems(4,5,9) q(2) by blast
  next
    case (Suc l)
    then have l: "l < length qs" "qs ! l = (i, VoteRPC c req)" "rs' ! l = Inr (VoteResult resp)"
      using Cons.prems(6-8) t(3) by auto
    show ?thesis
      using Cons.IH [OF m(1) t(2) m(2) bound_to_quiet [OF m(3) Cons.prems(4,5)] Cons.prems(5) l Cons.prems(9)] .
  qed
qed simp

lemma one_vote:
  "ok s \<Longrightarrow> calls call s qs = Some (s', rs) \<Longrightarrow> j < k \<Longrightarrow> k < length qs \<Longrightarrow>
     qs ! j = (i, VoteRPC c req) \<Longrightarrow> rs ! j = Inr (VoteResult resp) \<Longrightarrow> rvp_VoteGranted resp \<Longrightarrow>
     qs ! k = (i, VoteRPC c' req') \<Longrightarrow> rs ! k = Inr (VoteResult resp') \<Longrightarrow> rvp_VoteGranted resp' \<Longrightarrow>
     rvq_Term req' = rvq_Term req \<Longrightarrow> rvq_CandidateID req \<noteq> [] \<Longrightarrow> rvq_CandidateID req' = rvq_CandidateID req"
proof (induction qs arbitrary: s rs j k)
  case (Cons hq qs)
  obtain h q where hq: "hq = (h, q)" by fastforce
  with Cons.prems(2) obtain t r rs' where t: "call s h q = Some (t, r)" "calls call t qs = Some (s', rs')" "rs = r # rs'"
    by (auto split: option.splits)
  obtain l where k: "k = Suc l" using Cons.prems(3) by (cases k) auto
  have l: "l < length qs" "qs ! l = (i, VoteRPC c' req')" "rs' ! l = Inr (VoteResult resp')"
    using Cons.prems(4,8,9) t(3) k by auto
  show ?case
  proof (cases j)
    case 0
    then have q: "h = i" "q = VoteRPC c req" "r = Inr (VoteResult resp)" using Cons.prems(5,6) hq t(3) by auto
    obtain n m' where m: "handle_rpc n q = Some (m', VoteResult resp)" "node_of t i = Some m'" "ok t"
      using Cons.prems(1) t(1) by (cases rule: call_cases) (use q in auto)
    have "bound_to m' (rvq_Term req') (rvq_CandidateID req)"
      using handle_grant(1) [OF m(1) [unfolded q(2)] Cons.prems(7)] Cons.prems(11) by simp
    then show ?thesis by (rule bound_kept [OF m(3) t(2) m(2) _ Cons.prems(12) l Cons.prems(10)])
  next
    case (Suc i')
    have "ok t" using Cons.prems(1) t(1) by (cases rule: call_cases) (use Cons.prems(1) in auto)
    then show ?thesis
      using Cons.IH [OF _ t(2), of i' l] Cons.prems(3-12) t(3) k Suc l by auto
  qed
qed simp

end

subsection \<open>The in-memory transport is one\<close>

text \<open>Every node is registered under its own identifier, so no two identifiers share a node.\<close>

definition tr_ok :: "node_heap \<times> MemoryTransport \<Rightarrow> bool" where
  "tr_ok s \<longleftrightarrow> (\<forall>i a. tr_nodes (snd s) i = Some a \<longrightarrow> node_id (fst s a) = i)"

definition tr_node :: "node_heap \<times> MemoryTransport \<Rightarrow> string \<Rightarrow> Node option" where
  "tr_node s i = map_option (fst s) (tr_nodes (snd s) i)"

fun tr_call :: "(node_heap \<times> MemoryTransport) rpc_call" where
  "tr_call (h, t) i (VoteRPC offset req) =
     (case tr_RequestVote offset h t i req of (h', r) \<Rightarrow> Some ((h', t), map_sum id VoteResult r))"
| "tr_call (h, t) i (AppendRPC now offset req) =
     (case tr_AppendEntries now offset h t i req of
        None \<Rightarrow> None
      | Some (h', r, es) \<Rightarrow> Some ((h', t), map_sum id AppendResult r))"

lemma tr_call_eq:
  "tr_call (h, t) i q =
     (case tr_nodes t i of
        None \<Rightarrow> Some ((h, t), Inl (ErrUnknownTarget i))
      | Some a \<Rightarrow> map_option (\<lambda>(n', r). ((h(a := n'), t), Inr r)) (handle_rpc (h a) q))"
  by (cases q) (auto simp: tr_RequestVote_def tr_AppendEntries_def tr_lookup_def Let_def
      split: option.splits prod.splits)

lemma handle_id: "handle_rpc n q = Some (n', r) \<Longrightarrow> node_id n' = node_id n"
  using handle_quiet by (simp add: quiet_def)

interpretation mem: rpc_transport tr_ok tr_node tr_call
proof
  fix s i q assume "tr_ok s" "tr_node s i = None"
  then show "tr_call s i q = Some (s, Inl (ErrUnknownTarget i))"
    by (cases s) (auto simp: tr_call_eq tr_node_def split: option.splits)
next
  fix s i n q n' r assume h: "tr_ok s" "tr_node s i = Some n" "handle_rpc n q = Some (n', r)"
  obtain hp t where s: "s = (hp, t)" by fastforce
  obtain a where a: "tr_nodes t i = Some a" "n = hp a" using h(2) s by (auto simp: tr_node_def)
  have inj: "tr_nodes t j = Some a \<longleftrightarrow> j = i" for j
    using h(1) a(1) s by (auto simp: tr_ok_def)
  have "node_id n' = i" using h(1) a handle_id [OF h(3)] s by (simp add: tr_ok_def)
  then have "tr_ok (hp(a := n'), t)" using h(1) inj s by (simp add: tr_ok_def)
  moreover have "tr_node (hp(a := n'), t) = (tr_node s)(i \<mapsto> n')"
  proof
    fix j
    show "tr_node (hp(a := n'), t) j = ((tr_node s)(i \<mapsto> n')) j"
      using inj [of j] s by (cases "tr_nodes t j") (auto simp: tr_node_def)
  qed
  moreover have "tr_call s i q = Some ((hp(a := n'), t), Inr r)"
    using a(1) h(3) [unfolded a(2)] unfolding s by (simp add: tr_call_eq)
  ultimately show "\<exists>s'. tr_call s i q = Some (s', Inr r) \<and> tr_ok s' \<and> tr_node s' = (tr_node s)(i \<mapsto> n')"
    by blast
next
  fix s i n q assume "tr_ok s" "tr_node s i = Some n" "handle_rpc n q = None"
  then show "tr_call s i q = None" by (cases s) (auto simp: tr_call_eq tr_node_def)
qed

lemma tr_ok_New: "tr_ok (h, NewMemoryTransport)"
  by (simp add: tr_ok_def NewMemoryTransport_def)

lemma tr_ok_Register: "tr_ok (h, t) \<Longrightarrow> tr_ok (h, fst (Register h t a))"
  by (auto simp: tr_ok_def Register_def split: option.splits)

lemma tr_ok_Unregister: "tr_ok (h, t) \<Longrightarrow> tr_ok (h, Unregister t i)"
  by (auto simp: tr_ok_def Unregister_def)

text \<open>
  C36: one vote in each term. However requests are sent through the transport, to whatever nodes and
  in whatever order, a node that has granted its vote in a term to a candidate with a nonempty identifier grants it in
  this term to no other candidate. (A vote for the empty identifier does not bind; no node is built
  with this identifier.)
\<close>

theorem transport_one_vote:
  assumes "tr_ok s" and "calls tr_call s qs = Some (s', rs)" and "j < k" and "k < length qs"
    and "qs ! j = (i, VoteRPC c req)" and "rs ! j = Inr (VoteResult resp)" and "rvp_VoteGranted resp"
    and "qs ! k = (i, VoteRPC c' req')" and "rs ! k = Inr (VoteResult resp')" and "rvp_VoteGranted resp'"
    and "rvq_Term req' = rvq_Term req" and "rvq_CandidateID req \<noteq> []"
  shows "rvq_CandidateID req' = rvq_CandidateID req"
  by (rule mem.one_vote [OF assms])

text \<open>
  Delivery. A node is refused by the transport only if it is nil or has no identifier.
  A request to a registered node is answered by that node's handler and changes no other node; a
  request to an identifier that was never registered, or that was removed since, fails and changes
  nothing.
\<close>

lemma transport_delivers:
  assumes "tr_ok (h, t)"
  shows "(snd (Register h t p) = None \<longleftrightarrow> (\<exists>a. p = Some a \<and> node_id (h a) \<noteq> [])) \<and>
    tr_node (h, fst (Register h t p)) =
      (case p of
         None \<Rightarrow> tr_node (h, t)
       | Some a \<Rightarrow> if node_id (h a) = [] then tr_node (h, t) else (tr_node (h, t))(node_id (h a) \<mapsto> h a)) \<and>
    tr_node (h, Unregister t i) = (tr_node (h, t))(i := None) \<and>
    (case tr_node (h, t) i of
       None \<Rightarrow> tr_call (h, t) i q = Some ((h, t), Inl (ErrUnknownTarget i))
     | Some n \<Rightarrow>
         (case handle_rpc n q of
            None \<Rightarrow> tr_call (h, t) i q = None
          | Some (n', r) \<Rightarrow> \<exists>h'. tr_call (h, t) i q = Some ((h', t), Inr r) \<and>
              tr_node (h', t) = (tr_node (h, t))(i \<mapsto> n')))"
proof (intro conjI)
  show "snd (Register h t p) = None \<longleftrightarrow> (\<exists>a. p = Some a \<and> node_id (h a) \<noteq> [])"
    by (auto simp: Register_def split: option.splits)
  show "tr_node (h, fst (Register h t p)) =
      (case p of
         None \<Rightarrow> tr_node (h, t)
       | Some a \<Rightarrow> if node_id (h a) = [] then tr_node (h, t) else (tr_node (h, t))(node_id (h a) \<mapsto> h a))"
    by (auto simp: Register_def tr_node_def fun_eq_iff split: option.splits)
  show "tr_node (h, Unregister t i) = (tr_node (h, t))(i := None)"
    by (simp add: Unregister_def tr_node_def fun_eq_iff)
  have snd_call: "snd s' = t" if "tr_call (h, t) i q = Some (s', r)" for s' r
    using that by (auto simp: tr_call_eq split: option.splits)
  show "case tr_node (h, t) i of
       None \<Rightarrow> tr_call (h, t) i q = Some ((h, t), Inl (ErrUnknownTarget i))
     | Some n \<Rightarrow>
         (case handle_rpc n q of
            None \<Rightarrow> tr_call (h, t) i q = None
          | Some (n', r) \<Rightarrow> \<exists>h'. tr_call (h, t) i q = Some ((h', t), Inr r) \<and>
              tr_node (h', t) = (tr_node (h, t))(i \<mapsto> n'))"
  proof (cases "tr_node (h, t) i")
    case (Some n)
    show ?thesis
    proof (cases "handle_rpc n q")
      case None
      then show ?thesis using mem.panics [OF assms Some] Some by simp
    next
      case (Some nr)
      obtain n' r where nr: "nr = (n', r)" by fastforce
      obtain s' where "tr_call (h, t) i q = Some (s', Inr r)" "tr_node s' = (tr_node (h, t))(i \<mapsto> n')"
        using mem.handled [OF assms \<open>tr_node (h, t) i = Some n\<close>] Some nr by blast
      then have "\<exists>h'. tr_call (h, t) i q = Some ((h', t), Inr r) \<and> tr_node (h', t) = (tr_node (h, t))(i \<mapsto> n')"
        using snd_call [of s' "Inr r"] by (intro exI [of _ "fst s'"]) (cases s', simp)
      then show ?thesis unfolding \<open>tr_node (h, t) i = Some n\<close> Some nr option.case prod.case .
    qed
  qed (simp add: mem.unknown [OF assms])
qed

text \<open>Three nodes behind one transport; the third is not registered.\<close>

definition example_heap :: node_heap where
  "example_heap a = example_node\<lparr>node_id := (if a = 0 then ''a'' else if a = 1 then ''b'' else ''c'')\<rparr>"

definition example_transport :: MemoryTransport where
  "example_transport = fst (Register example_heap (fst (Register example_heap NewMemoryTransport (Some 0))) (Some 1))"

lemma example_transport_ok: "tr_ok (example_heap, example_transport)"
  unfolding example_transport_def by (intro tr_ok_Register tr_ok_New)

theorem transport_one_vote_witness:
  "\<exists>s rs v w.
     calls tr_call (example_heap, example_transport)
       [(''a'', VoteRPC 0 (voteRequest (example_heap 1) 2 1 1)), (''a'', VoteRPC 3 (voteRequest (example_heap 1) 2 5 1))] =
       Some (s, rs) \<and> rs = [Inr (VoteResult v), Inr (VoteResult w)] \<and> rvp_VoteGranted v \<and> rvp_VoteGranted w \<and>
     rvq_CandidateID (voteRequest (example_heap 1) 2 5 1) = rvq_CandidateID (voteRequest (example_heap 1) 2 1 1)"
proof -
  let ?r = "voteRequest (example_heap 1) 2 1 1" and ?r' = "voteRequest (example_heap 1) 2 5 1"
  let ?qs = "[(''a'', VoteRPC 0 ?r), (''a'', VoteRPC 3 ?r')]" and ?s = "(example_heap, example_transport)"
  obtain s rs v w where run: "calls tr_call ?s ?qs = Some (s, rs)"
    and rs: "rs = [Inr (VoteResult v), Inr (VoteResult w)]" and g: "rvp_VoteGranted v" "rvp_VoteGranted w"
    by (simp add: tr_call_eq example_transport_def Register_def NewMemoryTransport_def HandleRequestVote_def
        isLogUpToDate_def lastLogTerm_def lastLogIndex_def voteRequest_def stepDownLocked_def
        example_heap_def example_node_def Let_def)
  have "rvq_CandidateID ?r' = rvq_CandidateID ?r"
    using transport_one_vote [OF example_transport_ok run, of 0 1 "''a''" 0 ?r v 3 ?r' w] rs g
    by (simp add: voteRequest_def example_heap_def)
  then show ?thesis using run rs g by blast
qed

end
