(* ===== verification/CoordRaft.thy ===== *)
theory CoordRaft
  imports Coordinator RaftTransport
begin

text \<open>
  The Raft requests of the coordinators over TCP (\<^verbatim>\<open>cmd/coordinator/raft_rpc.go\<close>, \<^verbatim>\<open>raft_transport.go\<close>): the envelope,
  the server that handles one request for each connection, and the client. The JSON encoder and decoder of each
  type of message are collected in a record and are arguments. The transport is shown to do what
  the transport in memory does.
\<close>

section \<open>Messages\<close>

definition rpcRequestVote :: string where
  "rpcRequestVote = ''REQUEST_VOTE''"

definition rpcAppendEntries :: string where
  "rpcAppendEntries = ''APPEND_ENTRIES''"

definition rpcPropose :: string where
  "rpcPropose = ''PROPOSE''"

record proposeRequest =
  pq_Command :: string

record proposeResponse =
  pp_OK :: bool
  pp_LeaderID :: string
  pp_Error :: string

record raftEnvelope =
  en_Type :: string
  en_RequestVote :: "RequestVoteRequest option"
  en_AppendEntries :: "AppendEntriesRequest option"
  en_Propose :: "proposeRequest option"

text \<open>\<^verbatim>\<open>json.Marshal\<close> and \<^verbatim>\<open>json.Unmarshal\<close> at a type.\<close>

record 'a json_codec =
  js_Marshal :: "'a \<Rightarrow> string + byte list"
  js_Unmarshal :: "byte list \<Rightarrow> string + 'a"

record raft_json =
  rj_envelope :: "raftEnvelope json_codec"
  rj_vote :: "RequestVoteResponse json_codec"
  rj_append :: "AppendEntriesResponse json_codec"
  rj_propose :: "proposeResponse json_codec"

section \<open>The server\<close>

definition writeJSONFrame :: "'a json_codec \<Rightarrow> 'a \<Rightarrow> byte list" where
  "writeJSONFrame js payload =
     (case js_Marshal js payload of
        Inl err \<Rightarrow> []
      | Inr data \<Rightarrow> coord_writeFrame data)"

text \<open>What \<^verbatim>\<open>err.Error()\<close> returns for an error of \<^verbatim>\<open>Propose\<close>.\<close>

fun error_text :: "raft_error \<Rightarrow> string" where
  "error_text ErrInvalidConfig = ''invalid raft config''"
| "error_text ErrNilTransport = ''transport is required''"
| "error_text ErrInvalidTimeout = ''timeouts must be positive''"
| "error_text ErrNotLeader = ''not leader''"
| "error_text ErrReplicationFailed = ''replication failed''"
| "error_text (ErrUnknownTarget i) = ''unknown target '' @ i"
| "error_text ErrCancelled = ''context canceled''"

text \<open>
  The answer to a proposal. The proposal itself is carried out by the goroutines of the Raft group; \<open>result\<close> is the error that
  it ends with, and \<open>leader\<close> what \<^verbatim>\<open>LeaderID\<close> returns after it.
\<close>

definition proposeReply :: "raft_error option \<Rightarrow> string \<Rightarrow> proposeResponse" where
  "proposeReply result leader =
     (let resp = \<lparr>pp_OK = (result = None), pp_LeaderID = '''', pp_Error = ''''\<rparr>
      in case result of
           None \<Rightarrow> resp
         | Some err \<Rightarrow>
             let resp = resp\<lparr>pp_Error := error_text err\<rparr>
             in if err = ErrNotLeader then resp\<lparr>pp_LeaderID := leader\<rparr> else resp)"

text \<open>
  One connection: the node afterwards, what is written to the connection, the entries that the node applies, and the command
  that is proposed. \<open>None\<close> is a panic of the handler.
\<close>

definition handleRaftConn :: "raft_json \<Rightarrow> int \<Rightarrow> int \<Rightarrow> (string \<Rightarrow> raft_error option \<times> string) \<Rightarrow> Reader \<Rightarrow> Node \<Rightarrow>
    (Node \<times> byte list \<times> LogEntry list \<times> string list) option" where
  "handleRaftConn json now offset propose reader n =
     (case coord_readFrame reader of
        (_, Inl err) \<Rightarrow> Some (n, [], [], [])
      | (_, Inr payload) \<Rightarrow>
          (case js_Unmarshal (rj_envelope json) payload of
             Inl err \<Rightarrow> Some (n, [], [], [])
           | Inr envelope \<Rightarrow>
               if en_Type envelope = rpcRequestVote then
                 (case en_RequestVote envelope of
                    None \<Rightarrow> Some (n, [], [], [])
                  | Some req \<Rightarrow>
                      let (n', resp) = HandleRequestVote offset n req
                      in Some (n', writeJSONFrame (rj_vote json) resp, [], []))
               else if en_Type envelope = rpcAppendEntries then
                 (case en_AppendEntries envelope of
                    None \<Rightarrow> Some (n, [], [], [])
                  | Some req \<Rightarrow>
                      (case HandleAppendEntries now offset n req of
                         None \<Rightarrow> None
                       | Some (n', resp, es) \<Rightarrow> Some (n', writeJSONFrame (rj_append json) resp, es, [])))
               else if en_Type envelope = rpcPropose then
                 (case en_Propose envelope of
                    None \<Rightarrow> Some (n, [], [], [])
                  | Some req \<Rightarrow>
                      let (err, leader) = propose (pq_Command req)
                      in Some (n, writeJSONFrame (rj_propose json) (proposeReply err leader), [], [pq_Command req]))
               else Some (n, [], [], [])))"

section \<open>The client\<close>

datatype rpc_error =
    UnknownPeer string
  | NetError io_error
  | JSONError string

text \<open>
  The network. The world \<open>'w\<close> holds what is at the other ends. Dialling may fail; a connection takes the bytes that are written to it
  and gives an error or what can be read, which may change the world and may end in a panic there.
\<close>

record 'w network =
  nw_dial :: "'w \<Rightarrow> string \<Rightarrow> io_error option"
  nw_talk :: "'w \<Rightarrow> string \<Rightarrow> byte list \<Rightarrow> ('w \<times> (io_error + Reader)) option"

definition sendRaftRPC :: "raft_json \<Rightarrow> 'a json_codec \<Rightarrow> 'w network \<Rightarrow> 'w \<Rightarrow> string \<Rightarrow> raftEnvelope \<Rightarrow> ('w \<times> (rpc_error + 'a)) option" where
  "sendRaftRPC json js net w addr req =
     (case nw_dial net w addr of
        Some err \<Rightarrow> Some (w, Inl (NetError err))
      | None \<Rightarrow>
          (case js_Marshal (rj_envelope json) req of
             Inl err \<Rightarrow> Some (w, Inl (JSONError err))
           | Inr payload \<Rightarrow>
               (case nw_talk net w addr (coord_writeFrame payload) of
                  None \<Rightarrow> None
                | Some (w', Inl err) \<Rightarrow> Some (w', Inl (NetError err))
                | Some (w', Inr reader) \<Rightarrow>
                    Some (w', case coord_readFrame reader of
                                (_, Inl err) \<Rightarrow> Inl (NetError err)
                              | (_, Inr responsePayload) \<Rightarrow>
                                  (case js_Unmarshal js responsePayload of Inl err \<Rightarrow> Inl (JSONError err) | Inr resp \<Rightarrow> Inr resp)))))"

definition sendPropose :: "raft_json \<Rightarrow> 'w network \<Rightarrow> 'w \<Rightarrow> string \<Rightarrow> string \<Rightarrow> ('w \<times> (rpc_error + proposeResponse)) option" where
  "sendPropose json net w addr command =
     sendRaftRPC json (rj_propose json) net w addr
       \<lparr>en_Type = rpcPropose, en_RequestVote = None, en_AppendEntries = None, en_Propose = Some \<lparr>pq_Command = command\<rparr>\<rparr>"

record tcpTransport =
  tt_peers :: "(string \<times> string) list"

text \<open>The copy of the map.\<close>

definition newTCPTransport :: "(string \<times> string) list \<Rightarrow> tcpTransport" where
  "newTCPTransport ps = \<lparr>tt_peers = fold (\<lambda>(i, addr). AList.update i addr) ps []\<rparr>"

definition tcp_RequestVote :: "raft_json \<Rightarrow> 'w network \<Rightarrow> tcpTransport \<Rightarrow> 'w \<Rightarrow> string \<Rightarrow> RequestVoteRequest \<Rightarrow>
    ('w \<times> (rpc_error + RequestVoteResponse)) option" where
  "tcp_RequestVote json net t w targetID req =
     (case map_of (tt_peers t) targetID of
        None \<Rightarrow> Some (w, Inl (UnknownPeer targetID))
      | Some addr \<Rightarrow>
          sendRaftRPC json (rj_vote json) net w addr
            \<lparr>en_Type = rpcRequestVote, en_RequestVote = Some req, en_AppendEntries = None, en_Propose = None\<rparr>)"

definition tcp_AppendEntries :: "raft_json \<Rightarrow> 'w network \<Rightarrow> tcpTransport \<Rightarrow> 'w \<Rightarrow> string \<Rightarrow> AppendEntriesRequest \<Rightarrow>
    ('w \<times> (rpc_error + AppendEntriesResponse)) option" where
  "tcp_AppendEntries json net t w targetID req =
     (case map_of (tt_peers t) targetID of
        None \<Rightarrow> Some (w, Inl (UnknownPeer targetID))
      | Some addr \<Rightarrow>
          sendRaftRPC json (rj_append json) net w addr
            \<lparr>en_Type = rpcAppendEntries, en_RequestVote = None, en_AppendEntries = Some req, en_Propose = None\<rparr>)"

section \<open>The transport in memory and over TCP\<close>

text \<open>A network of Raft servers, by their addresses, with what each node has applied and what has been proposed to it.\<close>

record served =
  sv_node :: Node
  sv_applied :: "LogEntry list"
  sv_proposed :: "string list"

definition raft_network :: "raft_json \<Rightarrow> int \<Rightarrow> int \<Rightarrow> (string \<Rightarrow> string \<Rightarrow> raft_error option \<times> string) \<Rightarrow> (string \<rightharpoonup> served) network" where
  "raft_network json now offset propose =
     \<lparr>nw_dial = (\<lambda>w addr. case w addr of None \<Rightarrow> Some (OtherError ''connection refused'') | Some _ \<Rightarrow> None),
      nw_talk = (\<lambda>w addr bytes.
        case w addr of
          None \<Rightarrow> Some (w, Inl (OtherError ''connection reset''))
        | Some sv \<Rightarrow>
            (case handleRaftConn json now offset (propose addr) \<lparr>rd_data = bytes, rd_end = EOF\<rparr> (sv_node sv) of
               None \<Rightarrow> None
             | Some (n', out, es, cmds) \<Rightarrow>
                 Some (w(addr \<mapsto> \<lparr>sv_node = n', sv_applied = sv_applied sv @ es, sv_proposed = sv_proposed sv @ cmds\<rparr>),
                       Inr \<lparr>rd_data = out, rd_end = EOF\<rparr>)))\<rparr>"

text \<open>A value that survives the encoding and fits into a frame.\<close>

definition carries :: "'a json_codec \<Rightarrow> 'a \<Rightarrow> bool" where
  "carries js x \<longleftrightarrow> (\<exists>bytes. js_Marshal js x = Inr bytes \<and> js_Unmarshal js bytes = Inr x \<and> length bytes < 2 ^ 32)"

lemma carriesE:
  assumes "carries js x"
  obtains bytes where "js_Marshal js x = Inr bytes" and "js_Unmarshal js bytes = Inr x" and "length bytes < 2 ^ 32"
  using assms by (auto simp: carries_def)

text \<open>One request: the client gets what the server answers.\<close>

lemma sendRaftRPC_served:
  assumes "carries (rj_envelope json) req" and "w addr = Some sv" and "carries js resp"
    and "\<And>payload. js_Unmarshal (rj_envelope json) payload = Inr req \<Longrightarrow> length payload < 2 ^ 32 \<Longrightarrow>
      handleRaftConn json now offset (propose addr) \<lparr>rd_data = writeFrame payload, rd_end = EOF\<rparr> (sv_node sv) =
        Some (n', writeJSONFrame js resp, es, cmds)"
  shows "sendRaftRPC json js (raft_network json now offset propose) w addr req =
    Some (w(addr \<mapsto> \<lparr>sv_node = n', sv_applied = sv_applied sv @ es, sv_proposed = sv_proposed sv @ cmds\<rparr>), Inr resp)"
proof -
  obtain payload where p: "js_Marshal (rj_envelope json) req = Inr payload" "js_Unmarshal (rj_envelope json) payload = Inr req"
    "length payload < 2 ^ 32"
    using assms(1) by (rule carriesE)
  obtain bytes where b: "js_Marshal js resp = Inr bytes" "js_Unmarshal js bytes = Inr resp" "length bytes < 2 ^ 32"
    using assms(3) by (rule carriesE)
  have "coord_readFrame \<lparr>rd_data = writeJSONFrame js resp, rd_end = EOF\<rparr> = (\<lparr>rd_data = [], rd_end = EOF\<rparr>, Inr bytes)"
    using readFrame_writeFrame [OF b(3), of "[]" EOF] by (simp add: writeJSONFrame_def b(1) coord_readFrame_def coord_writeFrame_def)
  then show ?thesis
    using assms(4) [OF p(2,3)] by (simp add: sendRaftRPC_def raft_network_def assms(2) p(1) b(2) coord_writeFrame_def)
qed

lemma handleRaftConn_frame:
  assumes "js_Unmarshal (rj_envelope json) payload = Inr envelope" and "length payload < 2 ^ 32"
  shows "handleRaftConn json now offset propose \<lparr>rd_data = writeFrame payload, rd_end = EOF\<rparr> n =
    (if en_Type envelope = rpcRequestVote then
       (case en_RequestVote envelope of
          None \<Rightarrow> Some (n, [], [], [])
        | Some req \<Rightarrow> let (n', resp) = HandleRequestVote offset n req in Some (n', writeJSONFrame (rj_vote json) resp, [], []))
     else if en_Type envelope = rpcAppendEntries then
       (case en_AppendEntries envelope of
          None \<Rightarrow> Some (n, [], [], [])
        | Some req \<Rightarrow>
            (case HandleAppendEntries now offset n req of
               None \<Rightarrow> None
             | Some (n', resp, es) \<Rightarrow> Some (n', writeJSONFrame (rj_append json) resp, es, [])))
     else if en_Type envelope = rpcPropose then
       (case en_Propose envelope of
          None \<Rightarrow> Some (n, [], [], [])
        | Some req \<Rightarrow>
            let (err, leader) = propose (pq_Command req)
            in Some (n, writeJSONFrame (rj_propose json) (proposeReply err leader), [], [pq_Command req]))
     else Some (n, [], [], []))"
  using readFrame_writeFrame [OF assms(2), of "[]" EOF] assms(1) by (simp add: handleRaftConn_def coord_readFrame_def)

lemma rpc_types: "rpcAppendEntries \<noteq> rpcRequestVote" "rpcPropose \<noteq> rpcRequestVote" "rpcPropose \<noteq> rpcAppendEntries"
  by (simp_all add: rpcAppendEntries_def rpcRequestVote_def rpcPropose_def)

text \<open>
  The correspondence of the two transports: the same peers are known, and the server at the address of a peer runs the node that
  the transport in memory has for it.
\<close>

definition mirrors :: "(nat \<Rightarrow> string) \<Rightarrow> tcpTransport \<Rightarrow> MemoryTransport \<Rightarrow> (string \<rightharpoonup> served) \<Rightarrow> node_heap \<Rightarrow> bool" where
  "mirrors addr_of t mt w h \<longleftrightarrow> inj_on addr_of (ran (tr_nodes mt)) \<and>
     (\<forall>i. map_of (tt_peers t) i = map_option addr_of (tr_nodes mt i)) \<and>
     (\<forall>a \<in> ran (tr_nodes mt). \<exists>sv. w (addr_of a) = Some sv \<and> sv_node sv = h a)"

lemma mirrors_update:
  assumes "mirrors addr_of t mt w h" and "a \<in> ran (tr_nodes mt)" and "sv_node sv = n"
  shows "mirrors addr_of t mt (w(addr_of a \<mapsto> sv)) (h(a := n))"
  using assms unfolding mirrors_def by (auto dest: inj_onD)

lemma tcp_vote_known:
  assumes m: "mirrors addr_of t mt w h" and a: "tr_nodes mt i = Some a"
    and c: "carries (rj_envelope json) \<lparr>en_Type = rpcRequestVote, en_RequestVote = Some req, en_AppendEntries = None, en_Propose = None\<rparr>"
    and r: "HandleRequestVote offset (h a) req = (n', resp)" and "carries (rj_vote json) resp"
  shows "\<exists>w'. tcp_RequestVote json (raft_network json now offset propose) t w i req = Some (w', Inr resp) \<and>
    mirrors addr_of t mt w' (h(a := n'))"
proof -
  have ran: "a \<in> ran (tr_nodes mt)" using a by (rule ranI)
  obtain sv where sv: "w (addr_of a) = Some sv" "sv_node sv = h a" using m ran unfolding mirrors_def by blast
  have "sendRaftRPC json (rj_vote json) (raft_network json now offset propose) w (addr_of a)
      \<lparr>en_Type = rpcRequestVote, en_RequestVote = Some req, en_AppendEntries = None, en_Propose = None\<rparr> =
    Some (w(addr_of a \<mapsto> \<lparr>sv_node = n', sv_applied = sv_applied sv @ [], sv_proposed = sv_proposed sv @ []\<rparr>), Inr resp)"
    by (rule sendRaftRPC_served [where w = w and addr = "addr_of a", OF c sv(1) assms(5)]) (simp add: handleRaftConn_frame sv(2) r)
  moreover have "map_of (tt_peers t) i = Some (addr_of a)" using m a by (simp add: mirrors_def)
  moreover have "mirrors addr_of t mt (w(addr_of a \<mapsto> \<lparr>sv_node = n', sv_applied = sv_applied sv, sv_proposed = sv_proposed sv\<rparr>)) (h(a := n'))"
    by (rule mirrors_update [OF m ran]) simp
  ultimately show ?thesis by (simp add: tcp_RequestVote_def)
qed

lemma tcp_append_known:
  assumes m: "mirrors addr_of t mt w h" and a: "tr_nodes mt i = Some a"
    and c: "carries (rj_envelope json) \<lparr>en_Type = rpcAppendEntries, en_RequestVote = None, en_AppendEntries = Some req, en_Propose = None\<rparr>"
    and r: "HandleAppendEntries now offset (h a) req = Some (n', resp, es)" and "carries (rj_append json) resp"
  shows "\<exists>w' sv sv'. tcp_AppendEntries json (raft_network json now offset propose) t w i req = Some (w', Inr resp) \<and>
    mirrors addr_of t mt w' (h(a := n')) \<and> w (addr_of a) = Some sv \<and> w' (addr_of a) = Some sv' \<and> sv_applied sv' = sv_applied sv @ es"
proof -
  have ran: "a \<in> ran (tr_nodes mt)" using a by (rule ranI)
  obtain sv where sv: "w (addr_of a) = Some sv" "sv_node sv = h a" using m ran unfolding mirrors_def by blast
  let ?sv = "\<lparr>sv_node = n', sv_applied = sv_applied sv @ es, sv_proposed = sv_proposed sv @ []\<rparr>"
  have "sendRaftRPC json (rj_append json) (raft_network json now offset propose) w (addr_of a)
      \<lparr>en_Type = rpcAppendEntries, en_RequestVote = None, en_AppendEntries = Some req, en_Propose = None\<rparr> =
    Some (w(addr_of a \<mapsto> ?sv), Inr resp)"
    by (rule sendRaftRPC_served [where w = w and addr = "addr_of a", OF c sv(1) assms(5)]) (simp add: handleRaftConn_frame sv(2) r rpc_types)
  moreover have "map_of (tt_peers t) i = Some (addr_of a)" using m a by (simp add: mirrors_def)
  moreover have "mirrors addr_of t mt (w(addr_of a \<mapsto> ?sv)) (h(a := n'))" by (rule mirrors_update [OF m ran]) simp
  ultimately show ?thesis using sv(1)
    by (intro exI [of _ "w(addr_of a \<mapsto> ?sv)"] exI [of _ sv] exI [of _ ?sv]) (simp add: tcp_AppendEntries_def)
qed

text \<open>
  A network with faults: a connection is refused, the request is lost, or the answer is. A request over it ends as without faults, or with an error
  after the other end has handled the request or has not.
\<close>

datatype fault = NoFault | DialFault io_error | RequestLost io_error | AnswerLost io_error

definition lossy :: "(string \<Rightarrow> fault) \<Rightarrow> 'w network \<Rightarrow> 'w network" where
  "lossy faults net =
     \<lparr>nw_dial = (\<lambda>w addr. case faults addr of DialFault err \<Rightarrow> Some err | _ \<Rightarrow> nw_dial net w addr),
      nw_talk = (\<lambda>w addr bytes.
        case faults addr of
          RequestLost err \<Rightarrow> Some (w, Inl err)
        | AnswerLost err \<Rightarrow> map_option (\<lambda>(w', _). (w', Inl err)) (nw_talk net w addr bytes)
        | _ \<Rightarrow> nw_talk net w addr bytes)\<rparr>"

lemma sendRaftRPC_lossy:
  assumes "sendRaftRPC json js (lossy faults net) w addr req = Some (w', r)"
  shows "sendRaftRPC json js net w addr req = Some (w', r) \<or>
    (\<exists>err. r = Inl err \<and> (w' = w \<or> (\<exists>r'. sendRaftRPC json js net w addr req = Some (w', r'))))"
  using assms
  by (cases "faults addr")
    (auto simp: sendRaftRPC_def lossy_def split: option.splits sum.splits prod.splits)

text \<open>
  C8: the transport over TCP does what the transport in memory does, while the network delivers. If the peers are known under the same names and every
  server runs the node that the transport in memory has for its peer, then a request for a vote or to append entries
  that the encoding carries has the same result, an unknown peer included, and leaves the nodes in the same
  states; a node that appends entries applies the same ones.
\<close>

theorem tcp_simulates_memory:
  assumes "mirrors addr_of t mt w h"
    and "carries (rj_envelope json) \<lparr>en_Type = rpcRequestVote, en_RequestVote = Some vreq, en_AppendEntries = None, en_Propose = None\<rparr>"
    and "carries (rj_envelope json) \<lparr>en_Type = rpcAppendEntries, en_RequestVote = None, en_AppendEntries = Some areq, en_Propose = None\<rparr>"
    and "\<And>resp. carries (rj_vote json) resp" and "\<And>resp. carries (rj_append json) resp"
    and "tr_RequestVote offset h mt i vreq = (hv, rv)" and "tr_AppendEntries now offset h mt i areq = Some (ha, ra, es)"
  shows "(\<exists>w'. tcp_RequestVote json (raft_network json now offset propose) t w i vreq =
        Some (w', case rv of Inl _ \<Rightarrow> Inl (UnknownPeer i) | Inr resp \<Rightarrow> Inr resp) \<and> mirrors addr_of t mt w' hv) \<and>
    (\<exists>w'. tcp_AppendEntries json (raft_network json now offset propose) t w i areq =
        Some (w', case ra of Inl _ \<Rightarrow> Inl (UnknownPeer i) | Inr resp \<Rightarrow> Inr resp) \<and> mirrors addr_of t mt w' ha \<and>
      (\<forall>a. tr_nodes mt i = Some a \<longrightarrow>
        map_option sv_applied (w' (addr_of a)) = map_option (\<lambda>sv. sv_applied sv @ es) (w (addr_of a))))"
proof (cases "tr_nodes mt i")
  case None
  then have "map_of (tt_peers t) i = None" using assms(1) by (simp add: mirrors_def)
  then show ?thesis using None assms(1,6,7) by (auto simp: tcp_RequestVote_def tcp_AppendEntries_def tr_RequestVote_def tr_AppendEntries_def tr_lookup_def)
next
  case (Some a)
  obtain nv respv where v: "HandleRequestVote offset (h a) vreq = (nv, respv)" by fastforce
  then have hv: "hv = h(a := nv)" "rv = Inr respv" using assms(6) Some by (auto simp: tr_RequestVote_def tr_lookup_def)
  obtain na respa where ap: "HandleAppendEntries now offset (h a) areq = Some (na, respa, es)" "ha = h(a := na)" "ra = Inr respa"
    using assms(7) Some by (auto simp: tr_AppendEntries_def tr_lookup_def split: option.splits)
  show ?thesis
    using tcp_vote_known [OF assms(1) Some assms(2) v assms(4), of now propose]
      tcp_append_known [OF assms(1) Some assms(3) ap(1) assms(5), of propose] Some hv ap(2,3)
    by fastforce
qed

text \<open>Codecs that carry every response, and two requests.\<close>

definition flag_codec :: "('a \<Rightarrow> bool \<times> u64) \<Rightarrow> (bool \<Rightarrow> u64 \<Rightarrow> 'a) \<Rightarrow> 'a json_codec" where
  "flag_codec dest mk =
     \<lparr>js_Marshal = (\<lambda>x. Inr ((if fst (dest x) then 1 else 0) # PutUint32 (ucast (drop_bit 32 (snd (dest x)))) @ PutUint32 (ucast (snd (dest x))))),
      js_Unmarshal = (\<lambda>bs. case bs of
         [] \<Rightarrow> Inl ''empty''
       | b # bs \<Rightarrow> Inr (mk (b = 1) (push_bit 32 (ucast (BigEndian_Uint32 (take 4 bs))) OR ucast (BigEndian_Uint32 (drop 4 bs)))))\<rparr>"

lemma join_u64: "push_bit 32 (ucast (ucast (drop_bit 32 w) :: u32)) OR ucast (ucast w :: u32) = (w :: u64)"
  by (rule bit_word_eqI) (auto simp: bit_simps)

lemma flag_codec_carries:
  assumes "\<And>x. mk (fst (dest x)) (snd (dest x)) = x"
  shows "carries (flag_codec dest mk) x"
  using assms [of x] by (auto simp: carries_def flag_codec_def BigEndian_PutUint32 join_u64)

definition example_vote :: RequestVoteRequest where
  "example_vote = \<lparr>rvq_Term = 1, rvq_CandidateID = ''a'', rvq_LastLogIndex = 0, rvq_LastLogTerm = 0\<rparr>"

definition example_beat :: AppendEntriesRequest where
  "example_beat = \<lparr>aeq_Term = 1, aeq_LeaderID = ''a'', aeq_PrevLogIndex = 0, aeq_PrevLogTerm = 0, aeq_Entries = [], aeq_LeaderCommit = 0\<rparr>"

definition example_json :: raft_json where
  "example_json =
     \<lparr>rj_envelope =
        \<lparr>js_Marshal = (\<lambda>e. Inr (if en_Type e = rpcRequestVote then [0] else [1])),
         js_Unmarshal = (\<lambda>bs. Inr (if bs = [0]
           then \<lparr>en_Type = rpcRequestVote, en_RequestVote = Some example_vote, en_AppendEntries = None, en_Propose = None\<rparr>
           else \<lparr>en_Type = rpcAppendEntries, en_RequestVote = None, en_AppendEntries = Some example_beat, en_Propose = None\<rparr>))\<rparr>,
      rj_vote = flag_codec (\<lambda>x. (rvp_VoteGranted x, rvp_Term x)) (\<lambda>b t. \<lparr>rvp_Term = t, rvp_VoteGranted = b\<rparr>),
      rj_append = flag_codec (\<lambda>x. (aep_Success x, aep_Term x)) (\<lambda>b t. \<lparr>aep_Term = t, aep_Success = b\<rparr>),
      rj_propose = flag_codec (\<lambda>x. (pp_OK x, 0)) (\<lambda>b t. \<lparr>pp_OK = b, pp_LeaderID = '''', pp_Error = ''''\<rparr>)\<rparr>"

definition example_follower :: Node where
  "example_follower =
     (case raft_NewNode \<lparr>cfg_ID = ''b'', cfg_Peers = [''a''], cfg_hasTransport = True, cfg_ElectionTimeoutMin = 150, cfg_ElectionTimeoutMax = 300,
        cfg_HeartbeatInterval = 50, cfg_RPCTimeout = 200, cfg_hasApplyFunc = True\<rparr> of Inr n \<Rightarrow> n)"

theorem tcp_simulates_memory_witness:
  "\<exists>w'. tcp_RequestVote example_json (raft_network example_json 5 0 (\<lambda>_ _. (None, ''''))) (newTCPTransport [(''b'', ''host-b:7000'')])
       [''host-b:7000'' \<mapsto> \<lparr>sv_node = example_follower, sv_applied = [], sv_proposed = []\<rparr>] ''b'' example_vote =
     Some (w', Inr \<lparr>rvp_Term = 1, rvp_VoteGranted = True\<rparr>)"
proof -
  let ?t = "newTCPTransport [(''b'', ''host-b:7000'')]" and ?mt = "\<lparr>tr_nodes = [''b'' \<mapsto> 7]\<rparr>"
  let ?w = "[''host-b:7000'' \<mapsto> \<lparr>sv_node = example_follower, sv_applied = [], sv_proposed = []\<rparr>]"
  have m: "mirrors (\<lambda>_. ''host-b:7000'') ?t ?mt ?w (\<lambda>_. example_follower)"
    by (auto simp: mirrors_def newTCPTransport_def ran_def inj_on_def split: if_splits)
  have c: "carries (rj_envelope example_json) \<lparr>en_Type = rpcRequestVote, en_RequestVote = Some example_vote, en_AppendEntries = None, en_Propose = None\<rparr>"
    "carries (rj_envelope example_json) \<lparr>en_Type = rpcAppendEntries, en_RequestVote = None, en_AppendEntries = Some example_beat, en_Propose = None\<rparr>"
    using rpc_types by (simp_all add: carries_def example_json_def)
  have r: "carries (rj_vote example_json) x" "carries (rj_append example_json) y" for x y
    unfolding example_json_def raft_json.simps by (rule flag_codec_carries; simp)+
  obtain hv where v: "tr_RequestVote 0 (\<lambda>_. example_follower) ?mt ''b'' example_vote = (hv, Inr \<lparr>rvp_Term = 1, rvp_VoteGranted = True\<rparr>)"
  proof -
    have "snd (HandleRequestVote 0 example_follower example_vote) = \<lparr>rvp_Term = 1, rvp_VoteGranted = True\<rparr>" by code_simp
    then show ?thesis using that by (cases "HandleRequestVote 0 example_follower example_vote") (simp add: tr_RequestVote_def tr_lookup_def)
  qed
  have "HandleAppendEntries 5 0 example_follower example_beat \<noteq> None" by code_simp
  then obtain ha ra es where a: "tr_AppendEntries 5 0 (\<lambda>_. example_follower) ?mt ''b'' example_beat = Some (ha, ra, es)"
    by (auto simp: tr_AppendEntries_def tr_lookup_def split: option.splits)
  show ?thesis using tcp_simulates_memory [OF m c r v a] by auto
qed

end
