(* ===== verification/NodeGossip.thy ===== *)
theory NodeGossip
  imports NodeState
begin

text \<open>
  Gossip between sensor nodes (\<^verbatim>\<open>cmd/node/gossip.go\<close>). The handler of a gossip message is cut where it takes
  the lock of the state; \<open>handleGossipMessage\<close> runs the pieces in sequence, and what other goroutines do to the
  state between them is an argument. What is sent is a list of addresses and messages.
\<close>

section \<open>Definitions\<close>

definition gossipMsgType :: string where
  "gossipMsgType = ''GOSSIP''"

definition gossipMessageID :: "string \<Rightarrow> int \<Rightarrow> string" where
  "gossipMessageID nodeID timestamp =
     (let payload = nodeID @ ''-'' @ Itoa timestamp
      in EncodeToString (take 8 (Sum256 (bytes_of payload))))"

text \<open>The format \<^verbatim>\<open>GOSSIP|<message_id>|<ttl>|<base64_json_reading>\<close>.\<close>

definition gossipMessage :: "string \<Rightarrow> int \<Rightarrow> string \<Rightarrow> string" where
  "gossipMessage messageID ttl encoded =
     gossipMsgType @ ''|'' @ messageID @ ''|'' @ Itoa ttl @ ''|'' @ encoded"

text \<open>\<open>Perm n\<close> is the permutation of the numbers below \<open>n\<close> that \<^verbatim>\<open>rng.Perm\<close> draws.\<close>

definition selectGossipTargets :: "(nat \<Rightarrow> nat list) \<Rightarrow> nodeState \<Rightarrow> string \<Rightarrow> int \<Rightarrow> string list" where
  "selectGossipTargets Perm s coordinatorAddr fanout =
     (let peers = (if coordinatorAddr \<noteq> '''' then peerAddrs s @ [coordinatorAddr] else peerAddrs s);
          filtered = filter (\<lambda>peer. peer \<noteq> pi_addr (ns_self s)) peers
      in if fanout \<le> 0 \<or> filtered = [] then []
         else if int (length filtered) \<le> fanout then filtered
         else let indices = Perm (length filtered) in map (\<lambda>i. filtered ! (indices ! i)) [0..<nat fanout])"

text \<open>The messages of one broadcast or forward, after the targets are chosen.\<close>

definition gossipSends :: "(nat \<Rightarrow> nat list) \<Rightarrow> config \<Rightarrow> nodeState \<Rightarrow> string \<Rightarrow> int \<Rightarrow> string \<Rightarrow> (string \<times> string) list" where
  "gossipSends Perm cfg s messageID ttl encoded =
     (let targets = selectGossipTargets Perm s (cf_coordinatorAddr cfg) (cf_gossipFanout cfg)
      in map (\<lambda>addr. (addr, gossipMessage messageID ttl encoded)) targets)"

definition gossipPrepare :: "(Reading \<Rightarrow> string + byte list) \<Rightarrow> int \<Rightarrow> config \<Rightarrow> nodeState \<Rightarrow> Reading \<Rightarrow>
    nodeState \<times> (string + string \<times> string)" where
  "gossipPrepare Marshal now cfg s reading =
     (case EncodeReading Marshal reading of
        Inl err \<Rightarrow> (s, Inl (''encode reading: '' @ err))
      | Inr payload \<Rightarrow>
          let encoded = base64_encode payload;
              messageID = gossipMessageID (cf_nodeID cfg) (rd_Timestamp reading);
              (s, _) = shouldProcessGossip now messageID s
          in (s, Inr (messageID, encoded)))"

definition gossipBroadcast :: "(Reading \<Rightarrow> string + byte list) \<Rightarrow> (nat \<Rightarrow> nat list) \<Rightarrow> int \<Rightarrow> config \<Rightarrow> nodeState \<Rightarrow> Reading \<Rightarrow>
    nodeState \<times> (string + (string \<times> string) list)" where
  "gossipBroadcast Marshal Perm now cfg s reading =
     (case gossipPrepare Marshal now cfg s reading of
        (s, Inl err) \<Rightarrow> (s, Inl err)
      | (s, Inr (messageID, encoded)) \<Rightarrow> (s, Inr (gossipSends Perm cfg s messageID (cf_gossipTTL cfg) encoded)))"

text \<open>The checks of an arriving message; a message that fails one is dropped.\<close>

definition gossipAdmit :: "(byte list \<Rightarrow> string + Reading) \<Rightarrow> int \<Rightarrow> nodeState \<Rightarrow> string list \<Rightarrow>
    nodeState \<times> (string \<times> int \<times> Reading \<times> string) option" where
  "gossipAdmit Unmarshal now s parts =
     (if length parts < 3 then (s, None)
      else
        let messageID = parts ! 0; (s, fresh) = shouldProcessGossip now messageID s
        in if \<not> fresh then (s, None)
           else (s, case Atoi (parts ! 1) of
                      None \<Rightarrow> None
                    | Some ttl \<Rightarrow>
                        if ttl < 0 then None
                        else case base64_decode (parts ! 2) of
                               None \<Rightarrow> None
                             | Some payload \<Rightarrow>
                                 (case DecodeReading Unmarshal payload of
                                    Inl _ \<Rightarrow> None
                                  | Inr reading \<Rightarrow> Some (messageID, ttl, reading, parts ! 2))))"

definition gossipForward :: "(nat \<Rightarrow> nat list) \<Rightarrow> config \<Rightarrow> nodeState \<Rightarrow> string \<Rightarrow> int \<Rightarrow> string \<Rightarrow> (string \<times> string) list" where
  "gossipForward Perm cfg s messageID ttl encoded =
     (if ttl = 0 then [] else gossipSends Perm cfg s messageID (ttl - 1) encoded)"

text \<open>After the message identifier is recorded, other goroutines act by \<open>other 1\<close>; after the reading is stored, by \<open>other 2\<close>.\<close>

definition handleGossipMessage :: "(byte list \<Rightarrow> string + Reading) \<Rightarrow> (nat \<Rightarrow> nat list) \<Rightarrow> (nat \<Rightarrow> nodeState \<Rightarrow> nodeState) \<Rightarrow> int \<Rightarrow> nodeState \<Rightarrow> config \<Rightarrow> string list \<Rightarrow>
    nodeState \<times> (string \<times> string) list" where
  "handleGossipMessage Unmarshal Perm other now s cfg parts =
     (case gossipAdmit Unmarshal now s parts of
        (s, None) \<Rightarrow> (s, [])
      | (s, Some (messageID, ttl, reading, encoded)) \<Rightarrow>
          let s = setReading reading (other 1 s);
              s = other 2 s
          in (s, gossipForward Perm cfg s messageID ttl encoded))"

section \<open>Targets\<close>

definition is_perm :: "(nat \<Rightarrow> nat list) \<Rightarrow> bool" where
  "is_perm Perm \<longleftrightarrow> (\<forall>n. mset (Perm n) = mset [0..<n])"

lemma is_permD:
  assumes "is_perm Perm"
  shows "length (Perm n) = n" and "set (Perm n) = {0..<n}" and "distinct (Perm n)"
proof -
  have m: "mset (Perm n) = mset [0..<n]" using assms by (simp add: is_perm_def)
  show "length (Perm n) = n" using mset_eq_length [OF m] by simp
  show "set (Perm n) = {0..<n}" using mset_eq_setD [OF m] by simp
  show "distinct (Perm n)" using mset_eq_imp_distinct_iff [OF m] by simp
qed

lemma selectGossipTargets_set:
  assumes "is_perm Perm"
  shows "set (selectGossipTargets Perm s coord fanout) \<subseteq>
    (set (peerAddrs s) \<union> (if coord = '''' then {} else {coord})) - {pi_addr (ns_self s)}"
proof -
  define filtered where "filtered = filter (\<lambda>peer. peer \<noteq> pi_addr (ns_self s)) (if coord \<noteq> '''' then peerAddrs s @ [coord] else peerAddrs s)"
  have "Perm (length filtered) ! i < length filtered" if "i < length filtered" for i
    using is_permD(1,2) [OF assms, of "length filtered"] that nth_mem by fastforce
  then have "set (selectGossipTargets Perm s coord fanout) \<subseteq> set filtered"
    by (auto simp: selectGossipTargets_def Let_def filtered_def [symmetric] intro!: nth_mem)
  then show ?thesis by (auto simp: filtered_def split: if_splits)
qed

lemma selectGossipTargets_length: "int (length (selectGossipTargets Perm s coord fanout)) \<le> max 0 fanout"
  by (auto simp: selectGossipTargets_def Let_def)

end
