(* ===== verification/NodeServer.thy ===== *)
theory NodeServer
  imports NodeGossip
begin

text \<open>
  The server of a sensor node (\<^verbatim>\<open>cmd/node/server.go\<close>) and the client that joins the network through it
  (\<^verbatim>\<open>cmd/node/bootstrap.go\<close>). The parameters of the environment are collected in a record: the upper
  case of strings that are not ASCII, the JSON decoder, the random permutations, and the format of times.
\<close>

section \<open>The server\<close>

record node_env =
  ne_unicode :: "string \<Rightarrow> string"
  ne_Unmarshal :: "byte list \<Rightarrow> string + Reading"
  ne_Perm :: "nat \<Rightarrow> nat list"
  ne_RFC3339 :: "int \<Rightarrow> string"

text \<open>
  One message on a connection: the new state, the reply if there is one, and the gossip that is sent
  on. A failed reply is only logged, since \<^verbatim>\<open>break\<close> leaves no more than the \<^verbatim>\<open>switch\<close>.
\<close>

definition handleMessage :: "node_env \<Rightarrow> config \<Rightarrow> (nat \<Rightarrow> nodeState \<Rightarrow> nodeState) \<Rightarrow> int \<Rightarrow> nodeState \<Rightarrow> string \<Rightarrow>
    nodeState \<times> string list \<times> (string \<times> string) list" where
  "handleMessage env cfg other now s message =
     (let (msgType, parts) = parseMessage (ne_unicode env) message
      in if msgType = ''HELLO'' then
           (if length parts < 2 then (s, [], [])
            else let peer = \<lparr>pi_nodeID = parts ! 0, pi_addr = parts ! 1, pi_lastSeen = now\<rparr>
                 in (upsertPeer now peer s, [''ACK|HELLO''], []))
         else if msgType = ''GETPEERS'' then
           (s, [''PEERS|'' @ Join (peerAddrs s) '',''], [])
         else if msgType = ''MESSAGE'' then
           (if length parts < 2 then (s, [], [])
            else (s, [''ACK|MESSAGE|'' @ ne_RFC3339 env now], []))
         else if msgType = gossipMsgType then
           (let (s', sends) = handleGossipMessage (ne_Unmarshal env) (ne_Perm env) other now s cfg parts in (s', [], sends))
         else (s, [], []))"

text \<open>
  A connection is served until reading fails. While the server waits for the \<open>k\<close>-th frame, the other goroutines of the node may
  change the state, by \<open>other k 0\<close>, and between the locked sections of the handling of this frame by \<open>other k 1\<close> and \<open>other k 2\<close>;
  \<open>clock k\<close> is the time then.
\<close>

function handleConn :: "node_env \<Rightarrow> config \<Rightarrow> (nat \<Rightarrow> nat \<Rightarrow> nodeState \<Rightarrow> nodeState) \<Rightarrow> (nat \<Rightarrow> int) \<Rightarrow> nat \<Rightarrow> nodeState \<Rightarrow> Reader \<Rightarrow>
    nodeState \<times> string list \<times> (string \<times> string) list" where
  "handleConn env cfg other clock k s reader =
     (case readFrame reader of
        (_, Inl err) \<Rightarrow> (s, [], [])
      | (reader', Inr payload) \<Rightarrow>
          let message = TrimSpace (string_of payload); s = other k 0 s
          in if message = '''' then handleConn env cfg other clock (Suc k) s reader'
             else
               let (s, replies, sends) = handleMessage env cfg (other k) (clock k) s message;
                   (s, replies', sends') = handleConn env cfg other clock (Suc k) s reader'
               in (s, replies @ replies', sends @ sends'))"
  by pat_completeness auto
termination
  by (relation "measure (\<lambda>(env, cfg, other, clock, k, s, r). length (rd_data r))") (auto dest!: readFrame_less [OF sym])

declare handleConn.simps [simp del]

section \<open>Joining the network\<close>

text \<open>
  A connection to a peer: what the peer will send, and whether the writes fail, by their number.
\<close>

record conn =
  cn_reader :: Reader
  cn_werr :: "nat \<Rightarrow> io_error option"

datatype bootstrap_error =
    DialBootstrap string
  | SendHello io_error
  | SendGetpeers io_error
  | ReadPeers io_error
  | UnexpectedPeers string

definition helloMessage :: "config \<Rightarrow> string" where
  "helloMessage cfg = ''HELLO|'' @ cf_nodeID cfg @ ''|'' @ cf_advertiseAddr cfg"

text \<open>The result, with the messages that were sent.\<close>

definition helloAndGetPeers :: "(string \<Rightarrow> string) \<Rightarrow> config \<Rightarrow> (string \<Rightarrow> conn option) \<Rightarrow> string \<Rightarrow>
    string list \<times> (bootstrap_error + string list)" where
  "helloAndGetPeers unicode cfg dial addr =
     (case dial addr of
        None \<Rightarrow> ([], Inl (DialBootstrap addr))
      | Some c \<Rightarrow>
          (case cn_werr c 0 of
             Some err \<Rightarrow> ([], Inl (SendHello err))
           | None \<Rightarrow>
               let hello = helloMessage cfg; (reader, _) = readFrame (cn_reader c)
               in case cn_werr c 1 of
                    Some err \<Rightarrow> ([hello], Inl (SendGetpeers err))
                  | None \<Rightarrow>
                      (case readFrame reader of
                         (_, Inl err) \<Rightarrow> ([hello, ''GETPEERS''], Inl (ReadPeers err))
                       | (_, Inr response) \<Rightarrow>
                           let (msgType, parts) = parseMessage unicode (TrimSpace (string_of response))
                           in ([hello, ''GETPEERS''],
                               if msgType \<noteq> ''PEERS'' \<or> parts = [] then Inl (UnexpectedPeers (string_of response))
                               else Inr (splitAndTrim (parts ! 0))))))"

fun bootstrapPeers :: "(string \<Rightarrow> string) \<Rightarrow> config \<Rightarrow> (string \<Rightarrow> conn option) \<Rightarrow> string list \<Rightarrow> string list" where
  "bootstrapPeers unicode cfg dial [] = []"
| "bootstrapPeers unicode cfg dial (addr # addrs) =
     (if addr = '''' then bootstrapPeers unicode cfg dial addrs
      else case snd (helloAndGetPeers unicode cfg dial addr) of
             Inl _ \<Rightarrow> bootstrapPeers unicode cfg dial addrs
           | Inr peers \<Rightarrow> peers @ bootstrapPeers unicode cfg dial addrs)"

fun upsertAll :: "int \<Rightarrow> config \<Rightarrow> string list \<Rightarrow> nodeState \<Rightarrow> nodeState" where
  "upsertAll now cfg [] s = s"
| "upsertAll now cfg (addr # addrs) s =
     (if addr = '''' \<or> addr = cf_advertiseAddr cfg then upsertAll now cfg addrs s
      else upsertAll now cfg addrs (upsertPeer now \<lparr>pi_nodeID = '''', pi_addr = addr, pi_lastSeen = now\<rparr> s))"

text \<open>An error, or the message that was sent with the reply, which is \<open>None\<close> if it could not be read.\<close>

definition sendMessage :: "conn \<Rightarrow> config \<Rightarrow> io_error + string \<times> string option" where
  "sendMessage c cfg =
     (let payload = ''MESSAGE|'' @ cf_nodeID cfg @ ''|'' @ cf_message cfg
      in case cn_werr c 0 of
           Some err \<Rightarrow> Inl err
         | None \<Rightarrow>
             (case readFrame (cn_reader c) of
                (_, Inl err) \<Rightarrow> Inr (payload, None)
              | (_, Inr ack) \<Rightarrow> Inr (payload, Some (TrimSpace (string_of ack)))))"

definition sendMessageToPeer :: "(string \<Rightarrow> io_error + conn) \<Rightarrow> config \<Rightarrow> string \<Rightarrow> io_error + string \<times> string option" where
  "sendMessageToPeer dial cfg addr = (case dial addr of Inl err \<Rightarrow> Inl err | Inr c \<Rightarrow> sendMessage c cfg)"

text \<open>The new state and, for each peer that is greeted, what became of the greeting.\<close>

definition bootstrapDiscovery :: "(string \<Rightarrow> string) \<Rightarrow> config \<Rightarrow> (string \<Rightarrow> conn option) \<Rightarrow> (string \<Rightarrow> io_error + conn) \<Rightarrow> int \<Rightarrow>
    nodeState \<Rightarrow> nodeState \<times> (string \<times> (io_error + string \<times> string option)) list" where
  "bootstrapDiscovery unicode cfg dial dial' now s =
     (if cf_bootstrapAddrs cfg = [] \<and> cf_peerAddr cfg = '''' then (s, [])
      else
        let addrs = (if cf_peerAddr cfg \<noteq> '''' then cf_bootstrapAddrs cfg @ [cf_peerAddr cfg] else cf_bootstrapAddrs cfg);
            s = upsertAll now cfg (bootstrapPeers unicode cfg dial addrs) s
        in (s, map (\<lambda>peer. (peer, sendMessageToPeer dial' cfg peer)) (filter (\<lambda>peer. peer \<noteq> cf_advertiseAddr cfg) (peerAddrs s))))"

section \<open>The exchange between client and server\<close>

definition frames :: "string list \<Rightarrow> byte list" where
  "frames ms = concat (map (\<lambda>m. writeFrame (bytes_of m)) ms)"

lemma frames_simps [simp]: "frames [] = []" "frames (m # ms) = writeFrame (bytes_of m) @ frames ms"
  by (simp_all add: frames_def)

lemma handleConn_frame:
  assumes "length m < 2 ^ 32" and "TrimSpace m = m" and "m \<noteq> ''''"
    and "handleMessage env cfg (other k) (clock k) (other k 0 s) m = (s1, replies, sends)"
    and "handleConn env cfg other clock (Suc k) s1 \<lparr>rd_data = frames ms, rd_end = e\<rparr> = (s2, replies', sends')"
  shows "handleConn env cfg other clock k s \<lparr>rd_data = frames (m # ms), rd_end = e\<rparr> = (s2, replies @ replies', sends @ sends')"
  using assms by (subst handleConn.simps) (simp add: readFrame_writeFrame)

lemma handleConn_end: "handleConn env cfg other clock k s \<lparr>rd_data = frames [], rd_end = e\<rparr> = (s, [], [])"
  by (subst handleConn.simps) (simp add: readFrame_def ReadFull_def)

text \<open>Addresses as the programs use them: printable, without the separators of messages and lists.\<close>

definition clean_addr :: "string \<Rightarrow> bool" where
  "clean_addr a \<longleftrightarrow> a \<noteq> [] \<and> (\<forall>c \<in> set a. graphic c \<and> c \<noteq> CHR '','' \<and> c \<noteq> CHR ''|'')"

lemma clean_addrD:
  assumes "clean_addr a"
  shows "a \<noteq> []" and "TrimSpace a = a" and "CHR '','' \<notin> set a" and "CHR ''|'' \<notin> set a" and "graphic (last a)"
proof -
  show ne: "a \<noteq> []" and "CHR '','' \<notin> set a" and "CHR ''|'' \<notin> set a" using assms unfolding clean_addr_def by blast+
  have g: "graphic c" if "c \<in> set a" for c using assms that unfolding clean_addr_def by blast
  show "graphic (last a)" by (rule g [OF last_in_set [OF ne]])
  then show "TrimSpace a = a" using g [OF hd_in_set [OF ne]] by (intro TrimSpace_graphic) blast
qed

lemma shouting_types: "shouting ''HELLO''" "shouting ''GETPEERS''" "shouting ''PEERS''" "shouting ''GOSSIP''"
  by code_simp+

lemma helloMessage_Join: "helloMessage cfg = Join [''HELLO'', cf_nodeID cfg, cf_advertiseAddr cfg] ''|''"
  by (simp add: helloMessage_def)

lemma handle_hello:
  assumes "CHR ''|'' \<notin> set (cf_nodeID cfg)" and "clean_addr (cf_advertiseAddr cfg)"
  shows "handleMessage env scfg other now s (helloMessage cfg) =
      (upsertPeer now \<lparr>pi_nodeID = cf_nodeID cfg, pi_addr = cf_advertiseAddr cfg, pi_lastSeen = now\<rparr> s, [''ACK|HELLO''], [])"
    and "TrimSpace (helloMessage cfg) = helloMessage cfg" and "helloMessage cfg \<noteq> ''''"
proof -
  have "parseMessage (ne_unicode env) (helloMessage cfg) = (''HELLO'', [cf_nodeID cfg, cf_advertiseAddr cfg])"
    unfolding helloMessage_Join using assms clean_addrD(4) by (intro parseMessage_Join shouting_types) auto
  then show "handleMessage env scfg other now s (helloMessage cfg) =
      (upsertPeer now \<lparr>pi_nodeID = cf_nodeID cfg, pi_addr = cf_advertiseAddr cfg, pi_lastSeen = now\<rparr> s, [''ACK|HELLO''], [])"
    by (simp add: handleMessage_def)
  show "TrimSpace (helloMessage cfg) = helloMessage cfg"
    using clean_addrD(1,5) [OF assms(2)] by (intro TrimSpace_graphic) (simp add: helloMessage_def graphic_def)
  show "helloMessage cfg \<noteq> ''''" by (simp add: helloMessage_def)
qed

lemma handle_getpeers:
  "handleMessage env scfg other now s ''GETPEERS'' = (s, [''PEERS|'' @ Join (peerAddrs s) '',''], [])"
  "TrimSpace ''GETPEERS'' = ''GETPEERS''"
proof -
  have "parseMessage (ne_unicode env) ''GETPEERS'' = (''GETPEERS'', [])"
    using parseMessage_Join [of "''GETPEERS''" "[]"] shouting_types by simp
  then show "handleMessage env scfg other now s ''GETPEERS'' = (s, [''PEERS|'' @ Join (peerAddrs s) '',''], [])"
    by (simp add: handleMessage_def)
  show "TrimSpace ''GETPEERS'' = ''GETPEERS''" by (rule TrimSpace_shouting) (rule shouting_types)
qed

lemma Join_last: "xs \<noteq> [] \<Longrightarrow> last xs \<noteq> [] \<Longrightarrow> Join xs sep \<noteq> [] \<and> last (Join xs sep) = last (last xs)"
  by (induction xs sep rule: Join.induct) auto

lemma set_Join: "set (Join xs sep) \<subseteq> (\<Union>x \<in> set xs. set x) \<union> set sep"
  by (induction xs sep rule: Join.induct) auto

lemma parse_peers:
  assumes "as \<noteq> []" and "\<And>a. a \<in> set as \<Longrightarrow> clean_addr a"
  shows "parseMessage unicode (TrimSpace (''PEERS|'' @ Join as '','')) = (''PEERS'', [Join as '',''])"
    and "splitAndTrim (Join as '','') = as"
proof -
  have bar: "CHR ''|'' \<notin> set (Join as '','')" using set_Join [of as "'',''"] assms(2) clean_addrD(4) by fastforce
  have l: "clean_addr (last as)" using assms by simp
  then have "TrimSpace (''PEERS|'' @ Join as '','') = ''PEERS|'' @ Join as '',''"
    using Join_last [OF assms(1) clean_addrD(1) [OF l], of "'',''"] clean_addrD(5) [OF l]
    by (intro TrimSpace_graphic) (simp add: graphic_def)
  then show "parseMessage unicode (TrimSpace (''PEERS|'' @ Join as '','')) = (''PEERS'', [Join as '',''])"
    using parseMessage_Join [of "''PEERS''" "[Join as '','']" unicode] shouting_types bar by simp
  show "splitAndTrim (Join as '','') = as"
    using assms clean_addrD by (intro splitAndTrim_Join) blast+
qed

lemma upsertAll_addrs:
  "set (peerAddrs (upsertAll now cfg as s)) = set (peerAddrs s) \<union> (set as - {'''', cf_advertiseAddr cfg})"
  by (induction as arbitrary: s) (auto simp: upsertPeer_addrs)

text \<open>The server's side of the exchange.\<close>

lemma serve_hello:
  fixes cfg clock s other
  defines "u \<equiv> other 1 0 (upsertPeer (clock 0) \<lparr>pi_nodeID = cf_nodeID cfg, pi_addr = cf_advertiseAddr cfg, pi_lastSeen = clock 0\<rparr> (other 0 0 s))"
  assumes "clean_addr (cf_advertiseAddr cfg)" and "CHR ''|'' \<notin> set (cf_nodeID cfg)" and "length (helloMessage cfg) < 2 ^ 32"
  shows "handleConn env scfg other clock 0 s \<lparr>rd_data = frames [helloMessage cfg, ''GETPEERS''], rd_end = EOF\<rparr> =
    (u, [''ACK|HELLO'', ''PEERS|'' @ Join (peerAddrs u) '',''], [])"
proof -
  let ?v = "upsertPeer (clock 0) \<lparr>pi_nodeID = cf_nodeID cfg, pi_addr = cf_advertiseAddr cfg, pi_lastSeen = clock 0\<rparr> (other 0 0 s)"
  have "handleConn env scfg other clock (Suc 0) ?v \<lparr>rd_data = frames [''GETPEERS''], rd_end = EOF\<rparr> =
      (u, [''PEERS|'' @ Join (peerAddrs u) '',''] @ [], [] @ [])"
    by (rule handleConn_frame [OF _ _ _ _ handleConn_end]) (simp_all add: handle_getpeers u_def)
  from handleConn_frame [OF assms(4) handle_hello(2,3) [OF assms(3,2)] _ this] show ?thesis
    using handle_hello(1) [OF assms(3,2)] by simp
qed

text \<open>The client's side.\<close>

lemma hello_result:
  assumes "as \<noteq> []" and "\<And>a. a \<in> set as \<Longrightarrow> clean_addr a" and "length (Join as '','') < 2 ^ 32 - 6"
    and "dial addr = Some \<lparr>cn_reader = \<lparr>rd_data = frames [''ACK|HELLO'', ''PEERS|'' @ Join as '',''], rd_end = e\<rparr>, cn_werr = (\<lambda>_. None)\<rparr>"
  shows "helloAndGetPeers unicode cfg dial addr = ([helloMessage cfg, ''GETPEERS''], Inr as)"
  using assms(3,4) parse_peers [OF assms(1,2)] 
  by (simp add: helloAndGetPeers_def Let_def readFrame_writeFrame readFrame_writeFrame [where rest = "[]", simplified])

text \<open>What the client sends does not depend on the answers.\<close>

lemma hello_sends:
  assumes "dial addr = Some \<lparr>cn_reader = reader, cn_werr = (\<lambda>_. None)\<rparr>"
  shows "fst (helloAndGetPeers unicode cfg dial addr) = [helloMessage cfg, ''GETPEERS'']"
  using assms by (simp add: helloAndGetPeers_def Let_def split: prod.splits sum.splits)


definition example_client :: config where
  "example_client =
     \<lparr>cf_nodeID = ''n2'', cf_listenAddr = ''c:1'', cf_metricsAddr = '''', cf_advertiseAddr = ''c:1'', cf_peerAddr = '''',
      cf_bootstrapAddrs = [''s:1''], cf_message = ''hello'', cf_retryInterval = 0, cf_sensorInterval = 0,
      cf_coordinatorAddr = '''', cf_gossipFanout = 3, cf_gossipTTL = 3\<rparr>"

definition example_server :: nodeState where
  "example_server = initialState 0 (example_client\<lparr>cf_nodeID := ''n1'', cf_advertiseAddr := ''s:1''\<rparr>)"

definition example_env :: node_env where
  "example_env = \<lparr>ne_unicode = id, ne_Unmarshal = (\<lambda>_. Inl ''no reading''), ne_Perm = (\<lambda>n. [0..<n]), ne_RFC3339 = Itoa\<rparr>"


end
