(* ===== verification/GossipNet.thy ===== *)
theory GossipNet
  imports NodeServer
begin

text \<open>
  A network of sensor nodes that gossip (\<^verbatim>\<open>cmd/node/main.go\<close>, \<^verbatim>\<open>server.go\<close>, \<^verbatim>\<open>gossip.go\<close>). A state holds the
  state of each node, the goroutines that are between two locked sections, and the messages that
  were sent; an action is one locked section, or the arrival of a message. Messages may be lost, delayed
  and repeated. Three history variables record the readings that were taken, the broadcasts that were
  begun, and the messages that were sent.
\<close>

section \<open>The network\<close>

datatype job =
    Prepare Reading
  | Announce string string
  | StoreReading string int Reading string
  | Forward string int string

record GossipNet =
  gn_cfg :: "string \<Rightarrow> config"
  gn_state :: "string \<Rightarrow> nodeState"
  gn_jobs :: "(string \<times> job) list"
  gn_wire :: "(string \<times> string) set"
  gn_taken :: "(string \<times> Reading) set"
  gn_begun :: "(string \<times> string) list"
  gn_sent :: "(string \<times> string) list"

datatype gossip_action =
    Sense string Reading
  | RunJob nat int "nat list"
  | Receive string string int
  | Hello string peerInfo int

text \<open>The sensor loop of \<^verbatim>\<open>main\<close>: the new reading is stored and then broadcast.\<close>

definition gexec_sense :: "string \<Rightarrow> Reading \<Rightarrow> GossipNet \<Rightarrow> GossipNet option" where
  "gexec_sense i reading s =
     (if rd_NodeID reading = cf_nodeID (gn_cfg s i) then
        Some (s\<lparr>gn_state := (gn_state s)(i := setReading reading (gn_state s i)),
                gn_jobs := gn_jobs s @ [(i, Prepare reading)], gn_taken := insert (i, reading) (gn_taken s)\<rparr>)
      else None)"

definition gn_send :: "string \<Rightarrow> string \<Rightarrow> (string \<times> string) list \<Rightarrow> GossipNet \<Rightarrow> GossipNet" where
  "gn_send i messageID sends s =
     s\<lparr>gn_wire := gn_wire s \<union> set sends, gn_sent := gn_sent s @ replicate (length sends) (i, messageID)\<rparr>"

text \<open>The random permutation is the identity, rearranged by the given choices.\<close>

definition choose_perm :: "nat list \<Rightarrow> nat \<Rightarrow> nat list" where
  "choose_perm ks n = shuffle ks [0..<n]"

definition gexec_job :: "(Reading \<Rightarrow> string + byte list) \<Rightarrow> nat \<Rightarrow> int \<Rightarrow> nat list \<Rightarrow> GossipNet \<Rightarrow> GossipNet option" where
  "gexec_job Marshal k now ks s =
     (if k < length (gn_jobs s) then
        let (i, j) = gn_jobs s ! k; cfg = gn_cfg s i; n = gn_state s i;
            rest = take k (gn_jobs s) @ drop (Suc k) (gn_jobs s); s = s\<lparr>gn_jobs := rest\<rparr>
        in Some (case j of
             Prepare reading \<Rightarrow>
               (case gossipPrepare Marshal now cfg n reading of
                  (n', Inl _) \<Rightarrow> s\<lparr>gn_state := (gn_state s)(i := n')\<rparr>
                | (n', Inr (messageID, encoded)) \<Rightarrow>
                    s\<lparr>gn_state := (gn_state s)(i := n'), gn_jobs := rest @ [(i, Announce messageID encoded)],
                      gn_begun := gn_begun s @ [(i, messageID)]\<rparr>)
           | Announce messageID encoded \<Rightarrow>
               gn_send i messageID (gossipSends (choose_perm ks) cfg n messageID (cf_gossipTTL cfg) encoded) s
           | StoreReading messageID ttl reading encoded \<Rightarrow>
               s\<lparr>gn_state := (gn_state s)(i := setReading reading n), gn_jobs := rest @ [(i, Forward messageID ttl encoded)]\<rparr>
           | Forward messageID ttl encoded \<Rightarrow>
               gn_send i messageID (gossipForward (choose_perm ks) cfg n messageID ttl encoded) s)
      else None)"

definition gexec_receive :: "(string \<Rightarrow> string) \<Rightarrow> (byte list \<Rightarrow> string + Reading) \<Rightarrow> string \<Rightarrow> string \<Rightarrow> int \<Rightarrow> GossipNet \<Rightarrow> GossipNet option" where
  "gexec_receive unicode Unmarshal i message now s =
     (if (i, message) \<in> gn_wire s then
        let (msgType, parts) = parseMessage unicode (TrimSpace message)
        in if msgType \<noteq> gossipMsgType then Some s
           else case gossipAdmit Unmarshal now (gn_state s i) parts of
                  (n', None) \<Rightarrow> Some (s\<lparr>gn_state := (gn_state s)(i := n')\<rparr>)
                | (n', Some (messageID, ttl, reading, encoded)) \<Rightarrow>
                    Some (s\<lparr>gn_state := (gn_state s)(i := n'),
                            gn_jobs := gn_jobs s @ [(i, StoreReading messageID ttl reading encoded)]\<rparr>)
      else None)"

definition gexec_hello :: "string \<Rightarrow> peerInfo \<Rightarrow> int \<Rightarrow> GossipNet \<Rightarrow> GossipNet option" where
  "gexec_hello i peer now s = Some (s\<lparr>gn_state := (gn_state s)(i := upsertPeer now peer (gn_state s i))\<rparr>)"

fun gexec :: "(string \<Rightarrow> string) \<Rightarrow> (Reading \<Rightarrow> string + byte list) \<Rightarrow> (byte list \<Rightarrow> string + Reading) \<Rightarrow>
    gossip_action \<Rightarrow> GossipNet \<Rightarrow> GossipNet option" where
  "gexec unicode Marshal Unmarshal (Sense i reading) s = gexec_sense i reading s"
| "gexec unicode Marshal Unmarshal (RunJob k now ks) s = gexec_job Marshal k now ks s"
| "gexec unicode Marshal Unmarshal (Receive i message now) s = gexec_receive unicode Unmarshal i message now s"
| "gexec unicode Marshal Unmarshal (Hello i peer now) s = gexec_hello i peer now s"

definition gn_initial :: "(string \<Rightarrow> config) \<Rightarrow> int \<Rightarrow> GossipNet" where
  "gn_initial cfg now =
     \<lparr>gn_cfg = cfg, gn_state = (\<lambda>i. initialState now (cfg i)), gn_jobs = [], gn_wire = {}, gn_taken = {}, gn_begun = [],
      gn_sent = []\<rparr>"

inductive gn_reachable :: "(string \<Rightarrow> string) \<Rightarrow> (Reading \<Rightarrow> string + byte list) \<Rightarrow> (byte list \<Rightarrow> string + Reading) \<Rightarrow> GossipNet \<Rightarrow> bool"
  for unicode Marshal Unmarshal where
  gn_start: "gn_reachable unicode Marshal Unmarshal (gn_initial cfg now)"
| gn_step: "gn_reachable unicode Marshal Unmarshal s \<Longrightarrow> gexec unicode Marshal Unmarshal a s = Some s' \<Longrightarrow>
    gn_reachable unicode Marshal Unmarshal s'"

section \<open>Load\<close>

text \<open>The jobs that will send at most \<open>fanout\<close> messages with an identifier.\<close>

definition sends_later :: "string \<Rightarrow> string \<Rightarrow> string \<times> job \<Rightarrow> bool" where
  "sends_later i m x \<longleftrightarrow> fst x = i \<and>
     (case snd x of Prepare _ \<Rightarrow> False | Announce m' _ \<Rightarrow> m' = m | StoreReading m' _ _ _ \<Rightarrow> m' = m | Forward m' _ _ \<Rightarrow> m' = m)"

definition fan :: "GossipNet \<Rightarrow> string \<Rightarrow> nat" where
  "fan s i = nat (cf_gossipFanout (gn_cfg s i))"

definition admitted :: "GossipNet \<Rightarrow> string \<Rightarrow> string \<Rightarrow> nat" where
  "admitted s i m = (if ns_seenGossip (gn_state s i) m = None then 0 else 1)"

definition load_inv :: "GossipNet \<Rightarrow> bool" where
  "load_inv s \<longleftrightarrow> (\<forall>i m. count_list (gn_sent s) (i, m) + fan s i * length (filter (sends_later i m) (gn_jobs s)) \<le>
     fan s i * (count_list (gn_begun s) (i, m) + admitted s i m))"

lemma count_list_replicate: "count_list (replicate n y) x = (if x = y then n else 0)"
  by (induction n) auto

lemma filter_remove_nth:
  "k < length xs \<Longrightarrow> length (filter P xs) = length (filter P (take k xs @ drop (Suc k) xs)) + (if P (xs ! k) then 1 else 0)"
  by (subst (1) id_take_nth_drop [of k xs]) simp_all

lemma gossipSends_length: "length (gossipSends Perm cfg n m ttl enc) \<le> nat (cf_gossipFanout cfg)"
  using selectGossipTargets_length [of Perm n "cf_coordinatorAddr cfg" "cf_gossipFanout cfg"]
  by (simp add: gossipSends_def Let_def)

lemma gossipForward_length: "length (gossipForward Perm cfg n m ttl enc) \<le> nat (cf_gossipFanout cfg)"
  using gossipSends_length by (simp add: gossipForward_def)

lemma seen_simps [simp]: "ns_seenGossip (setReading r n) = ns_seenGossip n" "ns_seenGossip (upsertPeer now p n) = ns_seenGossip n"
  by (simp_all add: setReading_def upsertPeer_def)

lemma seen_shouldProcess:
  "ns_seenGossip (fst (shouldProcessGossip now m n)) m' = None \<longleftrightarrow> ns_seenGossip n m' = None \<and> m' \<noteq> m"
  "snd (shouldProcessGossip now m n) \<longleftrightarrow> ns_seenGossip n m = None"
  by (auto simp: shouldProcessGossip_def split: option.splits)

lemma gossipPrepare_cases:
  assumes "gossipPrepare Marshal now cfg n r = (n', res)"
  obtains err where "res = Inl err" and "n' = n"
  | m payload where "res = Inr (m, base64_encode payload)" and "Marshal r = Inr payload" and "n' = fst (shouldProcessGossip now m n)"
    and "m = gossipMessageID (cf_nodeID cfg) (rd_Timestamp r)"
  using assms by (cases "Marshal r") (auto simp: gossipPrepare_def EncodeReading_def Let_def case_prod_beta)

lemma gossipAdmit_cases:
  assumes "gossipAdmit Unmarshal now n parts = (n', res)"
  obtains "res = None" and "n' = n"
  | m where "res = None" and "n' = fst (shouldProcessGossip now m n)"
  | m ttl r payload where "res = Some (m, ttl, r, parts ! 2)" and "n' = fst (shouldProcessGossip now m n)" and "ns_seenGossip n m = None"
    and "m = parts ! 0" and "Atoi (parts ! 1) = Some ttl" and "0 \<le> ttl" and "base64_decode (parts ! 2) = Some payload"
    and "Unmarshal payload = Inr r"
proof -
  obtain n1 fresh where sp: "shouldProcessGossip now (parts ! 0) n = (n1, fresh)" by fastforce
  then have n1: "n1 = fst (shouldProcessGossip now (parts ! 0) n)" and f: "fresh \<longleftrightarrow> ns_seenGossip n (parts ! 0) = None"
    using seen_shouldProcess(2) [of now "parts ! 0" n] by simp_all
  consider "res = None" "n' = n" | "res = None" "n' = n1"
    | ttl r payload where "res = Some (parts ! 0, ttl, r, parts ! 2)" "n' = n1" "fresh" "Atoi (parts ! 1) = Some ttl" "0 \<le> ttl"
      "base64_decode (parts ! 2) = Some payload" "Unmarshal payload = Inr r"
    using assms unfolding gossipAdmit_def Let_def sp prod.case
    by (auto simp: DecodeReading_def split: if_splits option.splits sum.splits)
  then show ?thesis using that n1 f by cases blast+
qed

text \<open>One locked section changes the counts of one node and one identifier at most.\<close>

lemma load_inv_step:
  assumes inv: "load_inv s" and cfg: "gn_cfg s' = gn_cfg s"
    and le: "\<And>i m. \<exists>a b c d. count_list (gn_sent s') (i, m) = count_list (gn_sent s) (i, m) + a \<and>
      length (filter (sends_later i m) (gn_jobs s')) + b = length (filter (sends_later i m) (gn_jobs s)) + c \<and>
      count_list (gn_begun s') (i, m) + admitted s' i m \<ge> count_list (gn_begun s) (i, m) + admitted s i m + d \<and>
      a + fan s i * c \<le> fan s i * (b + d)"
  shows "load_inv s'"
  unfolding load_inv_def
proof (intro allI)
  fix i m
  obtain a b c d where le: "count_list (gn_sent s') (i, m) = count_list (gn_sent s) (i, m) + a"
    "length (filter (sends_later i m) (gn_jobs s')) + b = length (filter (sends_later i m) (gn_jobs s)) + c"
    "count_list (gn_begun s') (i, m) + admitted s' i m \<ge> count_list (gn_begun s) (i, m) + admitted s i m + d"
    "a + fan s i * c \<le> fan s i * (b + d)" using le by blast
  let ?F = "fan s i" and ?J = "length (filter (sends_later i m) (gn_jobs s))" and ?J' = "length (filter (sends_later i m) (gn_jobs s'))"
  have fan: "fan s' i = ?F" by (simp add: fan_def cfg)
  have "?F * ?J' + ?F * b = ?F * ?J + ?F * c" using le(2) by (metis distrib_left)
  moreover have "count_list (gn_sent s) (i, m) + ?F * ?J \<le> ?F * (count_list (gn_begun s) (i, m) + admitted s i m)"
    using inv by (simp add: load_inv_def)
  moreover have "?F * (count_list (gn_begun s) (i, m) + admitted s i m) + ?F * d \<le> ?F * (count_list (gn_begun s') (i, m) + admitted s' i m)"
    using mult_le_mono2 [OF le(3), of ?F] by (simp add: distrib_left)
  moreover have "a + ?F * c \<le> ?F * b + ?F * d" using le(4) by (simp add: distrib_left)
  ultimately show "count_list (gn_sent s') (i, m) + fan s' i * ?J' \<le> fan s' i * (count_list (gn_begun s') (i, m) + admitted s' i m)"
    unfolding fan le(1) by linarith
qed

lemma load_inv_still:
  assumes "load_inv s" and "gn_cfg s' = gn_cfg s" and "gn_sent s' = gn_sent s" and "gn_begun s' = gn_begun s"
    and "\<And>i m. length (filter (sends_later i m) (gn_jobs s')) = length (filter (sends_later i m) (gn_jobs s))"
    and "\<And>i m. ns_seenGossip (gn_state s' i) m = None \<Longrightarrow> ns_seenGossip (gn_state s i) m = None"
  shows "load_inv s'"
proof (rule load_inv_step [OF assms(1,2)])
  fix i m
  have "admitted s i m \<le> admitted s' i m" using assms(6) [of i m] by (simp add: admitted_def)
  then show "\<exists>a b c d. count_list (gn_sent s') (i, m) = count_list (gn_sent s) (i, m) + a \<and>
      length (filter (sends_later i m) (gn_jobs s')) + b = length (filter (sends_later i m) (gn_jobs s)) + c \<and>
      count_list (gn_begun s') (i, m) + admitted s' i m \<ge> count_list (gn_begun s) (i, m) + admitted s i m + d \<and>
      a + fan s i * c \<le> fan s i * (b + d)"
    using assms(3-5) by (intro exI [of _ 0]) simp
qed

lemma load_inv_receive:
  assumes inv: "load_inv s" and run: "gexec_receive unicode Unmarshal j message now s = Some s'"
  shows "load_inv s'"
proof -
  obtain ty parts where pm: "parseMessage unicode (TrimSpace message) = (ty, parts)" by fastforce
  show ?thesis
  proof (cases "ty = gossipMsgType")
    case False
    then show ?thesis using run pm inv by (simp add: gexec_receive_def split: if_splits)
  next
    case True
    obtain n' res where ga: "gossipAdmit Unmarshal now (gn_state s j) parts = (n', res)" by fastforce
    have mono: "ns_seenGossip n' m = None \<Longrightarrow> ns_seenGossip (gn_state s j) m = None" for m
      using ga by (cases rule: gossipAdmit_cases) (auto simp: seen_shouldProcess)
    show ?thesis
    proof (cases res)
      case None
      then have "s' = s\<lparr>gn_state := (gn_state s)(j := n')\<rparr>"
        using run pm ga True by (simp add: gexec_receive_def split: if_splits)
      then show ?thesis using mono by (intro load_inv_still [OF inv]) (auto split: if_splits)
    next
      case (Some x)
      obtain m ttl r where x: "x = (m, ttl, r, parts ! 2)" and new: "ns_seenGossip (gn_state s j) m = None"
        and n': "n' = fst (shouldProcessGossip now m (gn_state s j))"
        using ga Some by (auto elim: gossipAdmit_cases)
      have s': "s' = s\<lparr>gn_state := (gn_state s)(j := n'), gn_jobs := gn_jobs s @ [(j, StoreReading m ttl r (parts ! 2))]\<rparr>"
        using run pm ga True Some x by (simp add: gexec_receive_def split: if_splits)
      show ?thesis
      proof (rule load_inv_step [OF inv])
        fix i m'
        have "admitted s i m' + (if (i, m') = (j, m) then 1 else 0) \<le> admitted s' i m'"
          using new unfolding s' n' by (auto simp: admitted_def seen_shouldProcess simp del: not_None_eq)
        then show "\<exists>a b c d. count_list (gn_sent s') (i, m') = count_list (gn_sent s) (i, m') + a \<and>
            length (filter (sends_later i m') (gn_jobs s')) + b = length (filter (sends_later i m') (gn_jobs s)) + c \<and>
            count_list (gn_begun s') (i, m') + admitted s' i m' \<ge> count_list (gn_begun s) (i, m') + admitted s i m' + d \<and>
            a + fan s i * c \<le> fan s i * (b + d)"
          by (intro exI [of _ 0] exI [of _ "if (i, m') = (j, m) then 1 else 0 :: nat"])
            (auto simp: s' sends_later_def split: if_splits)
      qed (simp add: s')
    qed
  qed
qed

lemma load_inv_send:
  assumes inv: "load_inv s" and k: "k < length (gn_jobs s)" and job: "gn_jobs s ! k = (j, x)" "sends_later j m (j, x)"
    and len: "length sends \<le> nat (cf_gossipFanout (gn_cfg s j))"
  shows "load_inv (gn_send j m sends (s\<lparr>gn_jobs := take k (gn_jobs s) @ drop (Suc k) (gn_jobs s)\<rparr>))"
    (is "load_inv ?s")
proof (rule load_inv_step [OF inv])
  fix i m'
  have "sends_later i m' (j, x) \<longleftrightarrow> (i, m') = (j, m)" using job(2) by (auto simp: sends_later_def split: job.splits)
  then have 1: "length (filter (sends_later i m') (gn_jobs ?s)) + (if (i, m') = (j, m) then 1 else 0) = length (filter (sends_later i m') (gn_jobs s))"
    using filter_remove_nth [OF k, of "sends_later i m'"] job(1) by (simp add: gn_send_def)
  show "\<exists>a b c d. count_list (gn_sent ?s) (i, m') = count_list (gn_sent s) (i, m') + a \<and>
      length (filter (sends_later i m') (gn_jobs ?s)) + b = length (filter (sends_later i m') (gn_jobs s)) + c \<and>
      count_list (gn_begun ?s) (i, m') + admitted ?s i m' \<ge> count_list (gn_begun s) (i, m') + admitted s i m' + d \<and>
      a + fan s i * c \<le> fan s i * (b + d)"
  proof (cases "(i, m') = (j, m)")
    case True
    then have "length sends \<le> fan s i" using len by (simp add: fan_def)
    then show ?thesis
      using 1 True by (intro exI [of _ "length sends"] exI [of _ 1] exI [of _ 0]) (simp add: gn_send_def count_list_replicate admitted_def)
  next
    case False
    then show ?thesis
      using 1 by (intro exI [of _ 0]) (auto simp: gn_send_def count_list_replicate admitted_def)
  qed
qed (simp add: gn_send_def)

lemma load_inv_job:
  assumes inv: "load_inv s" and run: "gexec_job Marshal k now ks s = Some s'"
  shows "load_inv s'"
proof -
  obtain j x where job: "gn_jobs s ! k = (j, x)" by fastforce
  let ?rest = "take k (gn_jobs s) @ drop (Suc k) (gn_jobs s)"
  have k: "k < length (gn_jobs s)" using run by (simp add: gexec_job_def split: if_splits)
  show ?thesis
  proof (cases x)
    case (Announce m enc)
    then have "s' = gn_send j m (gossipSends (choose_perm ks) (gn_cfg s j) (gn_state s j) m (cf_gossipTTL (gn_cfg s j)) enc) (s\<lparr>gn_jobs := ?rest\<rparr>)"
      using run k job by (simp add: gexec_job_def Let_def)
    then show ?thesis using load_inv_send [OF inv k job _ gossipSends_length] Announce by (simp add: sends_later_def)
  next
    case (Forward m ttl enc)
    then have "s' = gn_send j m (gossipForward (choose_perm ks) (gn_cfg s j) (gn_state s j) m ttl enc) (s\<lparr>gn_jobs := ?rest\<rparr>)"
      using run k job by (simp add: gexec_job_def Let_def)
    then show ?thesis using load_inv_send [OF inv k job _ gossipForward_length] Forward by (simp add: sends_later_def)
  next
    case (StoreReading m ttl r enc)
    then have s': "s' = s\<lparr>gn_state := (gn_state s)(j := setReading r (gn_state s j)), gn_jobs := ?rest @ [(j, Forward m ttl enc)]\<rparr>"
      using run k job by (simp add: gexec_job_def Let_def)
    have "length (filter (sends_later i m') (gn_jobs s')) = length (filter (sends_later i m') (gn_jobs s))" for i m'
      using filter_remove_nth [OF k, of "sends_later i m'"] job StoreReading by (simp add: s' sends_later_def)
    then show ?thesis by (intro load_inv_still [OF inv]) (auto simp: s' split: if_splits)
  next
    case (Prepare r)
    obtain n' res where gp: "gossipPrepare Marshal now (gn_cfg s j) (gn_state s j) r = (n', res)" by fastforce
    have rest: "length (filter (sends_later i m') ?rest) = length (filter (sends_later i m') (gn_jobs s))" for i m'
      using filter_remove_nth [OF k, of "sends_later i m'"] job Prepare by (simp add: sends_later_def)
    have mono: "ns_seenGossip n' m = None \<Longrightarrow> ns_seenGossip (gn_state s j) m = None" for m
      using gp by (cases rule: gossipPrepare_cases) (auto simp: seen_shouldProcess)
    show ?thesis
    proof (cases res)
      case (Inl err)
      then have "s' = s\<lparr>gn_jobs := ?rest, gn_state := (gn_state s)(j := n')\<rparr>"
        using run k job Prepare gp by (simp add: gexec_job_def Let_def)
      then show ?thesis using mono rest by (intro load_inv_still [OF inv]) (auto split: if_splits)
    next
      case (Inr me)
      obtain m enc where me: "me = (m, enc)" by fastforce
      have s': "s' = s\<lparr>gn_state := (gn_state s)(j := n'), gn_jobs := ?rest @ [(j, Announce m enc)], gn_begun := gn_begun s @ [(j, m)]\<rparr>"
        using run k job Prepare gp Inr me by (simp add: gexec_job_def Let_def)
      show ?thesis
      proof (rule load_inv_step [OF inv])
        fix i m'
        have "admitted s i m' \<le> admitted s' i m'" using mono [of m'] by (cases "ns_seenGossip n' m'") (auto simp: s' admitted_def)
        then show "\<exists>a b c d. count_list (gn_sent s') (i, m') = count_list (gn_sent s) (i, m') + a \<and>
            length (filter (sends_later i m') (gn_jobs s')) + b = length (filter (sends_later i m') (gn_jobs s)) + c \<and>
            count_list (gn_begun s') (i, m') + admitted s' i m' \<ge> count_list (gn_begun s) (i, m') + admitted s i m' + d \<and>
            a + fan s i * c \<le> fan s i * (b + d)"
          using rest [of i m']
          by (intro exI [of _ 0] exI [of _ "if (i, m') = (j, m) then 1 else 0 :: nat"]) (auto simp: s' sends_later_def)
      qed (simp add: s')
    qed
  qed
qed

lemma load_inv_gexec:
  assumes "load_inv s" and "gexec unicode Marshal Unmarshal a s = Some s'"
  shows "load_inv s'"
proof (cases a)
  case (Sense i r)
  then have "s' = s\<lparr>gn_state := (gn_state s)(i := setReading r (gn_state s i)), gn_jobs := gn_jobs s @ [(i, Prepare r)],
      gn_taken := insert (i, r) (gn_taken s)\<rparr>"
    using assms(2) by (auto simp: gexec_sense_def split: if_splits)
  then show ?thesis by (intro load_inv_still [OF assms(1)]) (auto simp: sends_later_def split: if_splits)
next
  case (Hello i p now)
  then have "s' = s\<lparr>gn_state := (gn_state s)(i := upsertPeer now p (gn_state s i))\<rparr>"
    using assms(2) by (simp add: gexec_hello_def)
  then show ?thesis by (intro load_inv_still [OF assms(1)]) (auto split: if_splits)
next
  case (RunJob k now ks)
  then show ?thesis using assms load_inv_job by simp
next
  case (Receive i message now)
  then show ?thesis using assms load_inv_receive by simp
qed

lemma load_inv_reachable: "gn_reachable unicode Marshal Unmarshal s \<Longrightarrow> load_inv s"
proof (induction rule: gn_reachable.induct)
  case (gn_start cfg now)
  show ?case by (simp add: load_inv_def gn_initial_def)
qed (rule load_inv_gexec)

text \<open>
  C6: gossip does not flood the network. In every execution a node sends at most \<^verbatim>\<open>gossipFanout\<close> messages with an
  identifier for each time that it broadcasts a reading under this identifier, and at most \<^verbatim>\<open>gossipFanout\<close>
  more for all the copies of such messages that it receives, however many they are and whatever their
  hop limits.
\<close>

theorem gossip_load:
  assumes "gn_reachable unicode Marshal Unmarshal s"
  shows "count_list (gn_sent s) (i, m) \<le> nat (cf_gossipFanout (gn_cfg s i)) * (count_list (gn_begun s) (i, m) + 1)"
proof -
  have "count_list (gn_sent s) (i, m) \<le> fan s i * (count_list (gn_begun s) (i, m) + admitted s i m)"
    using load_inv_reachable [OF assms] unfolding load_inv_def by (metis add_leD1)
  also have "\<dots> \<le> fan s i * (count_list (gn_begun s) (i, m) + 1)" by (rule mult_le_mono2) (simp add: admitted_def)
  finally show ?thesis by (simp only: fan_def)
qed

section \<open>Integrity\<close>

definition genuine :: "(Reading \<Rightarrow> string + byte list) \<Rightarrow> (byte list \<Rightarrow> string + Reading) \<Rightarrow> GossipNet \<Rightarrow> Reading \<Rightarrow> bool" where
  "genuine Marshal Unmarshal s r \<longleftrightarrow>
     (\<exists>i r0. (i, r0) \<in> gn_taken s \<and> (r = r0 \<or> (\<exists>p. Marshal r0 = Inr p \<and> Unmarshal p = Inr r)))"

definition encodes :: "(Reading \<Rightarrow> string + byte list) \<Rightarrow> GossipNet \<Rightarrow> string \<Rightarrow> bool" where
  "encodes Marshal s enc \<longleftrightarrow> (\<exists>i r p. (i, r) \<in> gn_taken s \<and> Marshal r = Inr p \<and> enc = base64_encode p)"

definition job_ok :: "(Reading \<Rightarrow> string + byte list) \<Rightarrow> (byte list \<Rightarrow> string + Reading) \<Rightarrow> GossipNet \<Rightarrow> job \<Rightarrow> bool" where
  "job_ok Marshal Unmarshal s j =
     (case j of
        Prepare r \<Rightarrow> \<exists>i. (i, r) \<in> gn_taken s
      | Announce m enc \<Rightarrow> CHR ''|'' \<notin> set m \<and> encodes Marshal s enc
      | StoreReading m ttl r enc \<Rightarrow> CHR ''|'' \<notin> set m \<and> genuine Marshal Unmarshal s r \<and> encodes Marshal s enc
      | Forward m ttl enc \<Rightarrow> CHR ''|'' \<notin> set m \<and> encodes Marshal s enc)"

definition wire_ok :: "(Reading \<Rightarrow> string + byte list) \<Rightarrow> GossipNet \<Rightarrow> string \<Rightarrow> bool" where
  "wire_ok Marshal s msg \<longleftrightarrow> (\<exists>m ttl enc. msg = gossipMessage m ttl enc \<and> CHR ''|'' \<notin> set m \<and> encodes Marshal s enc)"

definition genuine_inv :: "(Reading \<Rightarrow> string + byte list) \<Rightarrow> (byte list \<Rightarrow> string + Reading) \<Rightarrow> GossipNet \<Rightarrow> bool" where
  "genuine_inv Marshal Unmarshal s \<longleftrightarrow>
     (\<forall>i k r. ns_readings (gn_state s i) k = Some r \<longrightarrow> genuine Marshal Unmarshal s r \<and> rd_NodeID r = k) \<and>
     (\<forall>x \<in> set (gn_jobs s). job_ok Marshal Unmarshal s (snd x)) \<and>
     (\<forall>x \<in> gn_wire s. wire_ok Marshal s (snd x)) \<and>
     (\<forall>i r. (i, r) \<in> gn_taken s \<longrightarrow> rd_NodeID r = cf_nodeID (gn_cfg s i))"

lemma genuine_mono:
  assumes "gn_taken s \<subseteq> gn_taken s'"
  shows "genuine Marshal Unmarshal s r \<Longrightarrow> genuine Marshal Unmarshal s' r"
    and "encodes Marshal s enc \<Longrightarrow> encodes Marshal s' enc"
    and "job_ok Marshal Unmarshal s j \<Longrightarrow> job_ok Marshal Unmarshal s' j"
    and "wire_ok Marshal s msg \<Longrightarrow> wire_ok Marshal s' msg"
proof -
  show g: "genuine Marshal Unmarshal s r \<Longrightarrow> genuine Marshal Unmarshal s' r" for r
    using assms unfolding genuine_def by blast
  show e: "encodes Marshal s enc \<Longrightarrow> encodes Marshal s' enc" for enc using assms unfolding encodes_def by blast
  show "job_ok Marshal Unmarshal s j \<Longrightarrow> job_ok Marshal Unmarshal s' j"
    using g e assms by (auto simp: job_ok_def split: job.splits)
  show "wire_ok Marshal s msg \<Longrightarrow> wire_ok Marshal s' msg" using e unfolding wire_ok_def by blast
qed

text \<open>It suffices to look at what a step adds.\<close>

lemma genuine_invI:
  assumes inv: "genuine_inv Marshal Unmarshal s" and sub: "gn_taken s \<subseteq> gn_taken s'" and cfg: "gn_cfg s' = gn_cfg s"
    and readings: "\<And>i k r. ns_readings (gn_state s' i) k = Some r \<Longrightarrow>
      ns_readings (gn_state s i) k = Some r \<or> genuine Marshal Unmarshal s' r \<and> rd_NodeID r = k"
    and jobs: "\<And>x. x \<in> set (gn_jobs s') \<Longrightarrow> x \<in> set (gn_jobs s) \<or> job_ok Marshal Unmarshal s' (snd x)"
    and wire: "\<And>x. x \<in> gn_wire s' \<Longrightarrow> x \<in> gn_wire s \<or> wire_ok Marshal s' (snd x)"
    and taken: "\<And>i r. (i, r) \<in> gn_taken s' \<Longrightarrow> (i, r) \<in> gn_taken s \<or> rd_NodeID r = cf_nodeID (gn_cfg s i)"
  shows "genuine_inv Marshal Unmarshal s'"
proof -
  have inv: "ns_readings (gn_state s i) k = Some r \<Longrightarrow> genuine Marshal Unmarshal s r \<and> rd_NodeID r = k"
    "x \<in> set (gn_jobs s) \<Longrightarrow> job_ok Marshal Unmarshal s (snd x)" "y \<in> gn_wire s \<Longrightarrow> wire_ok Marshal s (snd y)"
    "(i, r) \<in> gn_taken s \<Longrightarrow> rd_NodeID r = cf_nodeID (gn_cfg s i)" for i k r x y
    using inv unfolding genuine_inv_def by blast+
  show ?thesis
    unfolding genuine_inv_def
  proof (intro conjI allI impI ballI)
    show "genuine Marshal Unmarshal s' r" "rd_NodeID r = k" if "ns_readings (gn_state s' i) k = Some r" for i k r
      using readings [OF that] inv(1) genuine_mono(1) [OF sub] by blast+
    show "job_ok Marshal Unmarshal s' (snd x)" if "x \<in> set (gn_jobs s')" for x
      using jobs [OF that] inv(2) genuine_mono(3) [OF sub] by blast
    show "wire_ok Marshal s' (snd x)" if "x \<in> gn_wire s'" for x using wire [OF that] inv(3) genuine_mono(4) [OF sub] by blast
    show "rd_NodeID r = cf_nodeID (gn_cfg s' i)" if "(i, r) \<in> gn_taken s'" for i r
      using taken [OF that] inv(4) cfg by auto
  qed
qed

lemma readings_simps:
  "ns_readings (upsertPeer now p n) = ns_readings n"
  "ns_readings (fst (shouldProcessGossip now m n)) = ns_readings n"
  "ns_readings (setReading r n) = (ns_readings n)(rd_NodeID r \<mapsto> r)"
  by (auto simp: upsertPeer_def shouldProcessGossip_def setReading_def split: option.splits)

lemma gossipMessageID_plain: "CHR ''|'' \<notin> set (gossipMessageID nodeID t)"
proof
  assume "CHR ''|'' \<in> set (gossipMessageID nodeID t)"
  then have "CHR ''|'' \<in> set (EncodeToString (take 8 (Sum256 (bytes_of (nodeID @ ''-'' @ Itoa t)))))"
    by (simp add: gossipMessageID_def)
  then show False using EncodeToString_no_bar by blast
qed

lemma parse_gossip:
  assumes "CHR ''|'' \<notin> set m" and "encodes Marshal s enc"
  shows "parseMessage unicode (TrimSpace (gossipMessage m ttl enc)) = (gossipMsgType, [m, Itoa ttl, enc])"
proof -
  obtain p where p: "enc = base64_encode p" using assms(2) by (auto simp: encodes_def)
  have e: "c \<in> set enc \<Longrightarrow> graphic c \<and> c \<noteq> CHR ''|''" for c using base64_encode_chars unfolding p by blast
  have i: "c \<in> set (Itoa ttl) \<Longrightarrow> c \<noteq> CHR ''|''" for c using Itoa_chars [of c ttl] by (auto simp: is_digit_def)
  have msg: "gossipMessage m ttl enc = Join [gossipMsgType, m, Itoa ttl, enc] ''|''" by (simp add: gossipMessage_def)
  have l: "graphic (last (gossipMessage m ttl enc))"
    using e last_in_set [of enc] by (cases "enc = []") (auto simp: gossipMessage_def graphic_def [of "CHR ''|''"])
  have h: "graphic (hd (gossipMessage m ttl enc))" by (simp add: gossipMessage_def gossipMsgType_def graphic_def)
  have "TrimSpace (gossipMessage m ttl enc) = gossipMessage m ttl enc" using l h by (intro TrimSpace_graphic) blast
  moreover have "parseMessage unicode (Join (gossipMsgType # [m, Itoa ttl, enc]) ''|'') = (gossipMsgType, [m, Itoa ttl, enc])"
  proof (rule parseMessage_Join)
    show "shouting gossipMsgType" unfolding gossipMsgType_def by (rule shouting_types)
    show "CHR ''|'' \<notin> set q" if "q \<in> set [m, Itoa ttl, enc]" for q
      using that assms(1) e i by (auto simp only: set_simps insert_iff empty_iff)
  qed
  ultimately show ?thesis unfolding msg by simp
qed

lemma genuine_sense:
  assumes inv: "genuine_inv Marshal Unmarshal s" and run: "gexec_sense j x s = Some s'"
  shows "genuine_inv Marshal Unmarshal s'"
proof -
  have s': "s' = s\<lparr>gn_state := (gn_state s)(j := setReading x (gn_state s j)), gn_jobs := gn_jobs s @ [(j, Prepare x)],
      gn_taken := insert (j, x) (gn_taken s)\<rparr>" and x: "rd_NodeID x = cf_nodeID (gn_cfg s j)"
    using run by (auto simp: gexec_sense_def split: if_splits)
  have "(j, x) \<in> gn_taken s'" by (simp add: s')
  then have "genuine Marshal Unmarshal s' x" "job_ok Marshal Unmarshal s' (Prepare x)"
    unfolding genuine_def job_ok_def by auto
  then show ?thesis using x by (intro genuine_invI [OF inv]) (auto simp: s' readings_simps split: if_splits)
qed

lemma genuine_receive:
  assumes inv: "genuine_inv Marshal Unmarshal s" and run: "gexec_receive unicode Unmarshal j msg now s = Some s'"
  shows "genuine_inv Marshal Unmarshal s'"
proof -
  have "wire_ok Marshal s msg" using inv run by (auto simp: genuine_inv_def gexec_receive_def split: if_splits)
  then obtain m ttl enc where m: "msg = gossipMessage m ttl enc" "CHR ''|'' \<notin> set m" "encodes Marshal s enc"
    by (auto simp: wire_ok_def)
  obtain i0 r0 p where p: "(i0, r0) \<in> gn_taken s" "Marshal r0 = Inr p" "enc = base64_encode p" using m(3) by (auto simp: encodes_def)
  obtain n' res where ga: "gossipAdmit Unmarshal now (gn_state s j) [m, Itoa ttl, enc] = (n', res)" by fastforce
  have rd: "ns_readings n' = ns_readings (gn_state s j)"
    using ga by (cases rule: gossipAdmit_cases) (simp_all add: readings_simps)
  have s': "s' = (case res of
      None \<Rightarrow> s\<lparr>gn_state := (gn_state s)(j := n')\<rparr>
    | Some (m, ttl, r, e) \<Rightarrow> s\<lparr>gn_state := (gn_state s)(j := n'), gn_jobs := gn_jobs s @ [(j, StoreReading m ttl r e)]\<rparr>)"
    using run parse_gossip [OF m(2,3)] ga unfolding m(1) gexec_receive_def
    by (auto split: if_splits option.splits)
  show ?thesis
  proof (cases res)
    case None
    then show ?thesis using rd by (intro genuine_invI [OF inv]) (auto simp: s' split: if_splits)
  next
    case (Some y)
    obtain t r where y: "y = (m, t, r, enc)" and u: "Unmarshal p = Inr r"
      using ga Some p(3) base64_decode_encode by (auto elim!: gossipAdmit_cases)
    have "job_ok Marshal Unmarshal s' (StoreReading m t r enc)"
      using m(2,3) p(1,2) u unfolding job_ok_def genuine_def encodes_def by (auto simp: s' Some y)
    then show ?thesis using rd by (intro genuine_invI [OF inv]) (auto simp: s' Some y split: if_splits)
  qed
qed

lemma genuine_send:
  assumes inv: "genuine_inv Marshal Unmarshal s" and ok: "CHR ''|'' \<notin> set m" "encodes Marshal s enc"
    and sends: "\<And>x. x \<in> set sends \<Longrightarrow> \<exists>ttl. snd x = gossipMessage m ttl enc"
  shows "genuine_inv Marshal Unmarshal (gn_send j m sends (s\<lparr>gn_jobs := take k (gn_jobs s) @ drop (Suc k) (gn_jobs s)\<rparr>))"
    (is "genuine_inv _ _ ?s")
proof (rule genuine_invI [OF inv])
  have "encodes Marshal ?s enc" using ok(2) by (simp add: encodes_def gn_send_def)
  then show "x \<in> gn_wire s \<or> wire_ok Marshal ?s (snd x)" if "x \<in> gn_wire ?s" for x
    using that ok(1) sends [of x] unfolding wire_ok_def by (auto simp: gn_send_def)
  show "x \<in> set (gn_jobs s) \<or> job_ok Marshal Unmarshal ?s (snd x)" if "x \<in> set (gn_jobs ?s)" for x
    using that by (auto simp: gn_send_def dest: in_set_takeD in_set_dropD)
qed (simp_all add: gn_send_def)

lemma genuine_job:
  assumes inv: "genuine_inv Marshal Unmarshal s" and run: "gexec_job Marshal k now ks s = Some s'"
  shows "genuine_inv Marshal Unmarshal s'"
proof -
  obtain j x where job: "gn_jobs s ! k = (j, x)" by fastforce
  let ?rest = "take k (gn_jobs s) @ drop (Suc k) (gn_jobs s)"
  have k: "k < length (gn_jobs s)" using run by (simp add: gexec_job_def split: if_splits)
  then have "(j, x) \<in> set (gn_jobs s)" using job nth_mem by metis
  then have ok: "job_ok Marshal Unmarshal s x" using inv by (auto simp: genuine_inv_def)
  have rest: "y \<in> set ?rest \<Longrightarrow> y \<in> set (gn_jobs s)" for y by (auto dest: in_set_takeD in_set_dropD)
  show ?thesis
  proof (cases x)
    case (Announce m enc)
    then have "s' = gn_send j m (gossipSends (choose_perm ks) (gn_cfg s j) (gn_state s j) m (cf_gossipTTL (gn_cfg s j)) enc) (s\<lparr>gn_jobs := ?rest\<rparr>)"
      using run k job by (simp add: gexec_job_def Let_def)
    then show ?thesis
      using ok Announce by (auto simp: job_ok_def gossipSends_def intro!: genuine_send [OF inv, of m enc])
  next
    case (Forward m ttl enc)
    then have "s' = gn_send j m (gossipForward (choose_perm ks) (gn_cfg s j) (gn_state s j) m ttl enc) (s\<lparr>gn_jobs := ?rest\<rparr>)"
      using run k job by (simp add: gexec_job_def Let_def)
    then show ?thesis
      using ok Forward by (auto simp: job_ok_def gossipForward_def gossipSends_def intro!: genuine_send [OF inv, of m enc])
  next
    case (StoreReading m ttl r enc)
    then have s': "s' = s\<lparr>gn_state := (gn_state s)(j := setReading r (gn_state s j)), gn_jobs := ?rest @ [(j, Forward m ttl enc)]\<rparr>"
      using run k job by (simp add: gexec_job_def Let_def)
    have "genuine Marshal Unmarshal s' r" "job_ok Marshal Unmarshal s' (Forward m ttl enc)"
      using ok unfolding StoreReading job_ok_def genuine_def encodes_def s' by auto
    then show ?thesis using rest by (intro genuine_invI [OF inv]) (auto simp: s' readings_simps split: if_splits)
  next
    case (Prepare r)
    obtain n' res where gp: "gossipPrepare Marshal now (gn_cfg s j) (gn_state s j) r = (n', res)" by fastforce
    have rd: "ns_readings n' = ns_readings (gn_state s j)"
      using gp by (cases rule: gossipPrepare_cases) (simp_all add: readings_simps)
    show ?thesis
    proof (cases res)
      case (Inl err)
      then have "s' = s\<lparr>gn_jobs := ?rest, gn_state := (gn_state s)(j := n')\<rparr>"
        using run k job Prepare gp by (simp add: gexec_job_def Let_def)
      then show ?thesis using rd rest by (intro genuine_invI [OF inv]) (auto split: if_splits)
    next
      case (Inr me)
      obtain m p where me: "me = (m, base64_encode p)" "Marshal r = Inr p" "m = gossipMessageID (cf_nodeID (gn_cfg s j)) (rd_Timestamp r)"
        using gp Inr by (auto elim: gossipPrepare_cases)
      have s': "s' = s\<lparr>gn_state := (gn_state s)(j := n'), gn_jobs := ?rest @ [(j, Announce m (base64_encode p))], gn_begun := gn_begun s @ [(j, m)]\<rparr>"
        using run k job Prepare gp Inr me(1) by (simp add: gexec_job_def Let_def)
      have "job_ok Marshal Unmarshal s' (Announce m (base64_encode p))"
        using ok Prepare me(2) gossipMessageID_plain unfolding me(3) job_ok_def encodes_def by (auto simp: s')
      then show ?thesis using rd rest by (intro genuine_invI [OF inv]) (auto simp: s' split: if_splits)
    qed
  qed
qed

lemma genuine_reachable: "gn_reachable unicode Marshal Unmarshal s \<Longrightarrow> genuine_inv Marshal Unmarshal s"
proof (induction rule: gn_reachable.induct)
  case (gn_start cfg now)
  show ?case by (simp add: genuine_inv_def gn_initial_def initialState_def)
next
  case (gn_step s a s')
  show ?case
  proof (cases a)
    case (Hello i p now)
    then have "s' = s\<lparr>gn_state := (gn_state s)(i := upsertPeer now p (gn_state s i))\<rparr>"
      using gn_step.hyps by (simp add: gexec_hello_def)
    then show ?thesis by (intro genuine_invI [OF gn_step.IH]) (auto simp: readings_simps split: if_splits)
  qed (use gn_step genuine_sense [OF gn_step.IH] genuine_receive [OF gn_step.IH] genuine_job [OF gn_step.IH] in simp_all)
qed

text \<open>
  C5: gossip delivers only genuine readings. In every execution, when the readings that are taken survive encoding
  and decoding, a node has as the reading of the node \<open>k\<close> only a reading that a node with the
  identifier \<open>k\<close> has taken, however many other nodes have passed it on.
\<close>

theorem gossip_genuine:
  assumes "gn_reachable unicode Marshal Unmarshal s"
    and "\<And>j x p. (j, x) \<in> gn_taken s \<Longrightarrow> Marshal x = Inr p \<Longrightarrow> Unmarshal p = Inr x"
    and "ns_readings (gn_state s i) k = Some r"
  shows "\<exists>j. (j, r) \<in> gn_taken s \<and> cf_nodeID (gn_cfg s j) = k"
proof -
  have inv: "genuine_inv Marshal Unmarshal s" by (rule genuine_reachable [OF assms(1)])
  then have "genuine Marshal Unmarshal s r" "rd_NodeID r = k" using assms(3) unfolding genuine_inv_def by blast+
  moreover from this(1) obtain j where "(j, r) \<in> gn_taken s" unfolding genuine_def using assms(2) by fastforce
  ultimately show ?thesis using inv unfolding genuine_inv_def by metis
qed

text \<open>Two nodes: \<open>a\<close> learns of \<open>b\<close>, takes a reading, and broadcasts it.\<close>

fun grun :: "(string \<Rightarrow> string) \<Rightarrow> (Reading \<Rightarrow> string + byte list) \<Rightarrow> (byte list \<Rightarrow> string + Reading) \<Rightarrow>
    gossip_action list \<Rightarrow> GossipNet \<Rightarrow> GossipNet option" where
  "grun unicode Marshal Unmarshal [] s = Some s"
| "grun unicode Marshal Unmarshal (a # as) s =
     (case gexec unicode Marshal Unmarshal a s of None \<Rightarrow> None | Some s' \<Rightarrow> grun unicode Marshal Unmarshal as s')"

lemma grun_reachable:
  "gn_reachable unicode Marshal Unmarshal s \<Longrightarrow> grun unicode Marshal Unmarshal as s = Some s' \<Longrightarrow>
     gn_reachable unicode Marshal Unmarshal s'"
  by (induction as arbitrary: s) (auto split: option.splits intro: gn_step)

definition example_taken :: Reading where
  "example_taken = example_reading\<lparr>rd_NodeID := ''a''\<rparr>"

definition example_run :: "GossipNet option" where
  "example_run = grun id (\<lambda>_. Inr [1]) (\<lambda>_. Inr example_taken)
     [Hello ''a'' \<lparr>pi_nodeID = ''b'', pi_addr = ''b'', pi_lastSeen = 0\<rparr> 1, Sense ''a'' example_taken, RunJob 0 2 [], RunJob 0 3 []]
     (gn_initial (\<lambda>i. example_client\<lparr>cf_nodeID := i, cf_advertiseAddr := i\<rparr>) 0)"

lemma example_sorted: "insort ''a'' [''b''] = [''a'', ''b'']"
  by code_simp

lemma example_run_result:
  "case example_run of None \<Rightarrow> False | Some s \<Rightarrow>
     gn_sent s = [(''a'', gossipMessageID ''a'' 0)] \<and> gn_begun s = [(''a'', gossipMessageID ''a'' 0)] \<and>
     gn_taken s = {(''a'', example_taken)} \<and> gn_cfg s = (\<lambda>i. example_client\<lparr>cf_nodeID := i, cf_advertiseAddr := i\<rparr>) \<and>
     ns_readings (gn_state s ''a'') ''a'' = Some example_taken \<and>
     gn_wire s = {(''b'', gossipMessage (gossipMessageID ''a'' 0) 3 (base64_encode [1]))}"
  by (simp add: example_run_def gexec_hello_def gexec_sense_def gexec_job_def gn_initial_def gn_send_def gossipPrepare_def
      EncodeReading_def shouldProcessGossip_def initialState_def upsertPeer_def setReading_def gossipSends_def
      selectGossipTargets_def peerAddrs_def Let_def example_sorted example_client_def example_taken_def example_reading_def)

lemma example_net:
  obtains s where "gn_reachable id (\<lambda>_. Inr [1]) (\<lambda>_. Inr example_taken) s" and "gn_sent s = [(''a'', gossipMessageID ''a'' 0)]"
    and "gn_begun s = [(''a'', gossipMessageID ''a'' 0)]" and "gn_taken s = {(''a'', example_taken)}"
    and "cf_gossipFanout (gn_cfg s ''a'') = 3" and "cf_nodeID (gn_cfg s ''a'') = ''a''"
    and "ns_readings (gn_state s ''a'') ''a'' = Some example_taken"
    and "gn_wire s = {(''b'', gossipMessage (gossipMessageID ''a'' 0) 3 (base64_encode [1]))}"
proof -
  obtain s where s: "example_run = Some s" and e: "gn_sent s = [(''a'', gossipMessageID ''a'' 0)]"
    "gn_begun s = [(''a'', gossipMessageID ''a'' 0)]" "gn_taken s = {(''a'', example_taken)}"
    "gn_cfg s = (\<lambda>i. example_client\<lparr>cf_nodeID := i, cf_advertiseAddr := i\<rparr>)" "ns_readings (gn_state s ''a'') ''a'' = Some example_taken"
    "gn_wire s = {(''b'', gossipMessage (gossipMessageID ''a'' 0) 3 (base64_encode [1]))}"
    using example_run_result by (auto split: option.splits)
  have r: "gn_reachable id (\<lambda>_. Inr [1]) (\<lambda>_. Inr example_taken) s"
    by (rule grun_reachable [OF gn_start s [unfolded example_run_def]])
  show ?thesis by (rule that [OF r e(1-3) _ _ e(5,6)]) (simp_all add: e(4) example_client_def)
qed

theorem gossip_load_witness:
  "\<exists>s m. gn_reachable id (\<lambda>_. Inr [1]) (\<lambda>_. Inr example_taken) s \<and> 0 < count_list (gn_sent s) (''a'', m) \<and>
     count_list (gn_sent s) (''a'', m) \<le> 3 * (count_list (gn_begun s) (''a'', m) + 1)"
proof -
  obtain s where s: "gn_reachable id (\<lambda>_. Inr [1]) (\<lambda>_. Inr example_taken) s" "gn_sent s = [(''a'', gossipMessageID ''a'' 0)]"
    "cf_gossipFanout (gn_cfg s ''a'') = 3" by (rule example_net)
  show ?thesis using gossip_load [OF s(1), of "''a''" "gossipMessageID ''a'' 0"] s by auto
qed

theorem gossip_genuine_witness:
  "\<exists>s. gn_reachable id (\<lambda>_. Inr [1]) (\<lambda>_. Inr example_taken) s \<and> ns_readings (gn_state s ''a'') ''a'' = Some example_taken \<and>
     (\<exists>j. (j, example_taken) \<in> gn_taken s \<and> cf_nodeID (gn_cfg s j) = ''a'')"
proof -
  obtain s where s: "gn_reachable id (\<lambda>_. Inr [1]) (\<lambda>_. Inr example_taken) s" "gn_taken s = {(''a'', example_taken)}"
    "ns_readings (gn_state s ''a'') ''a'' = Some example_taken" by (rule example_net)
  have "\<exists>j. (j, example_taken) \<in> gn_taken s \<and> cf_nodeID (gn_cfg s j) = ''a''"
    by (rule gossip_genuine [OF s(1) _ s(3)]) (simp add: s(2))
  then show ?thesis using s(1,3) by blast
qed

end
