(* ===== verification/CoordServer.thy ===== *)
theory CoordServer
  imports CoordRaft GossipNet
begin

text \<open>
  The servers of the coordinator (\<^verbatim>\<open>cmd/coordinator/main.go\<close>): the handler of the gossip that the sensor nodes send, and
  the region query over HTTP. Other goroutines run between two calls on the Raft node, so that the handler takes the result
  of each call as an argument. The readings on their way from a sensor to the store are followed across the components.
\<close>

section \<open>Gossip\<close>

text \<open>What the calls on the Raft node return to one run of the handler: \<^verbatim>\<open>State\<close>, \<^verbatim>\<open>LeaderID\<close> each time it is called, and \<^verbatim>\<open>Propose\<close>.\<close>

record raft_view =
  rv_State :: State
  rv_LeaderID :: string
  rv_LeaderID' :: string
  rv_Propose :: "string \<Rightarrow> raft_error option"

datatype coord_call = CallPropose string | CallSendPropose string string

datatype gossip_outcome =
    ReadFailed io_error
  | UnknownGossip
  | PayloadDecodeFailed
  | ReadingDecodeFailed string
  | Stored
  | ReadingEncodeFailed string
  | LeaderAddressUnknown string
  | ForwardFailed rpc_error
  | Forwarded proposeResponse
  | Proposed
  | ProposeFailed "raft_error option"

definition forwardToLeader :: "(string \<Rightarrow> string \<Rightarrow> rpc_error + proposeResponse) \<Rightarrow> (string \<times> string) list \<Rightarrow> string \<Rightarrow> string \<Rightarrow>
    coord_call list \<times> gossip_outcome" where
  "forwardToLeader send raftPeers leader command =
     (case map_of raftPeers leader of
        None \<Rightarrow> ([], LeaderAddressUnknown leader)
      | Some leaderAddr \<Rightarrow>
          if leaderAddr = '''' then ([], LeaderAddressUnknown leader)
          else
            (case send leaderAddr command of
               Inl err \<Rightarrow> ([CallSendPropose leaderAddr command], ForwardFailed err)
             | Inr resp \<Rightarrow> ([CallSendPropose leaderAddr command], Forwarded resp)))"

text \<open>
  The error of \<^verbatim>\<open>Propose\<close> is declared in the condition, so that the test for \<^verbatim>\<open>ErrNotLeader\<close> after it reads the variable \<^verbatim>\<open>err\<close> of the
  function, which is nil there.
\<close>

definition proposeOrForward :: "(string \<Rightarrow> string \<Rightarrow> rpc_error + proposeResponse) \<Rightarrow> (string \<times> string) list \<Rightarrow> raft_view \<Rightarrow> string \<Rightarrow>
    coord_call list \<times> gossip_outcome" where
  "proposeOrForward send raftPeers rv command =
     (let err = (None :: raft_error option)
      in if rv_State rv \<noteq> StateLeader \<and> rv_LeaderID rv \<noteq> '''' then forwardToLeader send raftPeers (rv_LeaderID rv) command
         else if rv_Propose rv command = None then ([CallPropose command], Proposed)
         else if err = Some ErrNotLeader then
           (let (calls, outcome) = forwardToLeader send raftPeers (rv_LeaderID' rv) command in (CallPropose command # calls, outcome))
         else ([CallPropose command], ProposeFailed err))"

definition handleGossipConn :: "(string \<Rightarrow> string) \<Rightarrow> (Reading \<Rightarrow> string + byte list) \<Rightarrow> (byte list \<Rightarrow> string + Reading) \<Rightarrow>
    (string \<Rightarrow> string \<Rightarrow> rpc_error + proposeResponse) \<Rightarrow> int \<Rightarrow> int \<Rightarrow> Reader \<Rightarrow> readingStore \<Rightarrow> raft_view option \<Rightarrow> (string \<times> string) list \<Rightarrow>
    readingStore \<times> coord_call list \<times> gossip_outcome" where
  "handleGossipConn unicode Marshal Unmarshal send now now' reader store raftNode raftPeers =
     (case coord_readFrame reader of
        (_, Inl err) \<Rightarrow> (store, [], ReadFailed err)
      | (_, Inr payload) \<Rightarrow>
          let (msgType, parts) = coordinator_parseMessage unicode (string_of payload)
          in if msgType \<noteq> ''GOSSIP'' \<or> length parts < 3 then (store, [], UnknownGossip)
             else
               (case base64_decode (parts ! 2) of
                  None \<Rightarrow> (store, [], PayloadDecodeFailed)
                | Some data \<Rightarrow>
                    (case DecodeReading Unmarshal data of
                       Inl err \<Rightarrow> (store, [], ReadingDecodeFailed err)
                     | Inr reading \<Rightarrow>
                         (case raftNode of
                            None \<Rightarrow> (fst (storeAndLog now now' store reading), [], Stored)
                          | Some rv \<Rightarrow>
                              (case encodeReadingCommand Marshal reading of
                                 Inl err \<Rightarrow> (store, [], ReadingEncodeFailed err)
                               | Inr command \<Rightarrow> (store, proposeOrForward send raftPeers rv command))))))"

section \<open>The region query\<close>

record regionResponse =
  rr_Center :: Location
  rr_RadiusKm :: float64
  rr_AvgTempC :: float64
  rr_Samples :: int
  rr_Readings :: "Reading list"

definition coord_parseFloat :: "(string \<Rightarrow> float64 option) \<Rightarrow> string \<Rightarrow> float64 option" where
  "coord_parseFloat ParseFloat val = (if val = '''' then None else ParseFloat val)"

text \<open>The query is a function from names to values, empty for a name that is missing.\<close>

definition parseRegionQuery :: "(string \<Rightarrow> float64 option) \<Rightarrow> (string \<Rightarrow> string) \<Rightarrow> string + Location \<times> float64" where
  "parseRegionQuery ParseFloat query =
     (case coord_parseFloat ParseFloat (query ''lat'') of
        None \<Rightarrow> Inl ''invalid lat''
      | Some lat \<Rightarrow>
          (case coord_parseFloat ParseFloat (query ''lon'') of
             None \<Rightarrow> Inl ''invalid lon''
           | Some lon \<Rightarrow>
               (case coord_parseFloat ParseFloat (query ''radius_km'') of
                  None \<Rightarrow> Inl ''invalid radius_km''
                | Some radius \<Rightarrow>
                    if fle radius (Fin 0) then Inl ''invalid radius_km''
                    else Inr (\<lparr>Latitude = lat, Longitude = lon\<rparr>, radius))))"

text \<open>
  The answer: an error with its status and message, or the status 200 with a body. \<open>Encode\<close> is what \<^verbatim>\<open>json.NewEncoder(w).Encode\<close> writes
  for a response, or its error, when nothing is written; the error is only logged, and the library completes the answer with the status
  200 and an empty body.
\<close>

datatype http_reply = HTTPError nat string | HTTPOK "byte list"

definition handleRegion :: "(string \<Rightarrow> float64 option) \<Rightarrow> math_lib \<Rightarrow> (regionResponse \<Rightarrow> string + byte list) \<Rightarrow> nat list \<Rightarrow> readingStore \<Rightarrow>
    (string \<Rightarrow> string) \<Rightarrow> http_reply \<times> string option" where
  "handleRegion ParseFloat m Encode order store query =
     (case parseRegionQuery ParseFloat query of
        Inl err \<Rightarrow> (HTTPError 400 err, None)
      | Inr (center, radiusKm) \<Rightarrow>
          let readings = snapshot order store
          in case AverageTemperatureInRadius m readings center radiusKm of
               Inl err \<Rightarrow> (HTTPError 404 err, None)
             | Inr (avgTemp, cnt) \<Rightarrow>
                 let matched = FilterByRadius m readings center radiusKm;
                     response = \<lparr>rr_Center = center, rr_RadiusKm = radiusKm, rr_AvgTempC = avgTemp, rr_Samples = cnt, rr_Readings = matched\<rparr>
                 in case Encode response of
                      Inl err \<Rightarrow> (HTTPOK [], Some err)
                    | Inr body \<Rightarrow> (HTTPOK body, None))"

section \<open>From a sensor to a command\<close>

lemma coordinator_parse: "coordinator_parseMessage unicode message = parseMessage unicode (TrimSpace message)"
  by (simp add: coordinator_parseMessage_def parseMessage_def)

lemma applyReadingCommand_stores:
  assumes "encodeReadingCommand Marshal r = Inr command" and "\<And>p. Marshal r = Inr p \<Longrightarrow> Unmarshal p = Inr r"
  shows "map_of (rs_readings (fst (applyReadingCommand Unmarshal now now' store command))) = (map_of (rs_readings store))(rd_NodeID r \<mapsto> r)"
proof -
  obtain p where "Marshal r = Inr p" "command = base64_encode p"
    using assms(1) by (auto simp: encodeReadingCommand_def EncodeReading_def split: sum.splits)
  then have "applyReadingCommand Unmarshal now now' store command = storeAndLog now now' store r"
    using assms(2) by (simp add: applyReadingCommand_def DecodeReading_def base64_decode_encode)
  then show ?thesis using stored.get_put [of "(now, now')" r store] by (simp add: storeAndLog_def case_prod_beta)
qed

lemma proposeOrForward_cases:
  assumes "proposeOrForward send raftPeers rv command = (made, outcome)"
  shows "if rv_State rv = StateLeader \<or> rv_LeaderID rv = '''' then
       made = [CallPropose command] \<and> outcome = (if rv_Propose rv command = None then Proposed else ProposeFailed None)
     else case map_of raftPeers (rv_LeaderID rv) of
         Some (c # host) \<Rightarrow> made = [CallSendPropose (c # host) command] \<and>
           outcome = (case send (c # host) command of Inl err \<Rightarrow> ForwardFailed err | Inr resp \<Rightarrow> Forwarded resp)
       | _ \<Rightarrow> made = [] \<and> outcome = LeaderAddressUnknown (rv_LeaderID rv)"
  using assms by (auto simp: proposeOrForward_def forwardToLeader_def split: option.splits list.splits sum.splits if_splits)

text \<open>
  C7: from a sensor to a command. In every execution of the sensor network, a message that a node has sent, to the coordinator or to
  any other node, carries a reading that a sensor node has taken itself. A coordinator that receives the message makes one command of it and leaves its
  own store alone. A coordinator that is the leader, or knows no leader, proposes the command to its Raft node, and nothing else. A
  coordinator that is not the leader and knows one sends the command to the address of the leader, and nothing else; if it does not know the
  address, it does neither. Every coordinator that applies the command stores exactly this reading as the latest
  of its node. The readings have to survive encoding and decoding, and the message has to fit into a frame.
\<close>

theorem sensor_to_command:
  assumes "gn_reachable unicode Marshal Unmarshal s" and "(addr, msg) \<in> gn_wire s" and "length msg < 2 ^ 32"
    and "\<And>j r p. (j, r) \<in> gn_taken s \<Longrightarrow> Marshal r = Inr p \<Longrightarrow> Unmarshal p = Inr r"
  shows "\<exists>j r command made outcome. (j, r) \<in> gn_taken s \<and> rd_NodeID r = cf_nodeID (gn_cfg s j) \<and>
    handleGossipConn unicode Marshal Unmarshal send now now' \<lparr>rd_data = writeFrame (bytes_of msg), rd_end = e\<rparr> store (Some rv) raftPeers =
      (store, made, outcome) \<and>
    (if rv_State rv = StateLeader \<or> rv_LeaderID rv = '''' then
       made = [CallPropose command] \<and> outcome = (if rv_Propose rv command = None then Proposed else ProposeFailed None)
     else case map_of raftPeers (rv_LeaderID rv) of
         Some (c # host) \<Rightarrow> made = [CallSendPropose (c # host) command] \<and>
           outcome = (case send (c # host) command of Inl err \<Rightarrow> ForwardFailed err | Inr resp \<Rightarrow> Forwarded resp)
       | _ \<Rightarrow> made = [] \<and> outcome = LeaderAddressUnknown (rv_LeaderID rv)) \<and>
    (\<forall>t t' st. map_of (rs_readings (fst (applyReadingCommand Unmarshal t t' st command))) = (map_of (rs_readings st))(rd_NodeID r \<mapsto> r))"
proof -
  have inv: "genuine_inv Marshal Unmarshal s" by (rule genuine_reachable [OF assms(1)])
  then have "wire_ok Marshal s msg" using assms(2) by (auto simp: genuine_inv_def)
  then obtain m ttl enc where m: "msg = gossipMessage m ttl enc" "CHR ''|'' \<notin> set m" "encodes Marshal s enc"
    by (auto simp: wire_ok_def)
  obtain j r p where r: "(j, r) \<in> gn_taken s" "Marshal r = Inr p" "enc = base64_encode p" using m(3) by (auto simp: encodes_def)
  have "coordinator_parseMessage unicode msg = (''GOSSIP'', [m, Itoa ttl, enc])"
    unfolding coordinator_parse m(1) parse_gossip [OF m(2,3)] by (simp add: gossipMsgType_def)
  moreover have "Unmarshal p = Inr r" by (rule assms(4) [OF r(1,2)])
  moreover have "encodeReadingCommand Marshal r = Inr enc" using r(2,3) by (simp add: encodeReadingCommand_def EncodeReading_def)
  ultimately have "handleGossipConn unicode Marshal Unmarshal send now now' \<lparr>rd_data = writeFrame (bytes_of msg), rd_end = e\<rparr> store (Some rv) raftPeers =
      (store, proposeOrForward send raftPeers rv enc)"
    using readFrame_writeFrame [of "bytes_of msg" "[]" e] assms(3) r(3)
    by (simp add: handleGossipConn_def coord_readFrame_def base64_decode_encode DecodeReading_def)
  moreover have "map_of (rs_readings (fst (applyReadingCommand Unmarshal t t' st enc))) = (map_of (rs_readings st))(rd_NodeID r \<mapsto> r)" for t t' st
    by (rule applyReadingCommand_stores) (use \<open>encodeReadingCommand Marshal r = Inr enc\<close> assms(4) r(1) in auto)
  moreover have "rd_NodeID r = cf_nodeID (gn_cfg s j)" using inv r(1) by (auto simp: genuine_inv_def)
  moreover obtain made outcome where po: "proposeOrForward send raftPeers rv enc = (made, outcome)" by fastforce
  ultimately show ?thesis
    using r(1) proposeOrForward_cases [OF po] unfolding po by - (rule exI [of _ j], rule exI [of _ r], rule exI [of _ enc], rule exI [of _ made], rule exI [of _ outcome], simp)
qed

text \<open>
  C40: a refused proposal is dropped. When a coordinator that knows no leader, or was the leader, proposes a reading and the proposal is refused because the node is
  not the leader, the reading is not forwarded, although the leader and its address are known by
  then; the failure is logged without its error.
\<close>

theorem refused_reading_dropped:
  assumes "rv_State rv = StateLeader \<or> rv_LeaderID rv = ''''" and "rv_Propose rv command = Some ErrNotLeader"
    and "map_of raftPeers (rv_LeaderID' rv) = Some addr" and "addr \<noteq> ''''"
  shows "proposeOrForward send raftPeers rv command = ([CallPropose command], ProposeFailed None) \<and>
    fst (forwardToLeader send raftPeers (rv_LeaderID' rv) command) = [CallSendPropose addr command]"
  using assms by (auto simp: proposeOrForward_def forwardToLeader_def split: sum.splits)

theorem refused_reading_dropped_witness:
  "proposeOrForward (\<lambda>_ _. Inl (UnknownPeer '''')) [(''b'', ''host-b:7000'')]
     \<lparr>rv_State = StateFollower, rv_LeaderID = '''', rv_LeaderID' = ''b'', rv_Propose = (\<lambda>_. Some ErrNotLeader)\<rparr> ''c'' =
   ([CallPropose ''c''], ProposeFailed None)"
  using refused_reading_dropped
    [of "\<lparr>rv_State = StateFollower, rv_LeaderID = '''', rv_LeaderID' = ''b'', rv_Propose = (\<lambda>_. Some ErrNotLeader)\<rparr>" "''c''"
      "[(''b'', ''host-b:7000'')]" "''host-b:7000''" "\<lambda>_ _. Inl (UnknownPeer '''')"]
  by simp

lemma gossipMessageID_length: "length (gossipMessageID nodeID t) = 16"
  unfolding gossipMessageID_def Let_def length_EncodeToString length_take length_Sum256 by simp

lemma example_message_length: "length (gossipMessage (gossipMessageID ''a'' 0) 3 (base64_encode [1])) < 2 ^ 32"
proof -
  have "length (base64_encode [1]) = 4" unfolding base64_encode.simps Let_def by simp
  moreover have "length (Itoa 3) = 1" by (simp add: Itoa_def digits.simps)
  ultimately show ?thesis
    unfolding gossipMessage_def length_append gossipMessageID_length gossipMsgType_def by simp
qed

theorem sensor_to_command_witness:
  "\<exists>s msg command. gn_reachable id (\<lambda>_. Inr [1]) (\<lambda>_. Inr example_taken) s \<and> (''b'', msg) \<in> gn_wire s \<and>
     handleGossipConn id (\<lambda>_. Inr [1]) (\<lambda>_. Inr example_taken) (\<lambda>_ _. Inl (UnknownPeer '''')) 5 6
       \<lparr>rd_data = writeFrame (bytes_of msg), rd_end = EOF\<rparr> \<lparr>rs_readings = [], rs_firstSeen = None, rs_targetReached = False, rs_targetCount = 1\<rparr>
       (Some \<lparr>rv_State = StateLeader, rv_LeaderID = ''c'', rv_LeaderID' = ''c'', rv_Propose = (\<lambda>_. None)\<rparr>) [] =
     (\<lparr>rs_readings = [], rs_firstSeen = None, rs_targetReached = False, rs_targetCount = 1\<rparr>, [CallPropose command], Proposed)"
proof -
  let ?msg = "gossipMessage (gossipMessageID ''a'' 0) 3 (base64_encode [1])"
  let ?rv = "\<lparr>rv_State = StateLeader, rv_LeaderID = ''c'', rv_LeaderID' = ''c'', rv_Propose = (\<lambda>_. None)\<rparr>"
  let ?st = "\<lparr>rs_readings = [], rs_firstSeen = None, rs_targetReached = False, rs_targetCount = 1\<rparr>"
  obtain s where s: "gn_reachable id (\<lambda>_. Inr [1]) (\<lambda>_. Inr example_taken) s" "gn_taken s = {(''a'', example_taken)}" "gn_wire s = {(''b'', ?msg)}"
    by (rule example_net)
  have w: "(''b'', ?msg) \<in> gn_wire s" by (simp add: s(3))
  obtain command where "handleGossipConn id (\<lambda>_. Inr [1]) (\<lambda>_. Inr example_taken) (\<lambda>_ _. Inl (UnknownPeer '''')) 5 6
       \<lparr>rd_data = writeFrame (bytes_of ?msg), rd_end = EOF\<rparr> ?st (Some ?rv) [] = (?st, [CallPropose command], Proposed)"
    using sensor_to_command [OF s(1) w example_message_length, of "\<lambda>_ _. Inl (UnknownPeer '''')" 5 6 EOF ?st ?rv "[]"] s(2) by auto
  then show ?thesis using s(1) w by (intro exI [of _ s] exI [of _ ?msg] exI [of _ command]) simp
qed

section \<open>Answers to region queries\<close>

text \<open>
  C20: the region query over HTTP, for an arbitrary store. An invalid query is answered with the status 400. Otherwise let the matching readings be those in the store
  whose distance from the center is at most the radius. Without any, the answer is the status 404. Otherwise the response has exactly the
  matching readings, in some order, their number, and their average as \<^verbatim>\<open>AverageTemperature\<close> computes it. The answer is the
  status 200 with the encoding of the response, or with an empty body if it cannot be encoded, as for an infinite
  radius. If moreover all temperatures are from -10 to 45 degrees and there are at most \<open>2 ^ 40\<close> readings, so is the average.
\<close>

theorem handleRegion_correct:
  "case parseRegionQuery ParseFloat query of
     Inl err \<Rightarrow> handleRegion ParseFloat m Encode order store query = (HTTPError 400 err, None)
   | Inr (center, radiusKm) \<Rightarrow>
       let matching = filter (\<lambda>r. fle (DistanceKm m center (rd_Location r)) radiusKm) (map snd (rs_readings store))
       in if matching = [] then handleRegion ParseFloat m Encode order store query = (HTTPError 404 ''no readings in radius'', None)
          else \<exists>avg rs. mset rs = mset matching \<and> AverageTemperature rs = Inr avg \<and>
            handleRegion ParseFloat m Encode order store query =
              (case Encode \<lparr>rr_Center = center, rr_RadiusKm = radiusKm, rr_AvgTempC = avg, rr_Samples = int (length matching), rr_Readings = rs\<rparr> of
                 Inl err \<Rightarrow> (HTTPOK [], Some err)
               | Inr body \<Rightarrow> (HTTPOK body, None)) \<and>
            ((\<forall>r \<in> set matching. between (- 10) (rd_TemperatureC r) 45) \<longrightarrow> length matching \<le> 2 ^ 40 \<longrightarrow> between (- 10) avg 45)"
proof (cases "parseRegionQuery ParseFloat query")
  case (Inr cr)
  obtain center radiusKm where cr: "cr = (center, radiusKm)" by fastforce
  have pos: "\<not> fle radiusKm (Fin 0)" using Inr by (auto simp: cr parseRegionQuery_def split: option.splits if_splits)
  let ?all = "filter (\<lambda>r. fle (DistanceKm m center (rd_Location r)) radiusKm) (map snd (rs_readings store))"
  define rs where "rs = filter (\<lambda>r. fle (DistanceKm m center (rd_Location r)) radiusKm) (snapshot order store)"
  have F: "FilterByRadius m (snapshot order store) center radiusKm = rs" using pos by (simp add: FilterByRadius_def selectWithin_filter rs_def)
  have ms: "mset rs = mset ?all" by (simp add: rs_def snapshot_def mset_filter)
  have len: "length rs = length ?all" using mset_eq_length [OF ms] .
  have set: "set rs = set ?all" using mset_eq_setD [OF ms] .
  have empty: "?all = [] \<longleftrightarrow> rs = []" using len by (metis length_0_conv)
  show ?thesis
  proof (cases "rs = []")
    case True
    have "handleRegion ParseFloat m Encode order store query = (HTTPError 404 ''no readings in radius'', None)"
      by (simp add: handleRegion_def Inr cr AverageTemperatureInRadius_def F True)
    then show ?thesis using iffD2 [OF empty True] by (simp only: Inr cr sum.case prod.case Let_def if_True simp_thms)
  next
    case False
    obtain avg where avg: "AverageTemperature rs = Inr avg" using False by (simp add: AverageTemperature_def)
    have "handleRegion ParseFloat m Encode order store query =
        (case Encode \<lparr>rr_Center = center, rr_RadiusKm = radiusKm, rr_AvgTempC = avg, rr_Samples = int (length ?all), rr_Readings = rs\<rparr> of
           Inl err \<Rightarrow> (HTTPOK [], Some err) | Inr body \<Rightarrow> (HTTPOK body, None))"
      unfolding len [symmetric] by (simp add: handleRegion_def Inr cr AverageTemperatureInRadius_def F False avg)
    moreover have "between (- 10) avg 45" if "\<forall>r \<in> set ?all. between (- 10) (rd_TemperatureC r) 45" "length ?all \<le> 2 ^ 40"
      using Average_between [of rs] that avg False unfolding set [symmetric] len [symmetric] by (auto simp: temp_ok_def)
    ultimately show ?thesis using False ms avg empty by (simp only: Inr cr sum.case prod.case Let_def if_False) blast
  qed
qed (simp add: handleRegion_def)

text \<open>An encoder that fails for an infinite radius.\<close>

definition example_Encode :: "regionResponse \<Rightarrow> string + byte list" where
  "example_Encode r = (if rr_RadiusKm r = PInf then Inl ''unsupported value'' else Inr [1])"

definition example_ParseFloat :: "string \<Rightarrow> float64 option" where
  "example_ParseFloat v = (if v = ''5'' then Some (Fin 5) else if v = ''10'' then Some (Fin 10) else if v = ''Inf'' then Some PInf else Some (Fin 20))"

definition example_query :: "string \<Rightarrow> string \<Rightarrow> string" where
  "example_query radius name = (if name = ''lat'' then ''10'' else if name = ''lon'' then ''20'' else radius)"

theorem handleRegion_correct_witness:
  "\<exists>avg. between (- 10) avg 45 \<and> AverageTemperature [example_reading] = Inr avg \<and>
     handleRegion example_ParseFloat example_math example_Encode []
       \<lparr>rs_readings = [(''a'', example_reading)], rs_firstSeen = Some 1, rs_targetReached = False, rs_targetCount = 2\<rparr> (example_query ''5'') =
       (HTTPOK [1], None) \<and>
     handleRegion example_ParseFloat example_math example_Encode []
       \<lparr>rs_readings = [(''a'', example_reading)], rs_firstSeen = Some 1, rs_targetReached = False, rs_targetCount = 2\<rparr> (example_query ''Inf'') =
       (HTTPOK [], Some ''unsupported value'')"
proof -
  let ?st = "\<lparr>rs_readings = [(''a'', example_reading)], rs_firstSeen = Some 1, rs_targetReached = False, rs_targetCount = 2\<rparr>"
  have q: "parseRegionQuery example_ParseFloat (example_query ''5'') = Inr (rd_Location example_reading, Fin 5)"
    "parseRegionQuery example_ParseFloat (example_query ''Inf'') = Inr (rd_Location example_reading, PInf)"
    by (simp_all add: parseRegionQuery_def coord_parseFloat_def example_reading_def example_query_def example_ParseFloat_def)
  have "math_ok example_math" "loc_ok (rd_Location example_reading)"
    by (simp_all add: math_ok_def example_math_def loc_ok_def example_reading_def)
  then have d: "DistanceKm example_math (rd_Location example_reading) (rd_Location example_reading) = Fin 0" by (rule DistanceKm_self)
  have t: "between (- 10) (rd_TemperatureC example_reading) 45" by (simp add: example_reading_def)
  note c = handleRegion_correct [where ParseFloat = example_ParseFloat and m = example_math and order = "[]" and Encode = example_Encode and store = ?st]
  show ?thesis using c [where query = "example_query ''5''"] c [where query = "example_query ''Inf''"] t
    unfolding q by (auto simp: d example_Encode_def)
qed

end
