(* ===== verification/Services.thy ===== *)
theory Services
  imports CoordServer
begin

text \<open>
  The loops that the two programs start (\<^verbatim>\<open>cmd/node/main.go\<close>, \<^verbatim>\<open>cmd/coordinator/main.go\<close>): the servers that accept
  connections, the loop of a Raft node, the sensor, and the metrics. A loop that waits takes the list of the events that occur. The calls on the
  Prometheus client are recorded in order.
\<close>

section \<open>Servers\<close>

text \<open>What \<^verbatim>\<open>Accept\<close> returns: a connection, \<^verbatim>\<open>net.ErrClosed\<close>, or another error.\<close>

datatype 'c accept_result = Accepted 'c | AcceptClosed | AcceptFailed string

datatype server_end = Serving | Returned "string option"

text \<open>The connections for which a handler is started, in order, and whether the loop has returned.\<close>

fun acceptLoop :: "'c accept_result list \<Rightarrow> 'c list \<times> server_end" where
  "acceptLoop [] = ([], Serving)"
| "acceptLoop (Accepted c # evs) = (let (cs, r) = acceptLoop evs in (c # cs, r))"
| "acceptLoop (AcceptClosed # evs) = ([], Returned None)"
| "acceptLoop (AcceptFailed err # evs) = acceptLoop evs"

definition runTCPServer :: "(string \<Rightarrow> string option) \<Rightarrow> string \<Rightarrow> 'c accept_result list \<Rightarrow> 'c list \<times> server_end" where
  "runTCPServer listen listenAddr evs =
     (case listen listenAddr of
        Some err \<Rightarrow> ([], Returned (Some (''listen on '' @ listenAddr @ '': '' @ err)))
      | None \<Rightarrow> acceptLoop evs)"

definition runGossipServer :: "(string \<Rightarrow> string option) \<Rightarrow> string \<Rightarrow> 'c accept_result list \<Rightarrow> 'c list \<times> server_end" where
  "runGossipServer listen addr evs =
     (case listen addr of
        Some err \<Rightarrow> ([], Returned (Some (''listen on '' @ addr @ '': '' @ err)))
      | None \<Rightarrow> acceptLoop evs)"

definition runRaftServer :: "(string \<Rightarrow> string option) \<Rightarrow> string \<Rightarrow> 'c accept_result list \<Rightarrow> 'c list \<times> server_end" where
  "runRaftServer listen addr evs =
     (case listen addr of
        Some err \<Rightarrow> ([], Returned (Some (''listen on '' @ addr @ '': '' @ err)))
      | None \<Rightarrow> acceptLoop evs)"

section \<open>The loop of a Raft node\<close>

definition raft_State :: "Node \<Rightarrow> State" where
  "raft_State n = state n"

definition raft_CurrentTerm :: "Node \<Rightarrow> u64" where
  "raft_CurrentTerm n = currentTerm n"

definition raft_LeaderID :: "Node \<Rightarrow> string" where
  "raft_LeaderID n = leaderID n"

definition raft_CommitIndex :: "Node \<Rightarrow> u64" where
  "raft_CommitIndex n = commitIndex n"

definition raft_LastHeartbeatTime :: "Node \<Rightarrow> int" where
  "raft_LastHeartbeatTime n = lastHeartbeat n"

definition raft_LogSnapshot :: "Node \<Rightarrow> LogEntry list" where
  "raft_LogSnapshot n = map (\<lambda>k. node_log n ! k) [0..<length (node_log n)]"

text \<open>
  \<^verbatim>\<open>Run\<close>: the channel that is ready in each round, with the node as it is then; the loop is left when the context is done. The result is the sequence of
  the calls, and the error of the context with the node after the timer is stopped.
\<close>

datatype run_event = CtxDone string Node | ElectionTimer Node | HeartbeatTicker Node

datatype run_call = CallElectionTimeout Node | CallSendHeartbeats Node

fun runLoop :: "run_event list \<Rightarrow> run_call list \<times> (Node \<times> string) option" where
  "runLoop [] = ([], None)"
| "runLoop (CtxDone err n # evs) = ([], Some (stopElectionTimer n, err))"
| "runLoop (ElectionTimer n # evs) = (let (cs, r) = runLoop evs in (CallElectionTimeout n # cs, r))"
| "runLoop (HeartbeatTicker n # evs) = (let (cs, r) = runLoop evs in (CallSendHeartbeats n # cs, r))"

definition raft_Run :: "int \<Rightarrow> Node \<Rightarrow> (Node \<Rightarrow> run_event list) \<Rightarrow> run_call list \<times> (Node \<times> string) option" where
  "raft_Run offset n evs = runLoop (evs (resetElectionTimer offset n))"

section \<open>Metrics\<close>

record metric_vec =
  mv_Name :: string
  mv_Help :: string
  mv_Labels :: "string list"

text \<open>A histogram has the arguments of \<^verbatim>\<open>prometheus.ExponentialBuckets\<close>.\<close>

record histogram_vec = metric_vec +
  hv_Buckets :: "float64 \<times> float64 \<times> int"

datatype metric_call = GaugeSet string string float64 | HistogramObserve string string float64

record coordinatorMetrics =
  cm_isLeader :: metric_vec
  cm_currentTerm :: metric_vec
  cm_commitIndex :: metric_vec
  cm_lastHeartbeat :: metric_vec

definition newCoordinatorMetrics :: "string \<Rightarrow> coordinatorMetrics" where
  "newCoordinatorMetrics nodeID =
     \<lparr>cm_isLeader = \<lparr>mv_Name = ''edgesim_raft_is_leader'', mv_Help = ''1 if this coordinator is the Raft leader, 0 otherwise'', mv_Labels = [''node_id'']\<rparr>,
      cm_currentTerm = \<lparr>mv_Name = ''edgesim_raft_current_term'', mv_Help = ''Current Raft term for the coordinator'', mv_Labels = [''node_id'']\<rparr>,
      cm_commitIndex = \<lparr>mv_Name = ''edgesim_raft_commit_index'', mv_Help = ''Highest committed log index on the coordinator'', mv_Labels = [''node_id'']\<rparr>,
      cm_lastHeartbeat = \<lparr>mv_Name = ''edgesim_raft_last_heartbeat_timestamp_seconds'', mv_Help = ''Unix timestamp of the last observed heartbeat'', mv_Labels = [''node_id'']\<rparr>\<rparr>"

text \<open>Times are in nanoseconds since the epoch, and 0 is the zero time; \<^verbatim>\<open>Unix\<close> is the number of whole seconds.\<close>

definition Time_Unix :: "int \<Rightarrow> int" where
  "Time_Unix t = t div 1000000000"

definition coordinatorMetrics_Update :: "coordinatorMetrics option \<Rightarrow> string \<Rightarrow> bool \<Rightarrow> u64 \<Rightarrow> u64 \<Rightarrow> int \<Rightarrow> metric_call list" where
  "coordinatorMetrics_Update m nodeID leader trm index seen =
     (case m of
        None \<Rightarrow> []
      | Some m \<Rightarrow>
          let leaderValue = (if leader then Fin 1 else Fin 0)
          in [GaugeSet (mv_Name (cm_isLeader m)) nodeID leaderValue,
              GaugeSet (mv_Name (cm_currentTerm m)) nodeID (float_of_int (uint trm)),
              GaugeSet (mv_Name (cm_commitIndex m)) nodeID (float_of_int (uint index))] @
             (if seen \<noteq> 0 then [GaugeSet (mv_Name (cm_lastHeartbeat m)) nodeID (float_of_int (Time_Unix seen))] else []))"

text \<open>
  Each of the four accessors takes the lock of the node on its own, so that a tick has four states of the node. The context ends the loop.
\<close>

datatype metrics_event = MetricsDone | MetricsTick Node Node Node Node

fun updateRaftMetrics :: "coordinatorMetrics option \<Rightarrow> string \<Rightarrow> metrics_event list \<Rightarrow> metric_call list" where
  "updateRaftMetrics m nodeID [] = []"
| "updateRaftMetrics m nodeID (MetricsDone # evs) = []"
| "updateRaftMetrics m nodeID (MetricsTick n1 n2 n3 n4 # evs) =
     (let leader = (raft_State n1 = StateLeader)
      in coordinatorMetrics_Update m nodeID leader (raft_CurrentTerm n2) (raft_CommitIndex n3) (raft_LastHeartbeatTime n4) @
         updateRaftMetrics m nodeID evs)"

record nodeMetrics =
  nm_lookupLatency :: histogram_vec
  nm_routingTableSize :: metric_vec
  nm_temperatureC :: metric_vec

definition newNodeMetrics :: "string \<Rightarrow> nodeMetrics" where
  "newNodeMetrics nodeID =
     \<lparr>nm_lookupLatency = \<lparr>mv_Name = ''edgesim_dht_lookup_latency_seconds'', mv_Help = ''Peer lookup latency in seconds'', mv_Labels = [''node_id''],
        hv_Buckets = (round64 (1 / 1000), Fin 2, 12)\<rparr>,
      nm_routingTableSize = \<lparr>mv_Name = ''edgesim_dht_routing_table_size'', mv_Help = ''Number of peers known to the node'', mv_Labels = [''node_id'']\<rparr>,
      nm_temperatureC = \<lparr>mv_Name = ''edgesim_sensor_temperature_celsius'', mv_Help = ''Current temperature reading in Celsius'', mv_Labels = [''node_id'']\<rparr>\<rparr>"

text \<open>\<^verbatim>\<open>Duration.Seconds\<close>; the division truncates.\<close>

definition Duration_Seconds :: "int \<Rightarrow> float64" where
  "Duration_Seconds d =
     (let sec = sgn d * (\<bar>d\<bar> div 1000000000); nsec = d - sec * 1000000000
      in fadd (float_of_int sec) (fdiv (float_of_int nsec) (Fin 1000000000)))"

definition ObserveLookupLatency :: "nodeMetrics option \<Rightarrow> string \<Rightarrow> int \<Rightarrow> metric_call list" where
  "ObserveLookupLatency m nodeID duration =
     (case m of None \<Rightarrow> [] | Some m \<Rightarrow> [HistogramObserve (mv_Name (nm_lookupLatency m)) nodeID (Duration_Seconds duration)])"

definition SetRoutingTableSize :: "nodeMetrics option \<Rightarrow> string \<Rightarrow> int \<Rightarrow> metric_call list" where
  "SetRoutingTableSize m nodeID sz =
     (case m of None \<Rightarrow> [] | Some m \<Rightarrow> [GaugeSet (mv_Name (nm_routingTableSize m)) nodeID (float_of_int sz)])"

definition SetTemperature :: "nodeMetrics option \<Rightarrow> string \<Rightarrow> float64 \<Rightarrow> metric_call list" where
  "SetTemperature m nodeID temperatureC =
     (case m of None \<Rightarrow> [] | Some m \<Rightarrow> [GaugeSet (mv_Name (nm_temperatureC m)) nodeID temperatureC])"

section \<open>The loops of a sensor node\<close>

definition newSensorState :: sensorState where
  "newSensorState = \<lparr>ss_reading = \<lparr>rd_NodeID = '''', rd_TemperatureC = Fin 0, rd_Location = \<lparr>Latitude = Fin 0, Longitude = Fin 0\<rparr>, rd_Timestamp = 0\<rparr>, ss_hasReading = False\<rparr>"

text \<open>The size is set once at the start and then at every tick until the context is done; the arguments are the states it sees.\<close>

fun routingSizeLoop :: "nodeMetrics option \<Rightarrow> config \<Rightarrow> nodeState list \<Rightarrow> metric_call list" where
  "routingSizeLoop m cfg [] = []"
| "routingSizeLoop m cfg (s # ss) = SetRoutingTableSize m (cf_nodeID cfg) (peerCount s) @ routingSizeLoop m cfg ss"

text \<open>
  One round of the sensor loop: the generator, the last reading and the state afterwards, the metrics, and an error of the broadcast or the messages to be sent.
\<close>

definition sensorTick :: "('r \<Rightarrow> 'r \<times> float64) \<Rightarrow> (Reading \<Rightarrow> string + byte list) \<Rightarrow> (nat \<Rightarrow> nat list) \<Rightarrow> nodeMetrics option \<Rightarrow> config \<Rightarrow> int \<Rightarrow> int \<Rightarrow>
    'r Generator \<Rightarrow> sensorState \<Rightarrow> nodeState \<Rightarrow> 'r Generator \<times> sensorState \<times> nodeState \<times> metric_call list \<times> (string + (string \<times> string) list)" where
  "sensorTick NormFloat64 Marshal Perm m cfg now now' generator sensors s =
     (let (generator, reading) = Generator_Next NormFloat64 now generator;
          sensors = sensorState_Set reading sensors;
          s = setReading reading s;
          mcalls = SetTemperature m (cf_nodeID cfg) (rd_TemperatureC reading);
          (s, result) = gossipBroadcast Marshal Perm now' cfg s reading
      in (generator, sensors, s, mcalls, result))"

definition sendGossipFrame :: "(string \<Rightarrow> io_error + conn) \<Rightarrow> string \<Rightarrow> string \<Rightarrow> io_error + byte list" where
  "sendGossipFrame dial addr message =
     (case dial addr of
        Inl err \<Rightarrow> Inl err
      | Inr c \<Rightarrow> (case cn_werr c 0 of Some err \<Rightarrow> Inl err | None \<Rightarrow> Inr (writeFrame (bytes_of message))))"

section \<open>What the loops do\<close>

text \<open>
  A handler is started for exactly the connections that are accepted before the listener is closed, in order. A failure of
  \<^verbatim>\<open>Accept\<close> does not end a server; the close does.
\<close>

lemma acceptLoop_result:
  "acceptLoop evs =
     (concat (map (\<lambda>e. case e of Accepted c \<Rightarrow> [c] | _ \<Rightarrow> []) (takeWhile (\<lambda>e. e \<noteq> AcceptClosed) evs)),
      if AcceptClosed \<in> set evs then Returned None else Serving)"
  by (induction evs rule: acceptLoop.induct) simp_all

text \<open>The handlers of a Raft server, one after the other: the node, and what is written to each connection.\<close>

fun serveRaft :: "raft_json \<Rightarrow> (Reader \<times> int \<times> int \<times> (string \<Rightarrow> raft_error option \<times> string)) list \<Rightarrow> Node \<Rightarrow> (Node \<times> byte list list) option" where
  "serveRaft json [] n = Some (n, [])"
| "serveRaft json ((reader, now, offset, propose) # cs) n =
     (case handleRaftConn json now offset propose reader n of
        None \<Rightarrow> None
      | Some (n', reply, _) \<Rightarrow> map_option (\<lambda>(n'', replies). (n'', reply # replies)) (serveRaft json cs n'))"

lemma handleRaftConn_quiet: "handleRaftConn json now offset propose reader n = Some (n', reply, es, cmds) \<Longrightarrow> quiet n n'"
  using quiet_RequestVote [of n offset]
  by (fastforce simp: handleRaftConn_def case_prod_beta Let_def split: sum.splits option.splits if_splits dest: quiet_AppendEntries)

text \<open>
  Whatever the peers send, serving them never lowers the term of a node, never changes a vote that it has cast in its term, and never makes it a
  candidate or a leader.
\<close>

lemma serveRaft_quiet: "serveRaft json cs n = Some (n', replies) \<Longrightarrow> quiet n n' \<and> length replies = length cs"
proof (induction json cs n arbitrary: replies rule: serveRaft.induct)
  case (2 json reader now offset propose cs n)
  obtain m reply es cmds rs where m: "handleRaftConn json now offset propose reader n = Some (m, reply, es, cmds)"
    "serveRaft json cs m = Some (n', rs)" "replies = reply # rs"
    using "2.prems" by (auto split: option.splits)
  show ?case using "2.IH" [OF m(1) HOL.refl HOL.refl m(2)] quiet_trans [OF handleRaftConn_quiet [OF m(1)]] by (simp add: m(3))
qed simp

text \<open>The loop of a Raft node handles each event before the context is done once, and then returns with the timer stopped.\<close>

lemma runLoop_result:
  assumes "\<forall>e \<in> set evs. \<forall>err n. e \<noteq> CtxDone err n"
  shows "runLoop (evs @ CtxDone err n # rest) =
    (map (\<lambda>e. case e of ElectionTimer m \<Rightarrow> CallElectionTimeout m | HeartbeatTicker m \<Rightarrow> CallSendHeartbeats m | CtxDone _ m \<Rightarrow> CallSendHeartbeats m) evs,
     Some (stopElectionTimer n, err))"
  using assms by (induction evs) (auto split: run_event.splits)

lemma raft_LogSnapshot_log [simp]: "raft_LogSnapshot n = node_log n"
  by (simp add: raft_LogSnapshot_def map_nth)

text \<open>The names are different, as the registry requires.\<close>

lemma metric_names_distinct:
  "distinct (map mv_Name [cm_isLeader (newCoordinatorMetrics i), cm_currentTerm (newCoordinatorMetrics i), cm_commitIndex (newCoordinatorMetrics i),
     cm_lastHeartbeat (newCoordinatorMetrics i)])"
  "distinct [mv_Name (nm_lookupLatency (newNodeMetrics i)), mv_Name (nm_routingTableSize (newNodeMetrics i)), mv_Name (nm_temperatureC (newNodeMetrics i))]"
  by (simp_all add: newCoordinatorMetrics_def newNodeMetrics_def)

text \<open>
  A tick at which the node does not change reports the node: the leader gauge is 1 exactly for a leader, and terms and indices up to \<open>2 ^ 53\<close> are exact.
\<close>

lemma updateRaftMetrics_reports:
  assumes "uint (currentTerm n) \<le> 2 ^ 53" and "uint (commitIndex n) \<le> 2 ^ 53"
  shows "take 3 (updateRaftMetrics (Some (newCoordinatorMetrics i)) i (MetricsTick n n n n # evs)) =
    [GaugeSet ''edgesim_raft_is_leader'' i (if state n = StateLeader then Fin 1 else Fin 0),
     GaugeSet ''edgesim_raft_current_term'' i (Fin (of_int (uint (currentTerm n)))),
     GaugeSet ''edgesim_raft_commit_index'' i (Fin (of_int (uint (commitIndex n))))]"
  using assms float_of_int_exact [of "uint (currentTerm n)"] float_of_int_exact [of "uint (commitIndex n)"]
  by (simp add: coordinatorMetrics_Update_def raft_State_def raft_CurrentTerm_def raft_CommitIndex_def newCoordinatorMetrics_def)

text \<open>
  After a round of the sensor loop the last reading, the node's entry in its own table and the temperature gauge are one and the
  same reading of the node, with a temperature in range; the state stays well formed.
\<close>

lemma sensorTick_consistent:
  assumes "gen_ok (cf_nodeID cfg) g" and "\<And>r. \<exists>q. snd (NormFloat64 r) = Fin q"
    and "sensorTick NormFloat64 Marshal Perm (Some m) cfg now now' g sensors s = (g', sensors', s', mcalls, result)"
  shows "\<exists>r. gen_ok (cf_nodeID cfg) g' \<and> sensorState_Last sensors' = (r, True) \<and> ns_readings s' = (ns_readings s)(cf_nodeID cfg \<mapsto> r) \<and>
    mcalls = [GaugeSet (mv_Name (nm_temperatureC m)) (cf_nodeID cfg) (rd_TemperatureC r)] \<and> between (- 10) (rd_TemperatureC r) 45 \<and>
    (state_ok s \<longrightarrow> state_ok s')"
proof -
  obtain r where r: "Generator_Next NormFloat64 now g = (g', r)" "sensors' = sensorState_Set r sensors"
    "s' = fst (gossipBroadcast Marshal Perm now' cfg (setReading r s) r)"
    "mcalls = [GaugeSet (mv_Name (nm_temperatureC m)) (cf_nodeID cfg) (rd_TemperatureC r)]"
    using assms(3) by (auto simp: sensorTick_def SetTemperature_def Let_def split: prod.splits)
  note ok = Generator_Next_ok [OF assms(1,2) r(1)]
  have same: "s' = setReading r s \<or> (\<exists>msg. s' = fst (shouldProcessGossip now' msg (setReading r s)))"
    unfolding r(3) gossipBroadcast_def gossipPrepare_def by (auto simp: Let_def case_prod_beta split: sum.splits)
  then have "ns_readings s' = ns_readings (setReading r s)" by (auto simp: shouldProcessGossip_def split: option.splits)
  moreover have "state_ok s \<Longrightarrow> state_ok s'" using same state_ok_setReading [of s r] state_ok_shouldProcessGossip by auto
  ultimately show ?thesis using ok(1-3) r(2,4) by (auto simp: setReading_def sensorState_Last_def sensorState_Set_def)
qed

text \<open>The frame that is sent for a gossip message is read back as the message.\<close>

lemma sendGossipFrame_read:
  assumes "sendGossipFrame dial addr message = Inr bs" and "length message < 2 ^ 32"
  shows "snd (readFrame \<lparr>rd_data = bs, rd_end = e\<rparr>) = Inr (bytes_of message)"
  using assms readFrame_writeFrame [of "bytes_of message" "[]" e] by (auto simp: sendGossipFrame_def split: sum.splits option.splits)

section \<open>The start of the coordinator\<close>

text \<open>\<open>None\<close> stands for the conversion of a number that no integer represents, whose result Go leaves open.\<close>

definition coordinator_init :: "nat list \<Rightarrow> coord_config \<Rightarrow> (raft_error + readingStore \<times> coordinatorMetrics \<times> tcpTransport \<times> Node) option" where
  "coordinator_init order cfg =
     (case newReadingStore (co_totalNodes cfg) (co_targetRatio cfg) of
        None \<Rightarrow> None
      | Some store \<Rightarrow>
          let metrics = newCoordinatorMetrics (co_raftID cfg);
              transport = newTCPTransport (co_raftPeers cfg)
          in case raft_NewNode (raftConfig order cfg) of
               Inl err \<Rightarrow> Some (Inl err)
             | Inr n \<Rightarrow> Some (Inr (store, metrics, transport, n)))"

text \<open>
  With every environment the configuration is one that the Raft node accepts: it starts as a follower that has not voted, and it is not among its own peers.
\<close>

lemma coordinator_starts:
  assumes "coordinator_init order (coord_loadConfig ParseFloat Getenv) = Some r"
  shows "\<exists>store metrics transport n. r = Inr (store, metrics, transport, n) \<and> state n = StateFollower \<and> currentTerm n = 0 \<and> votedFor n = '''' \<and>
    node_log n = [] \<and> node_id n \<noteq> '''' \<and> node_id n \<notin> set (peers_of n) \<and> electionMin n < electionMax n"
  using assms
  by (auto simp: coordinator_init_def raft_NewNode_def raftConfig_def coord_loadConfig_def coord_getenvDefault_def raftPeerIDs_def Let_def
      split: option.splits if_splits)

end
