(* ===== verification/Spec2Isabelle.thy ===== *)
theory Spec2Isabelle
  imports DhtFlow RaftSafety Services
begin

text \<open>
  A verification of EdgeSim, a simulation of a peer-to-peer network of edge sensors (\<^verbatim>\<open>src/\<close>).

  \<^bold>\<open>The program.\<close> Sensor nodes (\<^verbatim>\<open>cmd/node\<close>) take temperature readings, find each other through bootstrap
  addresses, and spread their readings by gossip to other nodes and to a coordinator. Coordinators
  (\<^verbatim>\<open>cmd/coordinator\<close>) turn a reading that arrives into a command, replicate the command with Raft
  (\<^verbatim>\<open>pkg/raft\<close>), apply it to a store, and answer queries for the average temperature of a region
  (\<^verbatim>\<open>pkg/sensor\<close>) over HTTP. A third program (\<^verbatim>\<open>cmd/dhtsim\<close>) builds twenty nodes of a Kademlia table
  (\<^verbatim>\<open>pkg/dht\<close>), stores a reading of each in it, finds all of them again, and simulates gossip (\<^verbatim>\<open>pkg/gossip\<close>).

  \<^bold>\<open>Conventions.\<close> A struct is a record, an operation is a function on it, and a run-time panic is \<open>None\<close>. An error is a value
  of a sum or option type. Code that runs under a lock is one definition; an operation that takes the lock several times is cut
  there, and its pieces are the actions of a transition system. Integers are 64-bit words, or integers with
  \<^const>\<open>wrap64\<close> where they may overflow. A map is a function or an association list. The order in which Go iterates over a map is an
  argument, and so are the clock, the random numbers, and what the network does. \<^verbatim>\<open>float64\<close> has its own theory, with
  every operation rounded.

  \<^bold>\<open>The library.\<close>
  \<^item> \<open>Prelude\<close>: machine types, slices, majorities. \<open>GoStrings\<close>, \<open>GoText\<close>, \<open>Sha256\<close>, \<open>Float64\<close>: the parts of the standard library that the
    sources use, with the facts about them (hexadecimal and base64 round trips, monotone rounding, length of a digest).

  \<^bold>\<open>The distributed table.\<close>
  \<^item> \<open>NodeId\<close> (\<^verbatim>\<open>pkg/dht/dht.go\<close>, \<^verbatim>\<open>key.go\<close>): identifiers; parsing inverts printing.
  \<^item> \<open>Bucket\<close> (\<^verbatim>\<open>bucket.go\<close>): k-buckets. They refine a bounded list in order of recency, and hold the peers that were
    added last.
  \<^item> \<open>Routing\<close> (\<^verbatim>\<open>routing.go\<close>): the XOR distance is a metric in which no two identifiers are equally far from a third, the index of a bucket is
    in range, \<open>AddPeer\<close> keeps the invariant of the table, and \<open>GetClosestPeers\<close> returns the closest peers.
  \<^item> \<open>Lookup\<close> (\<^verbatim>\<open>lookup.go\<close>): the iterative lookup terminates and finds the closest of all peers it heard of. It asks no
    peer twice, and its result does not depend on the iteration order of maps.
    The locale \<open>node_requests\<close> states what a lookup relies on.
  \<^item> \<open>Store\<close> (\<^verbatim>\<open>store.go\<close>): local storage, the handlers, the search for values, the iterative store.
  \<^item> \<open>Dhtsim\<close> and \<open>DhtFlow\<close> (\<^verbatim>\<open>cmd/dhtsim\<close>): a value that is stored is found again; the network that is built is fully linked; the
    program publishes and finds all readings, and ends normally or because gossip missed its target
    (\<open>dhtsim_main_outcome\<close>). These theorems are about contexts that are not done.

  \<^bold>\<open>Consensus.\<close>
  \<^item> \<open>RaftNode\<close> (\<^verbatim>\<open>pkg/raft/types.go\<close>, \<^verbatim>\<open>node.go\<close>): the node and the handlers, with their complete behaviour.
  \<^item> \<open>RaftCluster\<close>: the goroutines of a group as actions on a state. \<open>RaftElection\<close>: two winners of one term are the same. \<open>RaftPaths\<close>,
    \<open>RaftLog\<close>, \<open>RaftSafety\<close>: log matching; an entry that was reported as replicated is in the log of each later leader; no panic. The
    theorems hold for all interleavings, with messages lost, delayed and repeated, in executions in which no node is started again. Two weaknesses
    are theorems too: a group of one never has a leader, and a heartbeat makes a follower apply entries that differ from the leader's.
  \<^item> \<open>RaftTransport\<close> (\<^verbatim>\<open>transport.go\<close>): the transport in memory, and the contract \<open>rpc_transport\<close>.

  \<^bold>\<open>Sensors and coordinators.\<close>
  \<^item> \<open>Sensor\<close> (\<^verbatim>\<open>pkg/sensor\<close>): readings are in range, and a region query around a reading succeeds. The locale \<open>reading_store\<close> is the contract of
    a table of latest readings; the sensor node and the coordinator have one each.
  \<^item> \<open>GossipSim\<close> (\<^verbatim>\<open>pkg/gossip\<close>): with a large fanout the simulation is a breadth-first search; in general it stays within its bounds.
  \<^item> \<open>Message\<close> (\<^verbatim>\<open>message.go\<close>): frames, which can be read back. \<open>NodeState\<close>, \<open>NodeGossip\<close>, \<open>NodeServer\<close> (\<^verbatim>\<open>cmd/node\<close>): the shared state,
    configuration, gossip, server and bootstrap of a node; a node that joins and the node it asks know the same addresses afterwards.
  \<^item> \<open>GossipNet\<close>: a network of sensor nodes as a transition system. Each reading that a node holds was taken by the node it names, and
    a node sends at most \<open>fanout\<close> copies of a message for each time it broadcasts it, and \<open>fanout\<close> more for all the copies that it receives.
  \<^item> \<open>Coordinator\<close>, \<open>CoordRaft\<close>, \<open>CoordServer\<close> (\<^verbatim>\<open>cmd/coordinator\<close>): the store announces its target once; the transport over TCP does what the transport
    in memory does; a reading that is sent as gossip becomes a command, which is proposed, or sent to the leader, or dropped if the
    address of the leader is unknown, and which, once applied, stores this reading; the answer to a region query is
    given for every query and store, failures of the JSON encoder included. One more weakness: a reading whose proposal the node
    refuses is dropped, although the leader is known.
  \<^item> \<open>Services\<close>: the accept loops, the loop of a Raft node, the sensor loop, the metrics, and the start of the coordinator.

  \<^bold>\<open>Assumptions and bounds.\<close> There is no fuel: all loops terminate, or take the list of the events that occur. The number of
  rounds of a lookup is bounded by its options. A slice of log entries is shorter than \<open>2 ^ 62\<close>, because an
  entry takes 24 bytes; a term counter does not reach its last value, which would take \<open>2 ^ 64\<close> elections. Allocations succeed. A product that is
  added is rounded first, as on amd64; the two zeros are one value. The zero time is 0 or \<open>None\<close>.

  \<^bold>\<open>Parameters.\<close> Upper case outside ASCII, the JSON encoder and decoder, \<^verbatim>\<open>ParseFloat\<close>, \<^verbatim>\<open>ParseDuration\<close>, the format of times, the functions of \<^verbatim>\<open>math\<close> that are not
  exactly rounded, the generators of random numbers, the environment and flags, dialling, connections and listeners. What a theorem needs of
  them is a hypothesis: that decoding inverts encoding for the messages at hand, that a random permutation is a permutation, that random
  numbers are in their range, that sine, arc sine and square root map 0 to 0 and a cosine is between -1 and 1.

  \<^bold>\<open>Not modelled.\<close> Logging; the HTTP library and the servers of the metrics, which only call it and the Prometheus client; the registry and
  the storage of the Prometheus client, of which only the calls appear; signals and the start of goroutines in the two \<^verbatim>\<open>main\<close> functions;
  timers, except for the duration to which they are set; deadlines of contexts, except as the point at which they are done.
  \<^verbatim>\<open>pkg/proto\<close> holds no code.
  \<^item> Restarts. A coordinator keeps its term, its vote and its log in memory only; one that crashes and is started again has forgotten them, and grants
    any vote (\<open>restarted_node_grants\<close>). The transition system has no such action: a node that crashes stays silent. The theorems about
    elections and logs are about executions without restarts, although \<^verbatim>\<open>docs/design.md\<close> assumes that nodes crash and recover.
  \<^item> Data races. Shared state is accessed under locks, with three exceptions in \<^verbatim>\<open>node.go\<close>: the goroutines that send votes, entries and heartbeats
    read the log and the commit index without the lock (lines 285, 382, 447). These reads are actions of their own,
    so that they see the node at different times, but always between two locked sections; a read in the middle of an assignment, or between
    the two assignments with which \<^verbatim>\<open>appendEntries\<close> replaces an entry, is not modelled.
  \<^item> Faults of the TCP transport. That it does what the transport in memory does is shown for a network that delivers; with faults,
    a request also may end with an error, handled or not (\<open>sendRaftRPC_lossy\<close>).
\<close>

end
